(* ===== verification/Xv6_Prelude.thy ===== *)
theory Xv6_Prelude
  imports Main "HOL-Library.Word"
begin

text \<open>
  Shared vocabulary of the development: the fixed-width C types, little-endian
  encodings of integers as byte lists, arrays of fixed-width slots inside a block,
  the contract of a fixed-width record encoding, and the lemma collections that the
  component theories feed.
\<close>

unbundle bit_operations_syntax

type_synonym byte = "8 word"
type_synonym u16 = "16 word"
type_synonym u32 = "32 word"
type_synonym u64 = "64 word"

named_theorems lock_simps \<open>rewriting of lock brackets\<close>
named_theorems frame_simps \<open>fields an operation leaves alone\<close>
named_theorems word_nat_simps \<open>reading word arithmetic as arithmetic on nat\<close>

section \<open>Words read as natural numbers\<close>

lemma unat_add_small [word_nat_simps]:
  fixes a b :: "'a::len word"
  assumes "unat a + unat b < 2 ^ LENGTH('a)"
  shows "unat (a + b) = unat a + unat b"
  using assms by (simp add: unat_word_ariths)

lemma unat_of_nat_small [word_nat_simps]:
  "n < 2 ^ LENGTH('a) \<Longrightarrow> unat (of_nat n :: 'a::len word) = n"
  by (simp add: unat_of_nat)

lemma unat_add_of_nat [word_nat_simps]:
  fixes a :: "'a::len word"
  assumes "unat a + n < 2 ^ LENGTH('a)"
  shows "unat (a + of_nat n) = unat a + n"
  using assms by (simp add: unat_word_ariths unat_of_nat mod_simps)

lemma word_eq_iff_unat: "(a = b) \<longleftrightarrow> unat a = unat b" for a b :: "'a::len word"
  by (simp add: word_unat_eq_iff)

lemma word_offset_iff:
  fixes a d :: "'a::len word"
  assumes "n < 2 ^ LENGTH('a)"
  shows "a = d + of_nat n \<longleftrightarrow> unat (a - d) = n"
proof -
  have "a = d + of_nat n \<longleftrightarrow> a - d = of_nat n" by (auto simp: algebra_simps)
  also have "\<dots> \<longleftrightarrow> unat (a - d) = n"
    using assms by (simp add: word_eq_iff_unat unat_of_nat)
  finally show ?thesis .
qed

lemma unat_bound: "unat (a :: 'a::len word) < 2 ^ LENGTH('a)"
  by simp

section \<open>Multiples of a size\<close>

lemma dvd_room:
  fixes a b d :: nat
  assumes "d dvd a" and "d dvd b" and "a < b"
  shows "a + d \<le> b"
proof -
  from assms obtain k l where a: "a = d * k" and b: "b = d * l" by (auto elim!: dvdE)
  with assms(3) have "Suc k \<le> l" by simp
  then have "d * Suc k \<le> d * l" by (rule mult_le_mono2)
  then show ?thesis by (simp add: a b)
qed

lemma in_chunk_iff:
  fixes a x d :: nat
  assumes "d dvd a" and "0 < d"
  shows "a \<le> x \<and> x < a + d \<longleftrightarrow> x div d = a div d"
proof -
  from assms(1) obtain k where a: "a = d * k" by (elim dvdE)
  show ?thesis
  proof
    assume "a \<le> x \<and> x < a + d"
    then have "x div d = k" by (intro div_nat_eqI) (simp_all add: a)
    then show "x div d = a div d" using assms(2) by (simp add: a)
  next
    assume "x div d = a div d"
    then have "x div d = k" using assms(2) by (simp add: a)
    then show "a \<le> x \<and> x < a + d"
      using assms(2) dividend_less_times_div [of d x] times_div_less_eq_dividend [of d x]
      by (simp add: a)
  qed
qed

lemma chunk_base:
  fixes a x d :: nat
  assumes "d dvd a" and "0 < d"
  shows "x div d = a div d \<longleftrightarrow> x div d * d = a"
  using assms by (auto elim!: dvdE)

section \<open>Little-endian integers\<close>

text \<open>
  The compiler lays an integer of n bytes out least significant byte first. \<open>le_bytes\<close>
  is the store, \<open>le_val\<close> the load.
\<close>

definition le_bytes :: "nat \<Rightarrow> 'a::len word \<Rightarrow> byte list" where
  "le_bytes n w = map (\<lambda>i. ucast (drop_bit (8 * i) w)) [0..<n]"

definition le_val :: "byte list \<Rightarrow> 'a::len word" where
  "le_val bs = word_of_int (horner_sum uint 256 bs)"

lemma length_le_bytes [simp]: "length (le_bytes n w) = n"
  by (simp add: le_bytes_def)

lemma nth_le_bytes: "i < n \<Longrightarrow> le_bytes n w ! i = ucast (drop_bit (8 * i) w)"
  by (simp add: le_bytes_def)

lemma bit_le_val:
  "bit (le_val bs :: 'a::len word) k \<longleftrightarrow>
     k < LENGTH('a) \<and> k div 8 < length bs \<and> bit (bs ! (k div 8)) (k mod 8)"
proof -
  have "bit (horner_sum uint (2 ^ LENGTH(8)) bs) k \<longleftrightarrow>
      k div LENGTH(8) < length bs \<and> bit (bs ! (k div LENGTH(8))) (k mod LENGTH(8))"
    by (rule bit_horner_sum_uint_exp_iff)
  then show ?thesis
    by (simp add: le_val_def bit_word_of_int_iff)
qed

lemma le_val_le_bytes:
  assumes "LENGTH('a) \<le> 8 * n"
  shows "le_val (le_bytes n w) = (w :: 'a::len word)"
proof (rule bit_word_eqI)
  fix k assume k: "k < LENGTH('a)"
  then have d: "k div 8 < n" using assms by arith
  have "8 * (k div 8) + k mod 8 = k" by simp
  then show "bit (le_val (le_bytes n w) :: 'a word) k \<longleftrightarrow> bit w k"
    using k d by (simp add: bit_le_val nth_le_bytes bit_drop_bit_eq bit_ucast_iff)
qed

lemma le_bytes_le_val:
  assumes "length bs = n" and "8 * n \<le> LENGTH('a)"
  shows "le_bytes n (le_val bs :: 'a::len word) = bs"
proof (rule nth_equalityI)
  show "length (le_bytes n (le_val bs :: 'a word)) = length bs"
    using assms by simp
  fix i assume "i < length (le_bytes n (le_val bs :: 'a word))"
  then have i: "i < n" by simp
  have "ucast (drop_bit (8 * i) (le_val bs :: 'a word)) = bs ! i"
  proof (rule bit_word_eqI)
    fix k assume k: "k < LENGTH(8)"
    then have "(8 * i + k) div 8 = i" and "(8 * i + k) mod 8 = k" by auto
    moreover have "8 * i + k < LENGTH('a)" using i k assms(2) by auto
    ultimately show "bit (ucast (drop_bit (8 * i) (le_val bs :: 'a word)) :: byte) k = bit (bs ! i) k"
      using k i assms(1)
      by (simp add: bit_ucast_iff bit_drop_bit_eq bit_le_val)
  qed
  with i show "le_bytes n (le_val bs :: 'a word) ! i = bs ! i"
    by (simp add: nth_le_bytes)
qed

lemma le_val_zeros: "le_val (replicate n 0) = (0 :: 'a::len word)"
  by (rule bit_word_eqI) (simp add: bit_le_val)

section \<open>Slots of a block\<close>

text \<open>
  \<open>((struct T *) data)[i]\<close> for a structure of w bytes: the i-th slot of a byte list.
\<close>

definition get_slot :: "nat \<Rightarrow> nat \<Rightarrow> 'a list \<Rightarrow> 'a list" where
  "get_slot w i b = take w (drop (i * w) b)"

definition put_slot :: "nat \<Rightarrow> nat \<Rightarrow> 'a list \<Rightarrow> 'a list \<Rightarrow> 'a list" where
  "put_slot w i v b = take (i * w) b @ v @ drop (i * w + w) b"

lemma length_put_slot [simp]:
  assumes "i * w + w \<le> length b" and "length v = w"
  shows "length (put_slot w i v b) = length b"
  using assms by (simp add: put_slot_def)

lemma length_get_slot [simp]: "i * w + w \<le> length b \<Longrightarrow> length (get_slot w i b) = w"
  by (simp add: get_slot_def)

lemma get_put_slot_same [simp]:
  assumes "i * w + w \<le> length b" and "length v = w"
  shows "get_slot w i (put_slot w i v b) = v"
  using assms by (simp add: put_slot_def get_slot_def)

lemma nth_put_slot:
  assumes "i * w + w \<le> length b" and "length v = w" and "m < length b"
  shows "put_slot w i v b ! m =
     (if i * w \<le> m \<and> m < i * w + w then v ! (m - i * w) else b ! m)"
  using assms by (auto simp: put_slot_def nth_append)

lemma get_put_slot_other:
  assumes "i * w + w \<le> length b" and "length v = w" and "i \<noteq> j"
  shows "get_slot w j (put_slot w i v b) = get_slot w j b"
proof (rule nth_equalityI)
  show len: "length (get_slot w j (put_slot w i v b)) = length (get_slot w j b)"
    using assms(1,2) by (simp add: get_slot_def)
  fix k assume "k < length (get_slot w j (put_slot w i v b))"
  then have k: "k < w" and jk: "j * w + k < length b"
    using len by (auto simp: get_slot_def)
  have "j * w + k < i * w \<or> i * w + w \<le> j * w + k"
  proof (cases "j < i")
    case True
    then have "Suc j * w \<le> i * w" by (intro mult_le_mono1) simp
    with k show ?thesis by simp
  next
    case False
    with assms(3) have "Suc i * w \<le> j * w" by (intro mult_le_mono1) simp
    then show ?thesis by simp
  qed
  then have "put_slot w i v b ! (j * w + k) = b ! (j * w + k)"
    using nth_put_slot [OF assms(1,2) jk] by auto
  moreover have "j * w + k < length (put_slot w i v b)"
    using jk assms(1,2) by simp
  ultimately show "get_slot w j (put_slot w i v b) ! k = get_slot w j b ! k"
    using k jk unfolding get_slot_def by (simp add: less_imp_le)
qed

lemma put_get_slot [simp]:
  assumes "i * w + w \<le> length b"
  shows "put_slot w i (get_slot w i b) b = b"
proof -
  have "take w (drop (i * w) b) @ drop (i * w + w) b = drop (i * w) b"
    by (metis add.commute append_take_drop_id drop_drop)
  then show ?thesis by (simp add: put_slot_def get_slot_def)
qed

section \<open>Fixed-width encodings\<close>

text \<open>
  What the file system relies on for every on-disk structure: an encoding into exactly
  \<open>width\<close> bytes and a decoding that inverts it. Reading one slot of a block after
  writing another is then a matter of comparing slot numbers.
\<close>

locale codec =
  fixes enc :: "'a \<Rightarrow> byte list"
    and dec :: "byte list \<Rightarrow> 'a"
    and width :: nat
    and valid :: "'a \<Rightarrow> bool"
  assumes dec_enc: "valid x \<Longrightarrow> dec (enc x) = x"
    and length_enc: "valid x \<Longrightarrow> length (enc x) = width"
begin

lemma dec_put_slot_same:
  assumes "valid x" and "i * width + width \<le> length b"
  shows "dec (get_slot width i (put_slot width i (enc x) b)) = x"
  using assms by (simp add: dec_enc length_enc)

lemma dec_put_slot_other:
  assumes "valid x" and "i * width + width \<le> length b" and "i \<noteq> j"
  shows "dec (get_slot width j (put_slot width i (enc x) b)) = dec (get_slot width j b)"
  using assms by (simp add: get_put_slot_other length_enc)

lemma length_put_enc:
  assumes "valid x" and "i * width + width \<le> length b"
  shows "length (put_slot width i (enc x) b) = length b"
  using assms by (simp add: length_enc)

lemma enc_inj: "valid x \<Longrightarrow> valid y \<Longrightarrow> enc x = enc y \<Longrightarrow> x = y"
  by (metis dec_enc)

end

interpretation u16c: codec "le_bytes 2 :: u16 \<Rightarrow> _" le_val 2 "\<lambda>_. True"
  by unfold_locales (simp_all add: le_val_le_bytes)

interpretation u32c: codec "le_bytes 4 :: u32 \<Rightarrow> _" le_val 4 "\<lambda>_. True"
  by unfold_locales (simp_all add: le_val_le_bytes)

interpretation u64c: codec "le_bytes 8 :: u64 \<Rightarrow> _" le_val 8 "\<lambda>_. True"
  by unfold_locales (simp_all add: le_val_le_bytes)

section \<open>Reachable states\<close>

text \<open>
  The concurrent parts are step relations; a property of every reachable state is proved
  by giving an invariant that the initial states have and every step keeps.
\<close>

inductive reachable :: "('s \<Rightarrow> bool) \<Rightarrow> ('s \<Rightarrow> 's \<Rightarrow> bool) \<Rightarrow> 's \<Rightarrow> bool"
  for init :: "'s \<Rightarrow> bool" and step :: "'s \<Rightarrow> 's \<Rightarrow> bool" where
  reachable_init: "init s \<Longrightarrow> reachable init step s"
| reachable_step: "reachable init step s \<Longrightarrow> step s t \<Longrightarrow> reachable init step t"

lemma reachable_invariant:
  assumes "reachable init step s"
    and "\<And>s. init s \<Longrightarrow> I s" and "\<And>s t. I s \<Longrightarrow> step s t \<Longrightarrow> I t"
  shows "I s"
  using assms(1) by induction (use assms(2,3) in blast)+

end
