(* ===== verification/Machine.thy ===== *)
theory Machine
  imports Xv6_Prelude
begin

text \<open>
  The kernel's state as the C sources lay it out (param.h, riscv.h, memlayout.h,
  spinlock.h, proc.h), the outcomes of a kernel function, and byte-addressed physical
  memory. A kernel function takes the state and returns an outcome: it returns a value
  and a new state, it calls panic, it switches to the scheduler (sched, and through it
  sleep, yield and exit), or it spins on a lock that another hart holds. \<open>Fuel\<close> marks a
  recursion that was given too small a bound. A function that has switched to the
  scheduler continues, when the process runs again, in the \<open>_resume\<close> function of the
  call that slept. Flags that only hold 0 or 1 are of type bool; null pointers to table
  entries are \<open>None\<close>; pointers into physical memory are 64-bit words. A dereference of a
  null pointer to a table entry is the fault that kerneltrap panics on.
\<close>

section \<open>Constants\<close>

definition NPROC :: nat where "NPROC = 64"
definition NCPU :: nat where "NCPU = 8"
definition NOFILE :: nat where "NOFILE = 16"
definition NFILE :: nat where "NFILE = 100"
definition NINODE :: nat where "NINODE = 50"
definition NDEV :: nat where "NDEV = 10"
definition ROOTDEV :: nat where "ROOTDEV = 1"
definition MAXARG :: nat where "MAXARG = 32"
definition MAXOPBLOCKS :: nat where "MAXOPBLOCKS = 10"
definition LOGSIZE :: nat where "LOGSIZE = MAXOPBLOCKS * 3"
definition NBUF :: nat where "NBUF = MAXOPBLOCKS * 3"
definition FSSIZE :: nat where "FSSIZE = 1000"
definition MAXPATH :: nat where "MAXPATH = 128"

definition PGSIZE :: u64 where "PGSIZE = 4096"
definition PGROUNDUP :: "u64 \<Rightarrow> u64" where
  "PGROUNDUP sz = (sz + PGSIZE - 1) AND NOT (PGSIZE - 1)"
definition PGROUNDDOWN :: "u64 \<Rightarrow> u64" where
  "PGROUNDDOWN a = a AND NOT (PGSIZE - 1)"

definition KERNBASE :: u64 where "KERNBASE = 0x80000000"
definition PHYSTOP :: u64 where "PHYSTOP = KERNBASE + 128 * 1024 * 1024"
definition MAXVA :: u64 where "MAXVA = push_bit (9 + 9 + 9 + 12 - 1) 1"
definition TRAMPOLINE :: u64 where "TRAMPOLINE = MAXVA - PGSIZE"
definition TRAPFRAME :: u64 where "TRAPFRAME = TRAMPOLINE - PGSIZE"
definition KSTACK :: "nat \<Rightarrow> u64" where
  "KSTACK p = TRAMPOLINE - (of_nat p + 1) * 2 * PGSIZE"

section \<open>Locks, channels and processes\<close>

text \<open>The address of a lock identifies it; so does the address a process sleeps on.\<close>

datatype sleepid = BufLock nat | InodeLock nat

datatype lockid =
    KmemLock | PidLock | ProcLock nat | BcacheLock | LogLock | IcacheLock | FtableLock
  | PipeLock u64 | ConsLock | UartTxLock | TicksLock | VdiskLock | PrLock | SleepLk sleepid

datatype chan =
    ProcChan nat | TicksChan | LogChan | PipeReadChan u64 | PipeWriteChan u64
  | SleepChan sleepid | ConsChan | UartChan | DiskFreeChan | DiskBufChan nat

record spinlock =
  lk_locked :: bool
  lk_name :: string
  lk_cpu :: "nat option"

record sleeplock =
  sl_locked :: bool
  sl_name :: string
  sl_pid :: int

record kcontext =
  ctx_ra :: u64
  ctx_sp :: u64
  ctx_saved :: "u64 list"

record cpu =
  cpu_proc :: "nat option"
  cpu_context :: kcontext
  noff :: int
  intena :: bool

datatype procstate = UNUSED | SLEEPING | RUNNABLE | RUNNING | ZOMBIE

record proc =
  p_state :: procstate
  p_parent :: "nat option"
  p_chan :: "chan option"
  p_killed :: bool
  p_xstate :: int
  p_pid :: int
  p_kstack :: u64
  p_sz :: u64
  p_pagetable :: u64
  p_trapframe :: u64
  p_context :: kcontext
  p_ofile :: "nat option list"
  p_cwd :: "nat option"
  p_name :: "byte list"

text \<open>
  The control registers of the hart that runs the code being modelled. Of sstatus the
  kernel uses three bits: SPP and SPIE, here, and SIE, the field \<open>sie\<close> of the state.
\<close>

record csrs =
  csr_satp :: u64
  csr_stvec :: u64
  csr_sepc :: u64
  csr_scause :: u64
  csr_stval :: u64
  csr_sip :: u64
  csr_spp :: bool
  csr_spie :: bool

text \<open>
  The part of the state that every hart's kernel code touches. \<open>tp\<close> is the hart that
  runs the code being modelled and \<open>sie\<close> that hart's interrupt-enable bit
  (SSTATUS_SIE). Later theories extend the record with the state of their component.
\<close>

record mach =
  tp :: nat
  sie :: bool
  csr :: csrs
  cpus :: "nat \<Rightarrow> cpu"
  locks :: "lockid \<Rightarrow> spinlock"
  procs :: "nat \<Rightarrow> proc"
  nextpid :: int
  initproc :: "nat option"
  pmem :: "u64 \<Rightarrow> byte"
  freelist :: u64
  kernel_pagetable :: u64
  ticks :: u32

text \<open>The machine when the loader starts the kernel: all of memory and every table zero.\<close>

definition kcontext0 :: kcontext where
  "kcontext0 = \<lparr>ctx_ra = 0, ctx_sp = 0, ctx_saved = replicate 12 0\<rparr>"

definition proc0 :: proc where
  "proc0 = \<lparr>p_state = UNUSED, p_parent = None, p_chan = None, p_killed = False, p_xstate = 0,
     p_pid = 0, p_kstack = 0, p_sz = 0, p_pagetable = 0, p_trapframe = 0, p_context = kcontext0,
     p_ofile = replicate 16 None, p_cwd = None, p_name = replicate 16 0\<rparr>"

definition mach0 :: mach where
  "mach0 = \<lparr>tp = 0, sie = False,
     csr = \<lparr>csr_satp = 0, csr_stvec = 0, csr_sepc = 0, csr_scause = 0, csr_stval = 0, csr_sip = 0,
       csr_spp = False, csr_spie = False\<rparr>,
     cpus = (\<lambda>_. \<lparr>cpu_proc = None, cpu_context = kcontext0, noff = 0, intena = False\<rparr>),
     locks = (\<lambda>_. \<lparr>lk_locked = False, lk_name = [], lk_cpu = None\<rparr>),
     procs = (\<lambda>_. proc0), nextpid = 1, initproc = None, pmem = (\<lambda>_. 0), freelist = 0,
     kernel_pagetable = 0, ticks = 0\<rparr>"

section \<open>Outcomes\<close>

datatype ('s, 'a) res =
    Ok 'a 's
  | Panic string
  | Sched 's
  | Spin lockid 's
  | Fuel

fun bnd :: "('s, 'a) res \<Rightarrow> ('a \<Rightarrow> 's \<Rightarrow> ('s, 'b) res) \<Rightarrow> ('s, 'b) res" where
  "bnd (Ok a s) k = k a s"
| "bnd (Panic m) k = Panic m"
| "bnd (Sched s) k = Sched s"
| "bnd (Spin l s) k = Spin l s"
| "bnd Fuel k = Fuel"

lemma bnd_eq_Ok:
  "bnd r k = Ok b t \<longleftrightarrow> (\<exists>a s. r = Ok a s \<and> k a s = Ok b t)"
  by (cases r) auto

lemma bnd_OkE [elim]:
  assumes "bnd r k = Ok b t"
  obtains a s where "r = Ok a s" and "k a s = Ok b t"
  using assms by (auto simp: bnd_eq_Ok)

lemma bnd_eq_Panic:
  "bnd r k = Panic m \<longleftrightarrow> r = Panic m \<or> (\<exists>a s. r = Ok a s \<and> k a s = Panic m)"
  by (cases r) auto

lemma bnd_assoc: "bnd (bnd r k) h = bnd r (\<lambda>a s. bnd (k a s) h)"
  by (cases r) auto

lemma bnd_cong [fundef_cong]:
  assumes "r = r'" and "\<And>a s. r' = Ok a s \<Longrightarrow> k a s = k' a s"
  shows "bnd r k = bnd r' k'"
  using assms by (cases r') auto

section \<open>Page arithmetic\<close>

lemma and_not_mask: "a AND NOT (mask n) = push_bit n (drop_bit n a)" for a :: "'a::len word"
  by (rule bit_word_eqI) (auto simp: bit_and_iff bit_not_iff bit_mask_iff bit_push_bit_iff bit_drop_bit_eq)

lemma unat_PGSIZE [simp]: "unat PGSIZE = 4096"
  by (simp add: PGSIZE_def)

lemma PGSIZE_mask: "PGSIZE - 1 = mask 12"
  by (simp add: PGSIZE_def mask_eq_exp_minus_1)

lemma unat_and_not_mask:
  "unat (a AND NOT (mask n)) = unat a div 2 ^ n * 2 ^ n" for a :: "'a::len word"
proof (cases "n < LENGTH('a)")
  case True
  have d: "unat (drop_bit n a) = unat a div 2 ^ n"
    by (subst unat_drop_bit_eq) (simp add: drop_bit_eq_div)
  have "unat a div 2 ^ n * 2 ^ n \<le> unat a" by (rule div_times_less_eq_dividend)
  also have "\<dots> < 2 ^ LENGTH('a)" by simp
  finally have "unat a div 2 ^ n * 2 ^ n < 2 ^ LENGTH('a)" .
  moreover have "unat (2 ^ n :: 'a word) = 2 ^ n"
    using True unat_of_nat_small [of "2 ^ n", where 'a = 'a] by simp
  ultimately show ?thesis
    by (simp add: and_not_mask push_bit_eq_mult unat_word_ariths(2) d)
next
  case False
  then have "unat a < 2 ^ n"
    by (metis linorder_not_less order_less_le_trans power_increasing one_le_numeral unat_bound)
  moreover have "a AND NOT (mask n) = 0"
    using False by (intro bit_word_eqI) (auto simp: bit_and_iff bit_not_iff bit_mask_iff)
  ultimately show ?thesis by simp
qed

lemma unat_PGROUNDDOWN: "unat (PGROUNDDOWN a) = unat a div 4096 * 4096"
  using unat_and_not_mask [of a 12] by (simp add: PGROUNDDOWN_def PGSIZE_mask)

lemma unat_PGROUNDUP:
  assumes "unat a + 4095 < 2 ^ 64"
  shows "unat (PGROUNDUP a) = (unat a + 4095) div 4096 * 4096"
proof -
  have "unat (a + PGSIZE - 1) = unat a + 4095"
    using unat_add_small [of "4095 :: u64" a] assms by (simp add: PGSIZE_def)
  then show ?thesis
    using unat_and_not_mask [of "a + PGSIZE - 1" 12] by (simp add: PGROUNDUP_def PGSIZE_mask)
qed

definition page_aligned :: "u64 \<Rightarrow> bool" where
  "page_aligned a \<longleftrightarrow> a mod PGSIZE = 0"

lemma page_aligned_unat: "page_aligned a \<longleftrightarrow> 4096 dvd unat a"
  by (simp add: page_aligned_def PGSIZE_def word_eq_iff_unat unat_mod dvd_eq_mod_eq_0)

lemma PGROUNDDOWN_aligned: "page_aligned (PGROUNDDOWN a)"
  by (simp add: page_aligned_unat unat_PGROUNDDOWN)

lemma PGROUNDDOWN_id: "page_aligned a \<Longrightarrow> PGROUNDDOWN a = a"
  by (simp add: page_aligned_unat word_eq_iff_unat unat_PGROUNDDOWN)

end
