(* ===== verification/Spinlock.thy ===== *)
theory Spinlock
  imports Machine
begin

text \<open>
  spinlock.c: nested interrupt disabling (push_off, pop_off) and spin locks, together
  with the accessors of the running hart (proc.c: cpuid, mycpu, myproc) and the
  interrupt-enable bit (riscv.h: intr_on, intr_off, intr_get). The central fact is the
  lock bracket: an acquire of a free lock followed by a body that leaves the lock state
  alone and a release gives back the lock table, the nesting depth and the
  interrupt-enable bit it found.
\<close>

section \<open>Interrupts and the running hart\<close>

definition intr_get :: "'z mach_scheme \<Rightarrow> bool" where
  "intr_get s = sie s"

definition intr_on :: "'z mach_scheme \<Rightarrow> 'z mach_scheme" where
  "intr_on s = s\<lparr>sie := True\<rparr>"

definition intr_off :: "'z mach_scheme \<Rightarrow> 'z mach_scheme" where
  "intr_off s = s\<lparr>sie := False\<rparr>"

definition cpuid :: "'z mach_scheme \<Rightarrow> nat" where
  "cpuid s = tp s"

definition mycpu :: "'z mach_scheme \<Rightarrow> cpu" where
  "mycpu s = cpus s (cpuid s)"

definition set_mycpu :: "cpu \<Rightarrow> 'z mach_scheme \<Rightarrow> 'z mach_scheme" where
  "set_mycpu c s = s\<lparr>cpus := (cpus s)(cpuid s := c)\<rparr>"

definition push_off :: "'z mach_scheme \<Rightarrow> 'z mach_scheme" where
  "push_off s =
     (let old = intr_get s;
          s = intr_off s;
          s = (if noff (mycpu s) = 0 then set_mycpu ((mycpu s)\<lparr>intena := old\<rparr>) s else s)
      in set_mycpu ((mycpu s)\<lparr>noff := noff (mycpu s) + 1\<rparr>) s)"

definition pop_off :: "'z mach_scheme \<Rightarrow> ('z mach_scheme, unit) res" where
  "pop_off s =
     (if intr_get s then Panic ''pop_off - interruptible''
      else if noff (mycpu s) < 1 then Panic ''pop_off''
      else
        (let s = set_mycpu ((mycpu s)\<lparr>noff := noff (mycpu s) - 1\<rparr>) s
         in if noff (mycpu s) = 0 \<and> intena (mycpu s) then Ok () (intr_on s) else Ok () s))"

definition myproc :: "'z mach_scheme \<Rightarrow> ('z mach_scheme, nat option) res" where
  "myproc s =
     (let s = push_off s; p = cpu_proc (mycpu s)
      in bnd (pop_off s) (\<lambda>_ s. Ok p s))"

section \<open>Spin locks\<close>

definition initlock :: "lockid \<Rightarrow> string \<Rightarrow> 'z mach_scheme \<Rightarrow> 'z mach_scheme" where
  "initlock lk name s =
     s\<lparr>locks := (locks s)(lk := \<lparr>lk_locked = False, lk_name = name, lk_cpu = None\<rparr>)\<rparr>"

definition holding :: "lockid \<Rightarrow> 'z mach_scheme \<Rightarrow> bool" where
  "holding lk s \<longleftrightarrow> lk_locked (locks s lk) \<and> lk_cpu (locks s lk) = Some (cpuid s)"

definition acquire :: "lockid \<Rightarrow> 'z mach_scheme \<Rightarrow> ('z mach_scheme, unit) res" where
  "acquire lk s =
     (let s = push_off s
      in if holding lk s then Panic ''acquire''
         else if lk_locked (locks s lk) then Spin lk s
         else Ok () (s\<lparr>locks := (locks s)(lk :=
                (locks s lk)\<lparr>lk_locked := True, lk_cpu := Some (cpuid s)\<rparr>)\<rparr>))"

definition release :: "lockid \<Rightarrow> 'z mach_scheme \<Rightarrow> ('z mach_scheme, unit) res" where
  "release lk s =
     (if \<not> holding lk s then Panic ''release''
      else pop_off (s\<lparr>locks := (locks s)(lk :=
             (locks s lk)\<lparr>lk_locked := False, lk_cpu := None\<rparr>)\<rparr>))"

section \<open>The lock bracket\<close>

text \<open>
  \<open>lock_free\<close>: nobody holds the lock and no holder is recorded. \<open>intr_ok\<close>: a hart
  that has pushed interrupts off has them off, and its depth is not negative.
\<close>

definition lock_free :: "lockid \<Rightarrow> 'z mach_scheme \<Rightarrow> bool" where
  "lock_free lk s \<longleftrightarrow> \<not> lk_locked (locks s lk) \<and> lk_cpu (locks s lk) = None"

definition intr_ok :: "'z mach_scheme \<Rightarrow> bool" where
  "intr_ok s \<longleftrightarrow> 0 \<le> noff (mycpu s) \<and> (0 < noff (mycpu s) \<longrightarrow> \<not> sie s)"

text \<open>
  The only trace a finished bracket leaves: the outermost push_off records whether
  interrupts were on.
\<close>

definition note_intena :: "'z mach_scheme \<Rightarrow> 'z mach_scheme" where
  "note_intena s =
     (if noff (mycpu s) = 0 then set_mycpu ((mycpu s)\<lparr>intena := sie s\<rparr>) s else s)"

definition enter :: "lockid \<Rightarrow> 'z mach_scheme \<Rightarrow> 'z mach_scheme" where
  "enter lk s = (push_off s)\<lparr>locks := (locks s)(lk :=
     (locks s lk)\<lparr>lk_locked := True, lk_cpu := Some (tp s)\<rparr>)\<rparr>"

lemmas cpu_defs = intr_get_def intr_on_def intr_off_def cpuid_def mycpu_def set_mycpu_def

lemma push_off_simps [simp, frame_simps]:
  "tp (push_off s) = tp s" "locks (push_off s) = locks s" "sie (push_off s) = False"
  "procs (push_off s) = procs s" "nextpid (push_off s) = nextpid s"
  "initproc (push_off s) = initproc s" "pmem (push_off s) = pmem s"
  "freelist (push_off s) = freelist s" "kernel_pagetable (push_off s) = kernel_pagetable s"
  "ticks (push_off s) = ticks s" "csr (push_off s) = csr s" "mach.more (push_off s) = mach.more s"
  by (simp_all add: push_off_def cpu_defs Let_def)

lemma noff_push_off: "noff (mycpu (push_off s)) = noff (mycpu s) + 1"
  by (simp add: push_off_def cpu_defs Let_def)

lemma enter_simps [simp, frame_simps]:
  "tp (enter lk s) = tp s" "sie (enter lk s) = False"
  "procs (enter lk s) = procs s" "nextpid (enter lk s) = nextpid s"
  "initproc (enter lk s) = initproc s" "pmem (enter lk s) = pmem s"
  "freelist (enter lk s) = freelist s" "kernel_pagetable (enter lk s) = kernel_pagetable s"
  "ticks (enter lk s) = ticks s" "csr (enter lk s) = csr s" "mach.more (enter lk s) = mach.more s"
  by (simp_all add: enter_def)

lemma note_intena_simps [simp, frame_simps]:
  "tp (note_intena s) = tp s" "sie (note_intena s) = sie s" "locks (note_intena s) = locks s"
  "procs (note_intena s) = procs s" "nextpid (note_intena s) = nextpid s"
  "initproc (note_intena s) = initproc s" "pmem (note_intena s) = pmem s"
  "freelist (note_intena s) = freelist s"
  "kernel_pagetable (note_intena s) = kernel_pagetable s"
  "ticks (note_intena s) = ticks s" "csr (note_intena s) = csr s" "mach.more (note_intena s) = mach.more s"
  "noff (mycpu (note_intena s)) = noff (mycpu s)"
  by (simp_all add: note_intena_def cpu_defs)

lemma acquire_free [lock_simps]:
  assumes "lock_free lk s"
  shows "acquire lk s = Ok () (enter lk s)"
  using assms
  by (simp add: acquire_def lock_free_def holding_def enter_def Let_def cpuid_def)

text \<open>
  Releasing in a state whose hart, interrupt bit, lock table and cpu table are those
  acquire left behind.
\<close>

lemma noff_update_same: "noff c = n \<Longrightarrow> c\<lparr>noff := n\<rparr> = c"
  by (rule cpu.equality) simp_all

lemma sie_update_same: "sie s = b \<Longrightarrow> s\<lparr>sie := b\<rparr> = s"
  by (rule mach.equality) simp_all

lemma sie_cpus_update: "s\<lparr>cpus := c, sie := b\<rparr> = s\<lparr>sie := b, cpus := c\<rparr>"
  by (rule mach.equality) simp_all

lemma pop_push:
  assumes "intr_ok s" and "tp s' = tp s" and "\<not> sie s'" and "cpus s' = cpus (push_off s)"
  shows "pop_off s' = Ok () (s'\<lparr>sie := sie s, cpus := cpus (note_intena s)\<rparr>)"
proof (cases "noff (cpus s (tp s)) = 0")
  case True
  then show ?thesis
    using assms
    by (cases "sie s") (simp_all add: pop_off_def push_off_def note_intena_def cpu_defs
        noff_update_same sie_update_same sie_cpus_update)
next
  case False
  with assms(1) have "0 < noff (cpus s (tp s))" and "\<not> sie s"
    by (auto simp: intr_ok_def cpu_defs)
  then show ?thesis
    using assms by (simp add: pop_off_def push_off_def note_intena_def cpu_defs
        noff_update_same sie_update_same)
qed

lemma release_enter:
  assumes "lock_free lk s" and "intr_ok s"
    and "tp s' = tp s" and "\<not> sie s'"
    and "locks s' = locks (enter lk s)" and "cpus s' = cpus (enter lk s)"
  shows "release lk s' = Ok () (s'\<lparr>sie := sie s, cpus := cpus (note_intena s), locks := locks s\<rparr>)"
proof -
  let ?t = "s'\<lparr>locks := (locks s')(lk := (locks s' lk)\<lparr>lk_locked := False, lk_cpu := None\<rparr>)\<rparr>"
  have free: "(locks s lk)\<lparr>lk_locked := False, lk_cpu := None\<rparr> = locks s lk"
    using assms(1) by (simp add: lock_free_def)
  have locks: "locks ?t = locks s"
    by (simp add: assms(5) enter_def free)
  have "holding lk s'"
    by (simp add: holding_def assms(3,5) enter_def cpuid_def)
  then have "release lk s' = pop_off ?t"
    by (simp add: release_def)
  also have "pop_off ?t = Ok () (?t\<lparr>sie := sie s, cpus := cpus (note_intena s)\<rparr>)"
    using assms(2-6) by (intro pop_push) (simp_all add: enter_def)
  also have "?t = s'\<lparr>locks := locks s\<rparr>"
    using locks by simp
  finally show ?thesis by simp
qed

text \<open>
  A body that neither looks at nor changes the lock state can be read as if it ran
  without the bracket.
\<close>

definition lock_neutral :: "('z mach_scheme \<Rightarrow> 'z mach_scheme) \<Rightarrow> bool" where
  "lock_neutral f \<longleftrightarrow>
     (\<forall>s a c l. f (s\<lparr>sie := a, cpus := c, locks := l\<rparr>) = (f s)\<lparr>sie := a, cpus := c, locks := l\<rparr>) \<and>
     (\<forall>s. tp (f s) = tp s)"

lemma enter_as_update:
  "enter lk s = s\<lparr>sie := False, cpus := cpus (enter lk s), locks := locks (enter lk s)\<rparr>"
  by (rule mach.equality) simp_all

lemma note_intena_as_update:
  "note_intena s = s\<lparr>sie := sie s, cpus := cpus (note_intena s), locks := locks s\<rparr>"
  by (rule mach.equality) simp_all

lemma critical_section:
  assumes "lock_free lk s" and "intr_ok s" and f: "lock_neutral f"
  shows "bnd (acquire lk s) (\<lambda>_ s. release lk (f s)) = Ok () (f (note_intena s))"
proof -
  let ?e = "enter lk s"
  have fe: "f ?e = (f s)\<lparr>sie := False, cpus := cpus ?e, locks := locks ?e\<rparr>"
    using f enter_as_update [of lk s] by (metis lock_neutral_def)
  have "release lk (f ?e) =
      Ok () ((f ?e)\<lparr>sie := sie s, cpus := cpus (note_intena s), locks := locks s\<rparr>)"
    using assms(1,2) f by (intro release_enter) (simp_all add: fe lock_neutral_def)
  also have "(f ?e)\<lparr>sie := sie s, cpus := cpus (note_intena s), locks := locks s\<rparr> =
      (f s)\<lparr>sie := sie s, cpus := cpus (note_intena s), locks := locks s\<rparr>"
    by (simp add: fe)
  also have "\<dots> = f (note_intena s)"
    using f note_intena_as_update [of s] by (metis lock_neutral_def)
  finally show ?thesis
    using assms(1) by (simp add: acquire_free)
qed

lemma myproc_eq [lock_simps]:
  assumes "intr_ok s"
  shows "myproc s = Ok (cpu_proc (mycpu s)) (note_intena s)"
proof -
  have "pop_off (push_off s) = Ok () ((push_off s)\<lparr>sie := sie s, cpus := cpus (note_intena s)\<rparr>)"
    using assms by (intro pop_push) simp_all
  moreover have "(push_off s)\<lparr>sie := sie s, cpus := cpus (note_intena s)\<rparr> = note_intena s"
    by (rule mach.equality) simp_all
  moreover have "cpu_proc (mycpu (push_off s)) = cpu_proc (mycpu s)"
    by (simp add: push_off_def cpu_defs Let_def)
  ultimately show ?thesis
    by (simp add: myproc_def Let_def)
qed

lemma intr_ok_note_intena [simp]: "intr_ok (note_intena s) = intr_ok s"
  by (simp add: intr_ok_def)

lemma lock_free_note_intena [simp]: "lock_free lk (note_intena s) = lock_free lk s"
  by (simp add: lock_free_def)

lemma cpu_proc_note_intena [simp]: "cpu_proc (mycpu (note_intena s)) = cpu_proc (mycpu s)"
  by (simp add: note_intena_def cpu_defs)

lemma note_intena_idem [simp]: "note_intena (note_intena s) = note_intena s"
  by (simp add: note_intena_def cpu_defs)

section \<open>Nested interrupt disabling\<close>

text \<open>A run of push_off and pop_off calls; \<open>bal\<close> holds of the well-bracketed ones.\<close>

datatype intr_op = Push | Pop

primrec irun :: "intr_op list \<Rightarrow> 'z mach_scheme \<Rightarrow> ('z mach_scheme, unit) res" where
  "irun [] s = Ok () s"
| "irun (op # ops) s =
     bnd (case op of Push \<Rightarrow> Ok () (push_off s) | Pop \<Rightarrow> pop_off s) (\<lambda>_ s. irun ops s)"

inductive bal :: "intr_op list \<Rightarrow> bool" where
  bal_nil: "bal []"
| bal_nest: "bal xs \<Longrightarrow> bal ys \<Longrightarrow> bal (Push # xs @ Pop # ys)"

lemma irun_append: "irun (xs @ ys) s = bnd (irun xs s) (\<lambda>_ t. irun ys t)"
  by (induction xs arbitrary: s) (simp_all add: bnd_assoc)

lemma intr_ok_push_off: "intr_ok s \<Longrightarrow> intr_ok (push_off s)"
  by (simp add: intr_ok_def noff_push_off)

lemma note_intena_push_off: "intr_ok s \<Longrightarrow> note_intena (push_off s) = push_off s"
  by (simp add: note_intena_def noff_push_off intr_ok_def)

lemma pop_off_push_off: "intr_ok s \<Longrightarrow> pop_off (push_off s) = Ok () (note_intena s)"
proof -
  assume "intr_ok s"
  then have "pop_off (push_off s) = Ok () ((push_off s)\<lparr>sie := sie s, cpus := cpus (note_intena s)\<rparr>)"
    by (intro pop_push) simp_all
  moreover have "(push_off s)\<lparr>sie := sie s, cpus := cpus (note_intena s)\<rparr> = note_intena s"
    by (rule mach.equality) simp_all
  ultimately show ?thesis by simp
qed

lemma irun_bal:
  assumes "bal ops" and "intr_ok s"
  shows "irun ops s = Ok () (if ops = [] then s else note_intena s)"
  using assms
proof (induction arbitrary: s)
  case bal_nil
  then show ?case by simp
next
  case (bal_nest xs ys)
  then show ?case
    by (cases "xs = []"; cases "ys = []")
      (simp_all add: irun_append intr_ok_push_off note_intena_push_off pop_off_push_off)
qed

lemma irun_depth:
  assumes "irun ops s = Ok () t" and "intr_ok s"
  shows "intr_ok t \<and> noff (mycpu t) = noff (mycpu s) + int (count_list ops Push) - int (count_list ops Pop)"
  using assms
proof (induction ops arbitrary: s)
  case Nil
  then show ?case by simp
next
  case (Cons op ops)
  show ?case
  proof (cases op)
    case Push
    with Cons show ?thesis
      using Cons.IH [of "push_off s"] by (simp add: intr_ok_push_off noff_push_off)
  next
    case Pop
    with Cons.prems obtain u where u: "pop_off s = Ok () u" "irun ops u = Ok () t"
      by (auto elim: bnd_OkE)
    then have "intr_ok u \<and> noff (mycpu u) = noff (mycpu s) - 1"
      by (auto simp: pop_off_def cpu_defs Let_def intr_ok_def split: if_splits)
    with u Cons.IH [of u] Pop show ?thesis by simp
  qed
qed

lemma mach0_ok [simp]: "intr_ok mach0" "lock_free lk mach0"
  by (simp_all add: intr_ok_def lock_free_def cpu_defs mach0_def)

section \<open>Properties\<close>



text \<open>C33: acquire on every branch: it panics when this hart already holds the lock, spins while
  another hart has it, and otherwise takes it with interrupts pushed off. release panics when this
  hart does not hold the lock; after acquiring a free lock, a body that leaves the locks and
  the interrupt state alone runs to its release, and only its own effect remains.\<close>

theorem acquire_release_bracket:
  fixes f :: "'z mach_scheme \<Rightarrow> 'z mach_scheme"
  assumes "intr_ok s" and "lock_neutral f"
  shows "acquire lk s =
      (if holding lk s then Panic ''acquire''
       else if lk_locked (locks s lk) then Spin lk (push_off s)
       else Ok () (enter lk s)) \<and>
    (\<not> holding lk s \<longrightarrow> release lk s = Panic ''release'') \<and>
    (lock_free lk s \<longrightarrow> bnd (acquire lk s) (\<lambda>_ s. release lk (f s)) = Ok () (f (note_intena s)))"
  using critical_section [OF _ assms]
  by (simp add: acquire_def release_def enter_def holding_def cpuid_def Let_def)

theorem acquire_release_bracket_witness:
  "bnd (acquire KmemLock mach0) (\<lambda>_ s. release KmemLock (s\<lparr>ticks := 5\<rparr>)) =
     Ok () ((note_intena mach0)\<lparr>ticks := 5\<rparr>)"
proof -
  have "lock_neutral (\<lambda>s :: mach. s\<lparr>ticks := 5\<rparr>)" by (simp add: lock_neutral_def)
  then show ?thesis
    using acquire_release_bracket [OF mach0_ok(1)] mach0_ok(2) by blast
qed

end
