(* ===== verification/Spinlock_Smp.thy ===== *)
theory Spinlock_Smp
  imports Spinlock
begin

text \<open>
  spinlock.c between harts. Theory Spinlock runs acquire and release as one step of one
  hart; here the same code runs one memory access at a time, any number of harts
  interleaved in any order. Each hart acquires and releases the lock for ever; a hart
  inside its critical section is one that is not scheduled. \<open>pc\<close> names the access a
  hart makes next.
\<close>

datatype phase =
    Outside       \<comment> \<open>acquire: holding reads lk->locked\<close>
  | AcqCpu        \<comment> \<open>acquire: holding reads lk->cpu\<close>
  | Spinning      \<comment> \<open>acquire: the atomic swap\<close>
  | Won           \<comment> \<open>acquire: lk->cpu = mycpu()\<close>
  | Inside        \<comment> \<open>release: holding reads lk->locked\<close>
  | RelCpu        \<comment> \<open>release: holding reads lk->cpu\<close>
  | Clearing      \<comment> \<open>release: lk->cpu = 0\<close>
  | Unlocking     \<comment> \<open>release: the atomic store of 0\<close>
  | Panicked

record smp =
  l_locked :: bool
  l_cpu :: "nat option"
  pc :: "nat \<Rightarrow> phase"

definition goto :: "nat \<Rightarrow> phase \<Rightarrow> smp \<Rightarrow> smp" where
  "goto c ph s = s\<lparr>pc := (pc s)(c := ph)\<rparr>"

definition hart_step :: "nat \<Rightarrow> smp \<Rightarrow> smp" where
  "hart_step c s =
     (case pc s c of
        Outside \<Rightarrow> goto c (if l_locked s then AcqCpu else Spinning) s
      | AcqCpu \<Rightarrow> goto c (if l_cpu s = Some c then Panicked else Spinning) s
      | Spinning \<Rightarrow> if l_locked s then s else goto c Won (s\<lparr>l_locked := True\<rparr>)
      | Won \<Rightarrow> goto c Inside (s\<lparr>l_cpu := Some c\<rparr>)
      | Inside \<Rightarrow> goto c (if l_locked s then RelCpu else Panicked) s
      | RelCpu \<Rightarrow> goto c (if l_cpu s = Some c then Clearing else Panicked) s
      | Clearing \<Rightarrow> goto c Unlocking (s\<lparr>l_cpu := None\<rparr>)
      | Unlocking \<Rightarrow> goto c Outside (s\<lparr>l_locked := False\<rparr>)
      | Panicked \<Rightarrow> s)"

definition smp_init :: "smp \<Rightarrow> bool" where
  "smp_init s \<longleftrightarrow> \<not> l_locked s \<and> l_cpu s = None \<and> (\<forall>c. pc s c = Outside)"

inductive smp_step :: "smp \<Rightarrow> smp \<Rightarrow> bool" where
  smp_stepI: "t = hart_step c s \<Longrightarrow> smp_step s t"

inductive_cases smp_stepE: "smp_step s t"

definition owns :: "phase \<Rightarrow> bool" where
  "owns ph \<longleftrightarrow> ph \<in> {Won, Inside, RelCpu, Clearing, Unlocking}"

text \<open>
  The invariant: there is an owner exactly when the lock word is set, it is the one hart
  between its successful swap and its unlock, and lk->cpu names it between the two writes
  to it.
\<close>

definition smp_own :: "nat option \<Rightarrow> smp \<Rightarrow> bool" where
  "smp_own ow s \<longleftrightarrow>
     (\<forall>c. owns (pc s c) \<longleftrightarrow> ow = Some c) \<and> (l_locked s \<longleftrightarrow> ow \<noteq> None) \<and>
     (\<forall>c. l_cpu s = Some c \<longleftrightarrow> pc s c \<in> {Inside, RelCpu, Clearing}) \<and>
     (\<forall>c. pc s c \<noteq> Panicked)"

definition smp_inv :: "smp \<Rightarrow> bool" where
  "smp_inv s \<longleftrightarrow> (\<exists>ow. smp_own ow s)"

lemma smp_inv_init: "smp_init s \<Longrightarrow> smp_inv s"
  unfolding smp_inv_def by (rule exI [of _ None]) (simp add: smp_init_def smp_own_def owns_def)

lemma smp_own_at:
  assumes "smp_own ow s"
  shows "owns (pc s c) \<longleftrightarrow> ow = Some c" and "l_cpu s = Some c \<longleftrightarrow> pc s c \<in> {Inside, RelCpu, Clearing}"
    and "pc s c \<noteq> Panicked" and "l_locked s \<longleftrightarrow> ow \<noteq> None"
  using assms by (auto simp: smp_own_def)

lemma smp_own_next:
  assumes "smp_own ow s"
    and "\<And>d. d \<noteq> c \<Longrightarrow> pc t d = pc s d"
    and "\<And>d. d \<noteq> c \<Longrightarrow> (ow' = Some d) = (ow = Some d)"
    and "\<And>d. d \<noteq> c \<Longrightarrow> (l_cpu t = Some d) = (l_cpu s = Some d)"
    and "owns (pc t c) \<longleftrightarrow> ow' = Some c"
    and "l_cpu t = Some c \<longleftrightarrow> pc t c \<in> {Inside, RelCpu, Clearing}"
    and "pc t c \<noteq> Panicked" and "l_locked t \<longleftrightarrow> ow' \<noteq> None"
  shows "smp_own ow' t"
  unfolding smp_own_def
proof (intro conjI allI)
  fix d
  show "owns (pc t d) = (ow' = Some d)"
    using assms smp_own_at(1) [OF assms(1), of d] by (cases "d = c") simp_all
  show "(l_cpu t = Some d) = (pc t d \<in> {Inside, RelCpu, Clearing})"
    using assms smp_own_at(2) [OF assms(1), of d] by (cases "d = c") simp_all
  show "pc t d \<noteq> Panicked"
    using assms smp_own_at(3) [OF assms(1), of d] by (cases "d = c") simp_all
qed (fact assms(8))

lemma smp_inv_step:
  assumes "smp_inv s"
  shows "smp_inv (hart_step c s)"
proof -
  from assms obtain ow where ow: "smp_own ow s" by (auto simp: smp_inv_def)
  note at = smp_own_at(1-3) [OF ow, of c] smp_own_at(4) [OF ow]
  have cpu: "\<And>d. l_cpu s = Some d \<Longrightarrow> ow = Some d"
    using ow unfolding smp_own_def owns_def by blast
  define ow' where "ow' = (case pc s c of Spinning \<Rightarrow> if l_locked s then ow else Some c
    | Unlocking \<Rightarrow> None | _ \<Rightarrow> ow)"
  have "smp_own ow' (hart_step c s)"
    by (rule smp_own_next [OF ow, of c]; use at in \<open>cases "pc s c"\<close>)
      (auto simp: hart_step_def goto_def owns_def ow'_def dest: cpu)
  then show ?thesis by (auto simp: smp_inv_def)
qed

lemma reachable_smp_inv: "reachable smp_init smp_step s \<Longrightarrow> smp_inv s"
  by (erule reachable_invariant) (auto simp: smp_inv_init smp_inv_step elim: smp_stepE)

text \<open>C1: Mutual exclusion. However the memory accesses of the harts interleave, two harts are
  never both between the swap that won the lock and the store that frees it, so never both in
  their critical sections, and neither acquire nor release ever panics.\<close>

theorem spinlock_mutex:
  assumes "reachable smp_init smp_step s"
  shows "(owns (pc s c) \<and> owns (pc s d) \<longrightarrow> c = d) \<and> pc s c \<noteq> Panicked"
  using reachable_smp_inv [OF assms] by (auto simp: smp_inv_def smp_own_def)

definition smp0 :: smp where
  "smp0 = \<lparr>l_locked = False, l_cpu = None, pc = (\<lambda>_. Outside)\<rparr>"

lemma reachable_hart:
  "reachable smp_init smp_step s \<Longrightarrow> reachable smp_init smp_step (hart_step c s)"
  by (erule reachable_step) (rule smp_stepI, rule refl)

lemma fold_reachable:
  "reachable smp_init smp_step s \<Longrightarrow> reachable smp_init smp_step (fold hart_step cs s)"
  by (induction cs arbitrary: s) (auto intro: reachable_hart)

lemma smp0_reachable: "reachable smp_init smp_step (fold hart_step cs smp0)"
  by (rule fold_reachable) (simp add: reachable_init smp_init_def smp0_def)

theorem spinlock_mutex_witness:
  "owns (pc (fold hart_step [1, 0, 1, 0, 1] smp0) 1) \<and>
   \<not> owns (pc (fold hart_step [1, 0, 1, 0, 1] smp0) 0)"
proof -
  have "owns (pc (fold hart_step [1, 0, 1, 0, 1] smp0) 1)"
    by (simp add: hart_step_def goto_def owns_def smp0_def)
  with spinlock_mutex [OF smp0_reachable [of "[1, 0, 1, 0, 1]"], of 1 0] show ?thesis by auto
qed

text \<open>C29: The lock is never lost: in every reachable state in which a hart is spinning, either its
  next swap succeeds, or another hart owns the lock and reaches the unlock within five of its own
  steps.\<close>

theorem spinlock_progress:
  assumes "reachable smp_init smp_step s" and "pc s c = Spinning"
  shows "pc (hart_step c s) c = Won \<or>
    (\<exists>d n. owns (pc s d) \<and> n \<le> 5 \<and> \<not> l_locked (((hart_step d) ^^ n) s))"
proof (cases "l_locked s")
  case False
  with assms(2) show ?thesis by (simp add: hart_step_def goto_def)
next
  case True
  have inv: "smp_inv s" by (rule reachable_smp_inv [OF assms(1)])
  with True obtain d where d: "owns (pc s d)"
    and cpu: "l_cpu s = Some d \<longleftrightarrow> pc s d \<in> {Inside, RelCpu, Clearing}"
    unfolding smp_inv_def smp_own_def by blast
  define n :: nat where "n = (case pc s d of Won \<Rightarrow> 5 | Inside \<Rightarrow> 4 | RelCpu \<Rightarrow> 3 | Clearing \<Rightarrow> 2 | _ \<Rightarrow> 1)"
  have "\<not> l_locked (((hart_step d) ^^ n) s)" and "n \<le> 5"
    using d cpu True
    by (auto simp: owns_def n_def numeral_eq_Suc funpow_swap1 hart_step_def goto_def)
  with d show ?thesis by blast
qed

theorem spinlock_progress_witness:
  "pc (fold hart_step [1, 0, 1, 0, 1] smp0) 0 = Spinning \<and>
   (\<exists>d n. owns (pc (fold hart_step [1, 0, 1, 0, 1] smp0) d) \<and> n \<le> 5 \<and>
      \<not> l_locked ((hart_step d ^^ n) (fold hart_step [1, 0, 1, 0, 1] smp0)))"
proof -
  let ?s = "fold hart_step [1, 0, 1, 0, 1] smp0"
  have "pc ?s 0 = Spinning" and "pc (hart_step 0 ?s) 0 \<noteq> Won"
    by (simp_all add: hart_step_def goto_def smp0_def)
  with spinlock_progress [OF smp0_reachable] show ?thesis by blast
qed

end
