(* ===== verification/Kstring.thy ===== *)
theory Kstring
  imports Machine
begin

text \<open>
  string.c. A pointer that is only read is the function from index to byte; memory that
  is written is the byte-addressed store. Results of type int are mathematical integers:
  they are differences of two bytes.
\<close>

section \<open>Definitions\<close>

fun memset :: "(u64 \<Rightarrow> byte) \<Rightarrow> u64 \<Rightarrow> u32 \<Rightarrow> nat \<Rightarrow> (u64 \<Rightarrow> byte)" where
  "memset m dst c 0 = m"
| "memset m dst c (Suc n) = (memset m dst c n)(dst + of_nat n := ucast c)"

fun memcmp :: "(nat \<Rightarrow> byte) \<Rightarrow> (nat \<Rightarrow> byte) \<Rightarrow> nat \<Rightarrow> int" where
  "memcmp s1 s2 0 = 0"
| "memcmp s1 s2 (Suc n) =
     (if s1 0 \<noteq> s2 0 then uint (s1 0) - uint (s2 0)
      else memcmp (\<lambda>i. s1 (Suc i)) (\<lambda>i. s2 (Suc i)) n)"

text \<open>The two loops of memmove: from the front, and from the back.\<close>

fun move_fwd :: "(u64 \<Rightarrow> byte) \<Rightarrow> u64 \<Rightarrow> u64 \<Rightarrow> nat \<Rightarrow> (u64 \<Rightarrow> byte)" where
  "move_fwd m d s 0 = m"
| "move_fwd m d s (Suc n) = move_fwd (m(d := m s)) (d + 1) (s + 1) n"

fun move_bwd :: "(u64 \<Rightarrow> byte) \<Rightarrow> u64 \<Rightarrow> u64 \<Rightarrow> nat \<Rightarrow> (u64 \<Rightarrow> byte)" where
  "move_bwd m d s 0 = m"
| "move_bwd m d s (Suc n) = move_bwd (m(d - 1 := m (s - 1))) (d - 1) (s - 1) n"

definition memmove :: "(u64 \<Rightarrow> byte) \<Rightarrow> u64 \<Rightarrow> u64 \<Rightarrow> nat \<Rightarrow> (u64 \<Rightarrow> byte)" where
  "memmove m dst src n =
     (if src < dst \<and> dst < src + of_nat n
      then move_bwd m (dst + of_nat n) (src + of_nat n) n
      else move_fwd m dst src n)"

definition memcpy :: "(u64 \<Rightarrow> byte) \<Rightarrow> u64 \<Rightarrow> u64 \<Rightarrow> nat \<Rightarrow> (u64 \<Rightarrow> byte)" where
  "memcpy m dst src n = memmove m dst src n"

fun strncmp :: "(nat \<Rightarrow> byte) \<Rightarrow> (nat \<Rightarrow> byte) \<Rightarrow> nat \<Rightarrow> int" where
  "strncmp p q 0 = 0"
| "strncmp p q (Suc n) =
     (if p 0 \<noteq> 0 \<and> p 0 = q 0 then strncmp (\<lambda>i. p (Suc i)) (\<lambda>i. q (Suc i)) n
      else uint (p 0) - uint (q 0))"

text \<open>
  strncpy: \<open>pad_zero\<close> is the second loop, \<open>strncpy_from\<close> the first one at index i with
  n bytes of room left, followed by the second once the NUL has been copied.
\<close>

fun pad_zero :: "(nat \<Rightarrow> byte) \<Rightarrow> nat \<Rightarrow> nat \<Rightarrow> (nat \<Rightarrow> byte)" where
  "pad_zero s i 0 = s"
| "pad_zero s i (Suc n) = pad_zero (s(i := 0)) (Suc i) n"

fun strncpy_from :: "(nat \<Rightarrow> byte) \<Rightarrow> (nat \<Rightarrow> byte) \<Rightarrow> nat \<Rightarrow> nat \<Rightarrow> (nat \<Rightarrow> byte)" where
  "strncpy_from s t i 0 = s"
| "strncpy_from s t i (Suc n) =
     (if t i \<noteq> 0 then strncpy_from (s(i := t i)) t (Suc i) n
      else pad_zero (s(i := t i)) (Suc i) n)"

definition strncpy :: "(nat \<Rightarrow> byte) \<Rightarrow> (nat \<Rightarrow> byte) \<Rightarrow> int \<Rightarrow> (nat \<Rightarrow> byte)" where
  "strncpy s t n = strncpy_from s t 0 (nat n)"

text \<open>
  safestrcpy: the loop with n bytes of room besides the final NUL; a NUL that is copied
  leaves the destination pointer just after it, where the final NUL goes.
\<close>

fun safe_copy :: "(nat \<Rightarrow> byte) \<Rightarrow> (nat \<Rightarrow> byte) \<Rightarrow> nat \<Rightarrow> nat \<Rightarrow> (nat \<Rightarrow> byte)" where
  "safe_copy s t i 0 = s(i := 0)"
| "safe_copy s t i (Suc n) =
     (if t i \<noteq> 0 then safe_copy (s(i := t i)) t (Suc i) n
      else (s(i := t i))(Suc i := 0))"

definition safestrcpy :: "(nat \<Rightarrow> byte) \<Rightarrow> (nat \<Rightarrow> byte) \<Rightarrow> int \<Rightarrow> (nat \<Rightarrow> byte)" where
  "safestrcpy s t n = (if n \<le> 0 then s else safe_copy s t 0 (nat n - 1))"

partial_function (option) strlen_from :: "(nat \<Rightarrow> byte) \<Rightarrow> nat \<Rightarrow> nat option" where
  "strlen_from s n = (if s n = 0 then Some n else strlen_from s (Suc n))"

definition strlen :: "(nat \<Rightarrow> byte) \<Rightarrow> nat option" where
  "strlen s = strlen_from s 0"

section \<open>Memory\<close>

lemma word_range_iff:
  fixes a d :: u64
  assumes "unat d + n \<le> 2 ^ 64"
  shows "unat (a - d) < n \<longleftrightarrow> unat d \<le> unat a \<and> unat a < unat d + n"
  using assms unat_bound [of a] by (auto simp: unat_sub_if')

lemma memset_apply:
  assumes "n \<le> 2 ^ 64"
  shows "memset m dst c n a = (if unat (a - dst) < n then ucast c else m a)"
  using assms
proof (induction n)
  case 0
  then show ?case by simp
next
  case (Suc n)
  from Suc.prems have "a = dst + of_nat n \<longleftrightarrow> unat (a - dst) = n"
    by (intro word_offset_iff) simp
  with Suc show ?case by (auto simp: less_Suc_eq)
qed

text \<open>
  Reference semantics of memmove: every destination byte gets the byte the source held
  before the call.
\<close>

definition copied :: "(u64 \<Rightarrow> byte) \<Rightarrow> u64 \<Rightarrow> u64 \<Rightarrow> nat \<Rightarrow> (u64 \<Rightarrow> byte)" where
  "copied m dst src n = (\<lambda>a. if unat (a - dst) < n then m (src + (a - dst)) else m a)"

lemma move_fwd_copied:
  assumes "unat d + n \<le> 2 ^ 64" and "unat s + n \<le> 2 ^ 64"
    and "unat d \<le> unat s \<or> unat s + n \<le> unat d"
  shows "move_fwd m d s n = copied m d s n"
  using assms
proof (induction n arbitrary: m d s)
  case 0
  then show ?case by (simp add: copied_def)
next
  case (Suc n)
  show ?case
  proof (cases "n = 0")
    case True
    then show ?thesis
      by (auto simp: copied_def fun_eq_iff unat_eq_zero)
  next
    case False
    have d1: "unat (d + 1) = unat d + 1" and s1: "unat (s + 1) = unat s + 1"
      using Suc.prems False by (simp_all add: unat_word_ariths)
    have "move_fwd m d s (Suc n) = copied (m(d := m s)) (d + 1) (s + 1) n"
      using Suc.prems False by (simp, intro Suc.IH) (auto simp: d1 s1)
    also have "\<dots> = copied m d s (Suc n)"
    proof
      fix a
      have lo: "unat (a - d) < Suc n \<longleftrightarrow> unat d \<le> unat a \<and> unat a < unat d + Suc n"
        using Suc.prems by (intro word_range_iff) simp
      have hi: "unat (a - (d + 1)) < n \<longleftrightarrow> unat d + 1 \<le> unat a \<and> unat a < unat d + 1 + n"
        using Suc.prems word_range_iff [of "d + 1" n a] by (simp add: d1)
      have off: "s + 1 + (a - (d + 1)) = s + (a - d)" by simp
      have "s + (a - d) \<noteq> d" if "unat (a - (d + 1)) < n"
      proof
        assume eq: "s + (a - d) = d"
        from that hi have "unat (a - d) = unat a - unat d" and "unat d < unat a"
          and "unat a < unat d + 1 + n"
          by (auto simp: unat_sub_if')
        then have "unat (s + (a - d)) = unat s + (unat a - unat d)"
          using Suc.prems by (simp add: unat_word_ariths)
        then have "unat d = unat s + (unat a - unat d)"
          by (simp only: eq)
        with \<open>unat d < unat a\<close> \<open>unat a < unat d + 1 + n\<close> Suc.prems(3) show False by linarith
      qed
      note neq = this
      show "copied (m(d := m s)) (d + 1) (s + 1) n a = copied m d s (Suc n) a"
      proof (cases "a = d")
        case True
        with hi have "\<not> unat (a - (d + 1)) < n" by simp
        with True show ?thesis by (simp add: copied_def)
      next
        case False
        then have "unat a \<noteq> unat d" by (simp add: word_eq_iff_unat)
        with False lo hi neq show ?thesis by (auto simp: copied_def off)
      qed
    qed
    finally show ?thesis .
  qed
qed

lemma move_bwd_copied:
  assumes "unat d + n \<le> 2 ^ 64" and "unat s + n \<le> 2 ^ 64" and "unat s \<le> unat d"
  shows "move_bwd m (d + of_nat n) (s + of_nat n) n = copied m d s n"
  using assms
proof (induction n arbitrary: m)
  case 0
  then show ?case by (simp add: copied_def)
next
  case (Suc n)
  have n: "unat (of_nat n :: u64) = n"
    using Suc.prems by (simp add: unat_of_nat)
  let ?m = "m(d + of_nat n := m (s + of_nat n))"
  have "move_bwd m (d + of_nat (Suc n)) (s + of_nat (Suc n)) (Suc n) =
      move_bwd ?m (d + of_nat n) (s + of_nat n) n"
    by simp
  also have "\<dots> = copied ?m d s n"
    using Suc.prems by (intro Suc.IH) auto
  also have "\<dots> = copied m d s (Suc n)"
  proof
    fix a
    have end_iff: "a = d + of_nat n \<longleftrightarrow> unat (a - d) = n"
      using Suc.prems by (intro word_offset_iff) simp
    have "s + (a - d) \<noteq> d + of_nat n" if lt: "unat (a - d) < n"
    proof
      assume eq: "s + (a - d) = d + of_nat n"
      have "unat (s + (a - d)) = unat s + unat (a - d)"
        using lt Suc.prems by (simp add: unat_word_ariths)
      moreover have "unat (d + of_nat n) = unat d + n"
        using Suc.prems by (intro unat_add_of_nat) simp
      ultimately show False
        using eq lt Suc.prems(3) by simp
    qed
    then show "copied ?m d s n a = copied m d s (Suc n) a"
      using end_iff by (auto simp: copied_def less_Suc_eq)
  qed
  finally show ?case .
qed

lemma memmove_copied:
  assumes "unat dst + n \<le> 2 ^ 64" and "unat src + n < 2 ^ 64"
  shows "memmove m dst src n = copied m dst src n"
proof (cases "src < dst \<and> dst < src + of_nat n")
  case True
  then show ?thesis
    using assms by (simp add: memmove_def move_bwd_copied word_less_nat_alt)
next
  case False
  have "unat (src + of_nat n) = unat src + n"
    using assms by (intro unat_add_of_nat) simp
  with False have "unat dst \<le> unat src \<or> unat src + n \<le> unat dst"
    by (auto simp: word_less_nat_alt)
  then show ?thesis
    using assms by (simp only: memmove_def False if_False) (simp add: move_fwd_copied)
qed

section \<open>Strings\<close>

text \<open>The bytes before the first NUL among the first n.\<close>

fun cstr :: "(nat \<Rightarrow> byte) \<Rightarrow> nat \<Rightarrow> byte list" where
  "cstr p 0 = []"
| "cstr p (Suc n) = (if p 0 = 0 then [] else p 0 # cstr (\<lambda>i. p (Suc i)) n)"

lemma strncmp_zero_iff: "strncmp p q n = 0 \<longleftrightarrow> cstr p n = cstr q n"
proof (induction n arbitrary: p q)
  case 0
  then show ?case by simp
next
  case (Suc n)
  then show ?case by (auto simp: uint_0_iff simp flip: word_uint_eq_iff)
qed

lemma memcmp_zero_iff: "memcmp p q n = 0 \<longleftrightarrow> (\<forall>i<n. p i = q i)"
proof (induction n arbitrary: p q)
  case 0
  then show ?case by simp
next
  case (Suc n)
  then show ?case by (auto simp: less_Suc_eq_0_disj simp flip: word_uint_eq_iff)
qed

lemma pad_zero_apply: "pad_zero s i n j = (if i \<le> j \<and> j < i + n then 0 else s j)"
  by (induction n arbitrary: s i) auto

lemma nth_cstr: "j < length (cstr t n) \<Longrightarrow> cstr t n ! j = t j"
proof (induction n arbitrary: t j)
  case (Suc n)
  then show ?case by (cases j) (auto split: if_splits)
qed simp

lemma length_cstr_le: "length (cstr t n) \<le> n"
  by (induction n arbitrary: t) auto

text \<open>
  strncpy fills exactly n bytes: the string up to its NUL, then zeros. The lemma is
  stated for the loop at index i.
\<close>

definition nonul :: "(nat \<Rightarrow> byte) \<Rightarrow> nat \<Rightarrow> nat \<Rightarrow> bool" where
  "nonul t i x \<longleftrightarrow> (\<forall>y. i \<le> y \<and> y < x \<longrightarrow> t y \<noteq> 0)"

lemma nonul_trivial [simp]: "x \<le> i \<Longrightarrow> nonul t i x"
  by (auto simp: nonul_def)

lemma nonul_step: "nonul t i x \<longleftrightarrow> x \<le> i \<or> t i \<noteq> 0 \<and> nonul t (Suc i) x"
proof (cases "x \<le> i")
  case False
  have "i \<le> y \<longleftrightarrow> y = i \<or> Suc i \<le> y" for y by auto
  with False show ?thesis unfolding nonul_def by auto
qed simp

lemma strncpy_from_apply:
  "strncpy_from s t i n x =
     (if i \<le> x \<and> x < i + n then (if nonul t i x then t x else 0) else s x)"
proof (induction n arbitrary: s i x)
  case 0
  then show ?case by auto
next
  case (Suc n)
  show ?case
  proof (cases "t i = 0")
    case True
    then show ?thesis by (auto simp: pad_zero_apply nonul_step [of t i])
  next
    case False
    then show ?thesis
      by (cases "x = i") (auto simp: Suc.IH nonul_step [of t i])
  qed
qed

lemma strncpy_apply:
  "strncpy s t n j = (if j < nat n then (if nonul t 0 j then t j else 0) else s j)"
  unfolding strncpy_def by (simp add: strncpy_from_apply)

lemma safe_copy_apply:
  "safe_copy s t i n x =
     (if i \<le> x \<and> x \<le> i + n \<and> nonul t i (x - 1)
      then (if x < i + n \<and> nonul t i x then t x else 0) else s x)"
proof (induction n arbitrary: s i x)
  case 0
  then show ?case by auto
next
  case (Suc n)
  show ?case
  proof (cases "t i = 0")
    case True
    then have "nonul t i (x - 1) \<longleftrightarrow> x \<le> Suc i" and "nonul t i x \<longleftrightarrow> x \<le> i"
      by (auto simp: nonul_step [of t i])
    with True show ?thesis by auto
  next
    case False
    then show ?thesis
      by (cases "x = i") (auto simp: Suc.IH nonul_step [of t i])
  qed
qed

lemma safestrcpy_apply:
  assumes "0 < n"
  shows "safestrcpy s t n x =
     (if x \<le> nat n - 1 \<and> nonul t 0 (x - 1)
      then (if x < nat n - 1 \<and> nonul t 0 x then t x else 0) else s x)"
  using assms by (simp add: safestrcpy_def safe_copy_apply)

lemma cstr_prefix_eq:
  assumes "\<And>x. x < n \<Longrightarrow> (\<forall>y<x. t y \<noteq> 0) \<Longrightarrow> p x = t x" and "(\<forall>y<n. t y \<noteq> 0) \<Longrightarrow> p n = 0"
  shows "cstr p (Suc n) = cstr t n"
  using assms
proof (induction n arbitrary: p t)
  case 0
  then show ?case by simp
next
  case (Suc n)
  from Suc.prems(1) [of 0] have p0: "p 0 = t 0" by simp
  show ?case
  proof (cases "t 0 = 0")
    case True
    with p0 show ?thesis by simp
  next
    case False
    have "cstr (\<lambda>i. p (Suc i)) (Suc n) = cstr (\<lambda>i. t (Suc i)) n"
    proof (rule Suc.IH)
      show "p (Suc x) = t (Suc x)" if "x < n" and "\<forall>y<x. t (Suc y) \<noteq> 0" for x
        using that False by (intro Suc.prems(1)) (auto simp: less_Suc_eq_0_disj)
      show "p (Suc n) = 0" if "\<forall>y<n. t (Suc y) \<noteq> 0"
        using that False by (intro Suc.prems(2)) (auto simp: less_Suc_eq_0_disj)
    qed
    with False p0 show ?thesis by simp
  qed
qed

text \<open>strlen finds the first NUL, and returns whenever there is one.\<close>

lemma strlen_from_first:
  assumes "s (i + k) = 0" and "\<forall>j<k. s (i + j) \<noteq> 0"
  shows "strlen_from s i = Some (i + k)"
  using assms
proof (induction k arbitrary: i)
  case 0
  then show ?case by (simp add: strlen_from.simps)
next
  case (Suc k)
  have "s i \<noteq> 0" using Suc.prems(2) by (metis add.right_neutral zero_less_Suc)
  moreover have "strlen_from s (Suc i) = Some (Suc i + k)"
    using Suc.prems by (intro Suc.IH) auto
  ultimately show ?case by (subst strlen_from.simps) simp
qed

section \<open>Runs of bytes and 64-bit words in memory\<close>

definition load_bytes :: "(u64 \<Rightarrow> byte) \<Rightarrow> u64 \<Rightarrow> nat \<Rightarrow> byte list" where
  "load_bytes m a n = map (\<lambda>i. m (a + of_nat i)) [0..<n]"

definition store_bytes :: "(u64 \<Rightarrow> byte) \<Rightarrow> u64 \<Rightarrow> byte list \<Rightarrow> (u64 \<Rightarrow> byte)" where
  "store_bytes m a bs = (\<lambda>x. if unat (x - a) < length bs then bs ! unat (x - a) else m x)"

definition load64 :: "(u64 \<Rightarrow> byte) \<Rightarrow> u64 \<Rightarrow> u64" where
  "load64 m a = le_val (load_bytes m a 8)"

definition store64 :: "(u64 \<Rightarrow> byte) \<Rightarrow> u64 \<Rightarrow> u64 \<Rightarrow> (u64 \<Rightarrow> byte)" where
  "store64 m a v = store_bytes m a (le_bytes 8 v)"

lemma length_load_bytes [simp]: "length (load_bytes m a n) = n"
  by (simp add: load_bytes_def)

lemma nth_load_bytes [simp]: "i < n \<Longrightarrow> load_bytes m a n ! i = m (a + of_nat i)"
  by (simp add: load_bytes_def)

lemma load_bytes_cong:
  "(\<And>i. i < n \<Longrightarrow> m (a + of_nat i) = m' (a + of_nat i)) \<Longrightarrow> load_bytes m a n = load_bytes m' a n"
  by (simp add: load_bytes_def)

lemma load_store_bytes_same:
  "length bs \<le> 2 ^ 64 \<Longrightarrow> load_bytes (store_bytes m a bs) a (length bs) = bs"
  by (rule nth_equalityI) (simp_all add: store_bytes_def unat_of_nat)

lemma load64_store64_same [simp]: "load64 (store64 m a v) a = v"
  using load_store_bytes_same [of "le_bytes 8 v" m a]
  by (simp add: load64_def store64_def le_val_le_bytes)

lemma load64_cong:
  "(\<And>i. i < 8 \<Longrightarrow> m (a + of_nat i) = m' (a + of_nat i)) \<Longrightarrow> load64 m a = load64 m' a"
  unfolding load64_def by (rule arg_cong [where f = le_val], rule load_bytes_cong)

text \<open>The eight bytes of an aligned word share their quotient by eight.\<close>

definition aligned8 :: "u64 \<Rightarrow> bool" where
  "aligned8 a \<longleftrightarrow> 8 dvd unat a"

lemma aligned8_add:
  assumes "aligned8 a" and "i < 8"
  shows "unat (a + of_nat i) = unat a + i"
proof (rule unat_add_of_nat)
  from assms(1) have "unat a + 8 \<le> 2 ^ 64"
    unfolding aligned8_def using unat_bound [of a] by (intro dvd_room) auto
  with assms(2) show "unat a + i < 2 ^ LENGTH(64)" by simp
qed

lemma unat_aligned8_less:
  assumes "aligned8 a"
  shows "unat (x - a) < 8 \<longleftrightarrow> unat x div 8 = unat a div 8"
proof -
  from assms have "unat a + 8 \<le> 2 ^ 64"
    unfolding aligned8_def using unat_bound [of a] by (intro dvd_room) auto
  then have "unat (x - a) < 8 \<longleftrightarrow> unat a \<le> unat x \<and> unat x < unat a + 8"
    by (intro word_range_iff)
  also have "\<dots> \<longleftrightarrow> unat x div 8 = unat a div 8"
    using assms by (intro in_chunk_iff) (simp_all add: aligned8_def)
  finally show ?thesis .
qed

lemma store64_apply:
  "aligned8 a \<Longrightarrow> unat x div 8 \<noteq> unat a div 8 \<Longrightarrow> store64 m a v x = m x"
  by (simp add: store64_def store_bytes_def unat_aligned8_less)

lemma load64_store64_other:
  assumes "aligned8 a" and "aligned8 b" and "a \<noteq> b"
  shows "load64 (store64 m a v) b = load64 m b"
proof (rule load64_cong)
  fix i :: nat assume i: "i < 8"
  have dvd: "8 dvd unat a" "8 dvd unat b"
    using assms(1,2) by (simp_all add: aligned8_def)
  have "unat b div 8 \<noteq> unat a div 8"
    using dvd assms(3) by (auto simp: word_eq_iff_unat)
  moreover have "unat (b + of_nat i) div 8 = unat b div 8"
    using i dvd in_chunk_iff [of 8 "unat b" "unat b + i"] aligned8_add [OF assms(2) i] by simp
  ultimately show "store64 m a v (b + of_nat i) = m (b + of_nat i)"
    using assms(1) by (intro store64_apply) simp_all
qed

text \<open>The page an address lies in.\<close>

lemma PGROUNDDOWN_eq_iff:
  assumes "page_aligned p"
  shows "unat (x - p) < 4096 \<longleftrightarrow> PGROUNDDOWN x = p"
proof -
  have p: "4096 dvd unat p"
    using assms by (simp add: page_aligned_unat)
  then have "unat p + 4096 \<le> 2 ^ 64"
    using unat_bound [of p] by (intro dvd_room) auto
  then have "unat (x - p) < 4096 \<longleftrightarrow> unat p \<le> unat x \<and> unat x < unat p + 4096"
    by (intro word_range_iff)
  also have "\<dots> \<longleftrightarrow> unat x div 4096 = unat p div 4096"
    using p by (intro in_chunk_iff) simp_all
  also have "\<dots> \<longleftrightarrow> unat x div 4096 * 4096 = unat p"
    using p by (intro chunk_base) simp_all
  finally show ?thesis
    by (simp add: word_eq_iff_unat unat_PGROUNDDOWN)
qed

lemma memset_page:
  assumes "page_aligned p"
  shows "memset m p c 4096 x = (if PGROUNDDOWN x = p then ucast c else m x)"
  by (simp add: memset_apply PGROUNDDOWN_eq_iff [OF assms])

lemma PGROUNDDOWN_aligned8_add:
  assumes "aligned8 a" and "i < 8"
  shows "PGROUNDDOWN (a + of_nat i) = PGROUNDDOWN a"
proof -
  have "8 dvd unat a" using assms(1) by (simp add: aligned8_def)
  then have "(unat a + i) div 8 = unat a div 8"
    using assms(2) in_chunk_iff [of 8 "unat a" "unat a + i"] by simp
  then have "(unat a + i) div 8 div 512 = unat a div 8 div 512" by simp
  then have "(unat a + i) div 4096 = unat a div 4096" by (simp add: div_mult2_eq [symmetric])
  then show ?thesis
    by (simp add: word_eq_iff_unat unat_PGROUNDDOWN aligned8_add [OF assms])
qed

lemma load64_memset_page_other:
  assumes "page_aligned p" and "aligned8 a" and "PGROUNDDOWN a \<noteq> p"
  shows "load64 (memset m p c 4096) a = load64 m a"
  using assms by (intro load64_cong) (simp add: memset_page PGROUNDDOWN_aligned8_add)

lemma load64_memset_page_zero:
  assumes "page_aligned p" and "aligned8 a" and "PGROUNDDOWN a = p"
  shows "load64 (memset m p 0 4096) a = 0"
proof -
  have "load_bytes (memset m p 0 4096) a 8 = replicate 8 0"
    by (rule nth_equalityI)
      (simp_all add: memset_page [OF assms(1)] PGROUNDDOWN_aligned8_add [OF assms(2)] assms(3))
  then show ?thesis by (simp only: load64_def le_val_zeros)
qed

lemma store64_other_page:
  assumes "aligned8 a" and "PGROUNDDOWN x \<noteq> PGROUNDDOWN a"
  shows "store64 m a v x = m x"
proof (rule store64_apply [OF assms(1)])
  show "unat x div 8 \<noteq> unat a div 8"
  proof
    assume "unat x div 8 = unat a div 8"
    then have "unat x div 8 div 512 = unat a div 8 div 512" by simp
    then have "unat x div 4096 = unat a div 4096" by (simp add: div_mult2_eq [symmetric])
    with assms(2) show False by (simp add: word_eq_iff_unat unat_PGROUNDDOWN)
  qed
qed

lemma page_aligned_aligned8: "page_aligned a \<Longrightarrow> aligned8 a"
  by (auto simp: page_aligned_unat aligned8_def elim: dvd_trans [rotated])

lemma aligned8_slot:
  assumes "page_aligned p" and "i < 512"
  shows "aligned8 (p + of_nat (8 * i))" and "PGROUNDDOWN (p + of_nat (8 * i)) = p"
    and "unat (p + of_nat (8 * i)) = unat p + 8 * i"
proof -
  have p: "4096 dvd unat p"
    using assms(1) by (simp add: page_aligned_unat)
  then have "unat p + 4096 \<le> 2 ^ 64"
    using unat_bound [of p] by (intro dvd_room) auto
  then show u: "unat (p + of_nat (8 * i)) = unat p + 8 * i"
    using assms(2) by (intro unat_add_of_nat) simp
  from p show "aligned8 (p + of_nat (8 * i))"
    unfolding aligned8_def u by (auto intro!: dvd_add elim: dvd_trans [rotated])
  have "(unat p + 8 * i) div 4096 * 4096 = unat p"
    using p assms(2) in_chunk_iff [of 4096 "unat p" "unat p + 8 * i"] chunk_base [of 4096 "unat p"]
    by simp
  then show "PGROUNDDOWN (p + of_nat (8 * i)) = p"
    by (simp add: word_eq_iff_unat unat_PGROUNDDOWN u del: of_nat_mult)
qed

lemma cstr_agree:
  assumes "\<And>x. x < n \<Longrightarrow> (\<forall>y<x. t y \<noteq> 0) \<Longrightarrow> p x = t x"
  shows "cstr p n = cstr t n"
  using assms
proof (induction n arbitrary: p t)
  case (Suc n)
  from Suc.prems [of 0] have p0: "p 0 = t 0" by simp
  show ?case
  proof (cases "t 0 = 0")
    case False
    have "cstr (\<lambda>i. p (Suc i)) n = cstr (\<lambda>i. t (Suc i)) n"
    proof (rule Suc.IH)
      show "p (Suc x) = t (Suc x)" if "x < n" and "\<forall>y<x. t (Suc y) \<noteq> 0" for x
        using that False by (intro Suc.prems) (auto simp: less_Suc_eq_0_disj)
    qed
    with False p0 show ?thesis by simp
  qed (simp add: p0)
qed simp

lemma cstr_strncpy: "cstr (strncpy s t (int n)) n = cstr t n"
  by (rule cstr_agree) (simp add: strncpy_apply nonul_def)

lemma cstr_safestrcpy: "cstr (safestrcpy s t (int (Suc n))) (Suc n) = cstr t n"
  by (rule cstr_prefix_eq) (auto simp: safestrcpy_apply nonul_def)

lemma safestrcpy_Suc:
  "safestrcpy s t (int (Suc n)) x =
     (if x \<le> n \<and> nonul t 0 (x - 1) then (if x < n \<and> nonul t 0 x then t x else 0) else s x)"
  by (simp only: safestrcpy_apply of_nat_0_less_iff nat_int zero_less_Suc diff_Suc_1)

lemma safestrcpy_terminated: "\<exists>j\<le>n. safestrcpy s t (int (Suc n)) j = 0"
proof (cases "\<forall>y<n. t y \<noteq> 0")
  case True
  then show ?thesis
    by (intro exI [of _ n]) (simp add: safestrcpy_Suc nonul_def del: of_nat_Suc)
next
  case False
  define j where "j = (LEAST y. t y = 0)"
  from False obtain y where y: "y < n" "t y = 0" by auto
  then have j: "t j = 0" "j \<le> y" unfolding j_def by (auto intro: LeastI Least_le)
  have "nonul t 0 j" unfolding nonul_def j_def by (auto dest: not_less_Least)
  then have "nonul t 0 (j - 1)" by (simp add: nonul_def)
  with j y show ?thesis
    by (intro exI [of _ j]) (simp add: safestrcpy_Suc del: of_nat_Suc)
qed

lemma safestrcpy_beyond: "n < j \<Longrightarrow> safestrcpy s t (int (Suc n)) j = s j"
  by (simp add: safestrcpy_Suc del: of_nat_Suc)

lemma strncpy_beyond: "n \<le> j \<Longrightarrow> strncpy s t (int n) j = s j"
  by (simp add: strncpy_apply)

section \<open>Properties\<close>

text \<open>C36: memmove copies correctly even when the ranges overlap: after the call every
  destination byte is the byte the source held before it, and no other byte has changed, provided
  neither range wraps around the address space.\<close>

theorem memmove_overlap:
  assumes "unat dst + n \<le> 2 ^ 64" and "unat src + n < 2 ^ 64"
  shows "memmove m dst src n = (\<lambda>a. if unat (a - dst) < n then m (src + (a - dst)) else m a)"
  using memmove_copied [OF assms] by (simp add: copied_def)

theorem memmove_overlap_witness:
  "memmove (\<lambda>a. ucast a) 11 10 3 13 = (12 :: byte) \<and> memmove (\<lambda>a. ucast a) 10 11 3 10 = (11 :: byte)"
proof -
  have "memmove (\<lambda>a. ucast a) 11 10 3 13 = (ucast (12 :: u64) :: byte)"
    using fun_cong [OF memmove_overlap [of 11 3 10 "\<lambda>a. ucast a :: byte"], of 13] by simp
  moreover have "memmove (\<lambda>a. ucast a) 10 11 3 10 = (ucast (11 :: u64) :: byte)"
    using fun_cong [OF memmove_overlap [of 10 3 11 "\<lambda>a. ucast a :: byte"], of 10] by simp
  ultimately show ?thesis by simp
qed

text \<open>C37: safestrcpy into a buffer of size n+1 always leaves a NUL-terminated string in it, namely
  the source up to its NUL or to n bytes, and changes nothing beyond the buffer. A name
  stored by strncpy in a field of n bytes compares equal under strncmp to exactly the names with
  the same first n bytes, and nothing beyond the field changes.\<close>

theorem string_copy_correct:
  "cstr (safestrcpy s t (int (Suc n))) (Suc n) = cstr t n \<and>
   (\<exists>j\<le>n. safestrcpy s t (int (Suc n)) j = 0) \<and>
   (\<forall>i. safestrcpy s t (int (Suc n)) (Suc n + i) = s (Suc n + i)) \<and>
   (strncmp (strncpy s t (int n)) u n = 0 \<longleftrightarrow> cstr t n = cstr u n) \<and>
   (\<forall>i. strncpy s t (int n) (n + i) = s (n + i))"
proof -
  have "\<forall>i. safestrcpy s t (int (Suc n)) (Suc n + i) = s (Suc n + i)"
    by (intro allI safestrcpy_beyond) simp
  moreover have "\<forall>i. strncpy s t (int n) (n + i) = s (n + i)"
    by (intro allI strncpy_beyond) simp
  ultimately show ?thesis
    using cstr_safestrcpy safestrcpy_terminated unfolding strncmp_zero_iff cstr_strncpy by blast
qed

end
