(* ===== verification/Kalloc.thy ===== *)
theory Kalloc
  imports Spinlock Kstring
begin

text \<open>
  kalloc.c: the physical page allocator. The free list is threaded through the free
  pages themselves: the first eight bytes of a free page hold the address of the next.
  \<open>kend\<close> is the linker symbol end. The lemmas give the allocator's contract: kalloc and
  kfree pop and push the list of free pages, touch no byte of any other page, and leave
  every lock as they found it.
\<close>

section \<open>Definitions\<close>

definition kfree :: "u64 \<Rightarrow> u64 \<Rightarrow> 'z mach_scheme \<Rightarrow> ('z mach_scheme, unit) res" where
  "kfree kend pa s =
     (if pa mod PGSIZE \<noteq> 0 \<or> pa < kend \<or> PHYSTOP \<le> pa then Panic ''kfree''
      else
        (let s = s\<lparr>pmem := memset (pmem s) pa 1 (unat PGSIZE)\<rparr>
         in bnd (acquire KmemLock s) (\<lambda>_ s.
              let s = s\<lparr>pmem := store64 (pmem s) pa (freelist s)\<rparr>;
                  s = s\<lparr>freelist := pa\<rparr>
              in release KmemLock s)))"

definition kalloc :: "'z mach_scheme \<Rightarrow> ('z mach_scheme, u64) res" where
  "kalloc s =
     bnd (acquire KmemLock s) (\<lambda>_ s.
       let r = freelist s;
           s = (if r \<noteq> 0 then s\<lparr>freelist := load64 (pmem s) r\<rparr> else s)
       in bnd (release KmemLock s) (\<lambda>_ s.
            if r \<noteq> 0 then Ok r (s\<lparr>pmem := memset (pmem s) r 5 (unat PGSIZE)\<rparr>)
            else Ok r s))"

lemma kfree_Ok_below: "kfree kend pa s = Ok u t \<Longrightarrow> pa < PHYSTOP"
  by (auto simp: kfree_def split: if_splits)

function freerange_loop :: "u64 \<Rightarrow> u64 \<Rightarrow> u64 \<Rightarrow> 'z mach_scheme \<Rightarrow> ('z mach_scheme, unit) res" where
  "freerange_loop kend p pa_end s =
     (if p + PGSIZE \<le> pa_end
      then bnd (kfree kend p s) (\<lambda>_ s. freerange_loop kend (p + PGSIZE) pa_end s)
      else Ok () s)"
  by pat_completeness auto
termination
proof (relation "measure (\<lambda>(kend, p, pa_end, s). 2 ^ 64 - unat p)", simp)
  fix kend p pa_end u and s t :: "'z mach_scheme"
  assume "kfree kend p s = Ok u t"
  then have "p < PHYSTOP" by (rule kfree_Ok_below)
  then have "unat p < unat PHYSTOP" by (simp add: word_less_nat_alt)
  then have "unat p < 0x88000000" by (simp add: PHYSTOP_def KERNBASE_def)
  then have "unat (p + PGSIZE) = unat p + 4096"
    using unat_add_small [of p PGSIZE] by simp
  with \<open>unat p < 0x88000000\<close>
  show "((kend, p + PGSIZE, pa_end, t), kend, p, pa_end, s)
      \<in> measure (\<lambda>(kend, p, pa_end, s). 2 ^ 64 - unat p)"
    by simp
qed

declare freerange_loop.simps [simp del]

definition freerange :: "u64 \<Rightarrow> u64 \<Rightarrow> u64 \<Rightarrow> 'z mach_scheme \<Rightarrow> ('z mach_scheme, unit) res" where
  "freerange kend pa_start pa_end s = freerange_loop kend (PGROUNDUP pa_start) pa_end s"

definition kinit :: "u64 \<Rightarrow> 'z mach_scheme \<Rightarrow> ('z mach_scheme, unit) res" where
  "kinit kend s = freerange kend kend PHYSTOP (initlock KmemLock ''kmem'' s)"

section \<open>The free list\<close>

text \<open>\<open>flist m x ps\<close>: following the links from x through memory m visits exactly ps.\<close>

primrec flist :: "(u64 \<Rightarrow> byte) \<Rightarrow> u64 \<Rightarrow> u64 list \<Rightarrow> bool" where
  "flist m x [] \<longleftrightarrow> x = 0"
| "flist m x (p # ps) \<longleftrightarrow> x = p \<and> p \<noteq> 0 \<and> flist m (load64 m p) ps"

definition page_ok :: "u64 \<Rightarrow> u64 \<Rightarrow> bool" where
  "page_ok kend p \<longleftrightarrow> page_aligned p \<and> kend \<le> p \<and> p < PHYSTOP \<and> p \<noteq> 0"

definition kmem_inv :: "u64 \<Rightarrow> u64 list \<Rightarrow> 'z mach_scheme \<Rightarrow> bool" where
  "kmem_inv kend ps s \<longleftrightarrow>
     flist (pmem s) (freelist s) ps \<and> distinct ps \<and> (\<forall>p\<in>set ps. page_ok kend p)"

lemma flist_unique: "flist m x ps \<Longrightarrow> flist m x qs \<Longrightarrow> ps = qs"
proof (induction ps arbitrary: x qs)
  case Nil
  then show ?case by (cases qs) auto
next
  case (Cons p ps)
  then show ?case by (cases qs) auto
qed

lemma flist_cong:
  "flist m x ps \<Longrightarrow> (\<And>p. p \<in> set ps \<Longrightarrow> load64 m' p = load64 m p) \<Longrightarrow> flist m' x ps"
  by (induction ps arbitrary: x) auto

lemma kmem_inv_cong:
  assumes "kmem_inv kend ps s" and "freelist t = freelist s"
    and "\<And>p x. p \<in> set ps \<Longrightarrow> PGROUNDDOWN x = p \<Longrightarrow> pmem t x = pmem s x"
  shows "kmem_inv kend ps t"
proof -
  have "load64 (pmem t) p = load64 (pmem s) p" if "p \<in> set ps" for p
  proof (rule load64_cong)
    fix i :: nat assume "i < 8"
    from that assms(1) have "page_aligned p" by (simp add: kmem_inv_def page_ok_def)
    with \<open>i < 8\<close> have "PGROUNDDOWN (p + of_nat i) = p"
      by (simp add: PGROUNDDOWN_aligned8_add page_aligned_aligned8 PGROUNDDOWN_id)
    with that show "pmem t (p + of_nat i) = pmem s (p + of_nat i)" by (rule assms(3))
  qed
  then show ?thesis
    using assms(1,2) by (auto simp: kmem_inv_def intro: flist_cong)
qed

text \<open>What each operation does to the state once its lock bracket is read away.\<close>

definition kalloc_pop :: "u64 \<Rightarrow> 'z mach_scheme \<Rightarrow> 'z mach_scheme" where
  "kalloc_pop r s = s\<lparr>freelist := load64 (pmem s) r, pmem := memset (pmem s) r 5 4096\<rparr>"

definition kfree_push :: "u64 \<Rightarrow> 'z mach_scheme \<Rightarrow> 'z mach_scheme" where
  "kfree_push pa s =
     s\<lparr>freelist := pa, pmem := store64 (memset (pmem s) pa 1 4096) pa (freelist s)\<rparr>"

lemma kalloc_eq:
  assumes "lock_free KmemLock s" and "intr_ok s"
  shows "kalloc s =
    (if freelist s = 0 then Ok 0 (note_intena s)
     else Ok (freelist s) (kalloc_pop (freelist s) (note_intena s)))"
proof -
  let ?e = "enter KmemLock s"
  have rel1: "release KmemLock ?e = Ok () (note_intena s)"
  proof -
    have "?e\<lparr>sie := sie s, cpus := cpus (note_intena s), locks := locks s\<rparr> = note_intena s"
      by (rule mach.equality) simp_all
    then show ?thesis using assms by (subst release_enter [of KmemLock s]) simp_all
  qed
  have rel2: "release KmemLock (?e\<lparr>freelist := r\<rparr>) = Ok () ((note_intena s)\<lparr>freelist := r\<rparr>)" for r
  proof -
    have "?e\<lparr>freelist := r, sie := sie s, cpus := cpus (note_intena s), locks := locks s\<rparr> =
        (note_intena s)\<lparr>freelist := r\<rparr>"
      by (rule mach.equality) simp_all
    then show ?thesis using assms by (subst release_enter [of KmemLock s]) simp_all
  qed
  show ?thesis
    using assms
    by (auto simp: kalloc_def acquire_free Let_def rel1 rel2 kalloc_pop_def)
qed

lemma kfree_eq:
  assumes "lock_free KmemLock s" and "intr_ok s" and "page_ok kend pa"
  shows "kfree kend pa s = Ok () (kfree_push pa (note_intena s))"
proof -
  let ?f = "\<lambda>s. s\<lparr>pmem := store64 (pmem s) pa (freelist s), freelist := pa\<rparr>"
  let ?s = "s\<lparr>pmem := memset (pmem s) pa 1 (unat PGSIZE)\<rparr>"
  have guard: "\<not> (pa mod PGSIZE \<noteq> 0 \<or> pa < kend \<or> PHYSTOP \<le> pa)"
    using assms(3) by (auto simp: page_ok_def page_aligned_def)
  have "bnd (acquire KmemLock ?s) (\<lambda>_ s. release KmemLock (?f s)) = Ok () (?f (note_intena ?s))"
    using assms(1,2)
    by (intro critical_section)
      (auto simp: lock_neutral_def lock_free_def intr_ok_def cpu_defs intro!: mach.equality)
  moreover have "?f (note_intena ?s) = kfree_push pa (note_intena s)"
    by (rule mach.equality) (simp_all add: kfree_push_def note_intena_def cpu_defs)
  ultimately show ?thesis
    using guard by (simp add: kfree_def Let_def)
qed

lemma kalloc_pop_frame [simp, frame_simps]:
  "locks (kalloc_pop r s) = locks s" "cpus (kalloc_pop r s) = cpus s" "tp (kalloc_pop r s) = tp s"
  "sie (kalloc_pop r s) = sie s" "procs (kalloc_pop r s) = procs s"
  "kernel_pagetable (kalloc_pop r s) = kernel_pagetable s"
  "mach.more (kalloc_pop r s) = mach.more s"
  by (simp_all add: kalloc_pop_def)

lemma kfree_push_frame [simp, frame_simps]:
  "locks (kfree_push r s) = locks s" "cpus (kfree_push r s) = cpus s" "tp (kfree_push r s) = tp s"
  "sie (kfree_push r s) = sie s" "procs (kfree_push r s) = procs s"
  "kernel_pagetable (kfree_push r s) = kernel_pagetable s"
  "mach.more (kfree_push r s) = mach.more s"
  by (simp_all add: kfree_push_def)

lemma intr_ok_cong: "tp t = tp s \<Longrightarrow> cpus t = cpus s \<Longrightarrow> sie t = sie s \<Longrightarrow> intr_ok t = intr_ok s"
  by (simp add: intr_ok_def cpu_defs)

lemma lock_free_cong: "locks t = locks s \<Longrightarrow> lock_free lk t = lock_free lk s"
  by (simp add: lock_free_def)

text \<open>The lock and interrupt conditions under which the allocator's calls go through.\<close>

definition kmem_ready :: "u64 \<Rightarrow> u64 list \<Rightarrow> 'z mach_scheme \<Rightarrow> bool" where
  "kmem_ready kend ps s \<longleftrightarrow> kmem_inv kend ps s \<and> lock_free KmemLock s \<and> intr_ok s"

lemma kmem_inv_note_intena [simp]: "kmem_inv kend ps (note_intena s) = kmem_inv kend ps s"
  by (simp add: kmem_inv_def)

lemma pop_memory: "PGROUNDDOWN x \<noteq> r \<Longrightarrow> page_aligned r \<Longrightarrow> pmem (kalloc_pop r s) x = pmem s x"
  by (simp add: kalloc_pop_def memset_page)

lemma push_memory: "PGROUNDDOWN x \<noteq> r \<Longrightarrow> page_aligned r \<Longrightarrow> pmem (kfree_push r s) x = pmem s x"
  by (simp add: kfree_push_def store64_other_page page_aligned_aligned8 PGROUNDDOWN_id memset_page)

lemma kmem_inv_pop:
  assumes "kmem_inv kend (p # ps) s"
  shows "kmem_inv kend ps (kalloc_pop p s)"
proof (rule kmem_inv_cong)
  show "kmem_inv kend ps (s\<lparr>freelist := load64 (pmem s) p\<rparr>)"
    using assms by (simp add: kmem_inv_def)
  show "freelist (kalloc_pop p s) = freelist (s\<lparr>freelist := load64 (pmem s) p\<rparr>)"
    by (simp add: kalloc_pop_def)
  fix q x assume "q \<in> set ps" and "PGROUNDDOWN x = q"
  with assms have "PGROUNDDOWN x \<noteq> p" and "page_aligned p"
    by (auto simp: kmem_inv_def page_ok_def)
  then show "pmem (kalloc_pop p s) x = pmem (s\<lparr>freelist := load64 (pmem s) p\<rparr>) x"
    by (simp add: pop_memory)
qed

lemma kmem_inv_push:
  assumes "kmem_inv kend ps s" and "page_ok kend p" and "p \<notin> set ps"
  shows "kmem_inv kend (p # ps) (kfree_push p s)"
proof -
  have "page_aligned p" using assms(2) by (simp add: page_ok_def)
  then have "pmem (kfree_push p s) x = pmem s x" if "PGROUNDDOWN x \<in> set ps" for x
    using that assms(3) by (intro push_memory) auto
  then have "kmem_inv kend ps ((kfree_push p s)\<lparr>freelist := freelist s\<rparr>)"
    by (intro kmem_inv_cong [OF assms(1)]) auto
  moreover have "load64 (pmem (kfree_push p s)) p = freelist s"
    by (simp add: kfree_push_def)
  ultimately show ?thesis
    using assms(2,3) by (simp add: kmem_inv_def kfree_push_def page_ok_def)
qed

section \<open>The allocator's contract\<close>

text \<open>
  What the clients of an allocator rely on: \<open>avail ps s\<close> says that ps are the free
  pages of s; allocation hands out the head and preserves the bytes of every other page;
  freeing gives a page back; no page is free twice.
\<close>

locale page_source =
  fixes alloc :: "'s \<Rightarrow> ('s, u64) res"
    and free :: "u64 \<Rightarrow> 's \<Rightarrow> ('s, unit) res"
    and mem :: "'s \<Rightarrow> u64 \<Rightarrow> byte"
    and avail :: "u64 list \<Rightarrow> 's \<Rightarrow> bool"
    and okpage :: "u64 \<Rightarrow> bool"
  assumes alloc_none: "avail [] s \<Longrightarrow> \<exists>t. alloc s = Ok 0 t \<and> avail [] t \<and> mem t = mem s"
    and alloc_some: "avail (p # ps) s \<Longrightarrow>
      \<exists>t. alloc s = Ok p t \<and> avail ps t \<and> (\<forall>x. PGROUNDDOWN x \<noteq> p \<longrightarrow> mem t x = mem s x)"
    and free_page: "avail ps s \<Longrightarrow> okpage p \<Longrightarrow> p \<notin> set ps \<Longrightarrow>
      \<exists>t. free p s = Ok () t \<and> avail (p # ps) t \<and> (\<forall>x. PGROUNDDOWN x \<noteq> p \<longrightarrow> mem t x = mem s x)"
    and avail_distinct: "avail ps s \<Longrightarrow> distinct ps"
    and avail_ok: "avail ps s \<Longrightarrow> p \<in> set ps \<Longrightarrow> okpage p"
    and ok_nonzero: "okpage p \<Longrightarrow> p \<noteq> 0"
begin

text \<open>A client that owns the pages own runs one call.\<close>

lemma alloc_owned:
  assumes "avail ps s" and "distinct (own @ ps)"
  shows "\<exists>p t ps'. alloc s = Ok p t \<and> avail ps' t \<and>
    (p = 0 \<and> ps = [] \<and> ps' = [] \<or> p \<noteq> 0 \<and> p \<notin> set own \<and> ps = p # ps') \<and>
    (\<forall>x. PGROUNDDOWN x \<in> set own \<longrightarrow> mem t x = mem s x)"
proof (cases ps)
  case Nil
  then show ?thesis using alloc_none assms(1) by fastforce
next
  case (Cons p ps')
  with assms(1) alloc_some obtain t where
    "alloc s = Ok p t" "avail ps' t" "\<forall>x. PGROUNDDOWN x \<noteq> p \<longrightarrow> mem t x = mem s x" by blast
  moreover have "p \<noteq> 0" using assms(1) Cons avail_ok ok_nonzero by auto
  ultimately show ?thesis using Cons assms(2) by (intro exI [of _ p]) auto
qed

lemma free_owned:
  assumes "avail ps s" and "distinct (own @ ps)" and "p \<in> set own" and "okpage p"
  shows "\<exists>t. free p s = Ok () t \<and> avail (p # ps) t \<and>
    (\<forall>x. PGROUNDDOWN x \<in> set (remove1 p own) \<longrightarrow> mem t x = mem s x)"
proof -
  from assms have "p \<notin> set ps" by auto
  with assms(1,4) free_page obtain t where
    "free p s = Ok () t" "avail (p # ps) t" "\<forall>x. PGROUNDDOWN x \<noteq> p \<longrightarrow> mem t x = mem s x" by blast
  moreover have "p \<notin> set (remove1 p own)" using assms(2) by auto
  ultimately show ?thesis by auto
qed

end

interpretation kmem: page_source kalloc "kfree kend" pmem "kmem_ready kend" "page_ok kend"
  for kend
proof unfold_locales
  fix s :: "'a mach_scheme" assume s: "kmem_ready kend [] s"
  then have "kalloc s = Ok 0 (note_intena s)"
    by (simp add: kmem_ready_def kmem_inv_def kalloc_eq)
  with s show "\<exists>t. kalloc s = Ok 0 t \<and> kmem_ready kend [] t \<and> pmem t = pmem s"
    by (simp add: kmem_ready_def)
next
  fix p ps and s :: "'a mach_scheme" assume s: "kmem_ready kend (p # ps) s"
  let ?t = "kalloc_pop p (note_intena s)"
  from s have "kalloc s = Ok p ?t" and p: "page_aligned p"
    by (auto simp: kmem_ready_def kmem_inv_def kalloc_eq page_ok_def)
  moreover from s have "kmem_ready kend ps ?t"
    by (simp add: kmem_ready_def kmem_inv_pop intr_ok_cong [of ?t "note_intena s"]
        lock_free_cong [of ?t "note_intena s"])
  ultimately show "\<exists>t. kalloc s = Ok p t \<and> kmem_ready kend ps t \<and>
      (\<forall>x. PGROUNDDOWN x \<noteq> p \<longrightarrow> pmem t x = pmem s x)"
    by (intro exI [of _ ?t]) (simp add: pop_memory)
next
  fix ps p and s :: "'a mach_scheme"
  assume s: "kmem_ready kend ps s" and p: "page_ok kend p" and np: "p \<notin> set ps"
  let ?t = "kfree_push p (note_intena s)"
  from s p have "kfree kend p s = Ok () ?t"
    by (simp add: kmem_ready_def kfree_eq)
  moreover from s p np have "kmem_ready kend (p # ps) ?t"
    by (simp add: kmem_ready_def kmem_inv_push intr_ok_cong [of ?t "note_intena s"]
        lock_free_cong [of ?t "note_intena s"])
  ultimately show "\<exists>t. kfree kend p s = Ok () t \<and> kmem_ready kend (p # ps) t \<and>
      (\<forall>x. PGROUNDDOWN x \<noteq> p \<longrightarrow> pmem t x = pmem s x)"
    using p by (intro exI [of _ ?t]) (simp add: push_memory page_ok_def)
qed (auto simp: kmem_ready_def kmem_inv_def page_ok_def)

section \<open>Clients of the allocator\<close>

text \<open>
  A run of allocator calls by clients that free only pages they own: \<open>KFree i\<close> gives
  back the i-th owned page.
\<close>

datatype kop = KAlloc | KFree nat

fun krun :: "u64 \<Rightarrow> kop list \<Rightarrow> u64 list \<Rightarrow> 'z mach_scheme \<Rightarrow> ('z mach_scheme, u64 list) res" where
  "krun kend [] own s = Ok own s"
| "krun kend (KAlloc # ops) own s =
     bnd (kalloc s) (\<lambda>p s. krun kend ops (if p = 0 then own else p # own) s)"
| "krun kend (KFree i # ops) own s =
     (if i < length own
      then bnd (kfree kend (own ! i) s) (\<lambda>_ s. krun kend ops (remove1 (own ! i) own) s)
      else krun kend ops own s)"

lemma krun_ok:
  assumes "kmem_ready kend ps s" and "distinct (own @ ps)" and "\<forall>p\<in>set own. page_ok kend p"
  shows "\<exists>own' ps' t. krun kend ops own s = Ok own' t \<and> kmem_ready kend ps' t \<and>
    distinct (own' @ ps') \<and> set (own' @ ps') = set (own @ ps) \<and> (\<forall>p\<in>set own'. page_ok kend p)"
  using assms
proof (induction ops arbitrary: own ps s)
  case Nil
  then show ?case by auto
next
  case (Cons op ops)
  show ?case
  proof (cases op)
    case KAlloc
    from kmem.alloc_owned [OF Cons.prems(1,2)] obtain p t ps' where
      k: "kalloc s = Ok p t" "kmem_ready kend ps' t"
      and alt: "p = 0 \<and> ps = [] \<and> ps' = [] \<or> p \<noteq> 0 \<and> p \<notin> set own \<and> ps = p # ps'" by blast
    let ?own = "if p = 0 then own else p # own"
    have "distinct (?own @ ps')" and same: "set (?own @ ps') = set (own @ ps)"
      and "\<forall>q\<in>set ?own. page_ok kend q"
      using alt Cons.prems kmem.avail_ok [OF Cons.prems(1)] by auto
    from Cons.IH [OF k(2) this(1,3)] show ?thesis
      using KAlloc k(1) same by simp
  next
    case (KFree i)
    show ?thesis
    proof (cases "i < length own")
      case False
      with Cons.IH [OF Cons.prems] KFree show ?thesis by simp
    next
      case True
      then have mem: "own ! i \<in> set own" by simp
      from kmem.free_owned [OF Cons.prems(1,2) mem] Cons.prems(3) mem obtain t where
        k: "kfree kend (own ! i) s = Ok () t" "kmem_ready kend (own ! i # ps) t" by blast
      let ?own = "remove1 (own ! i) own"
      have "distinct (?own @ own ! i # ps)" and same: "set (?own @ own ! i # ps) = set (own @ ps)"
        and "\<forall>q\<in>set ?own. page_ok kend q"
        using Cons.prems(2,3) mem by (auto dest: notin_set_remove1)
      from Cons.IH [OF k(2) this(1,3)] show ?thesis
        using KFree True k(1) same by simp
    qed
  qed
qed

section \<open>Boot\<close>

text \<open>The pages freerange frees, in the order it frees them.\<close>

definition page_range :: "u64 \<Rightarrow> nat \<Rightarrow> u64 list" where
  "page_range p n = map (\<lambda>i. p + of_nat i * PGSIZE) [0..<n]"

lemma page_range_Suc: "page_range p (Suc n) = p # page_range (p + PGSIZE) n"
  by (simp add: page_range_def map_upt_Suc algebra_simps del: upt_Suc)

lemma freerange_loop_ok:
  assumes "kmem_ready kend qs s" and "page_aligned p" and "kend \<le> p" and "p \<noteq> 0"
    and "unat p + n * 4096 = unat PHYSTOP" and "\<forall>q\<in>set qs. q < p"
  shows "\<exists>t. freerange_loop kend p PHYSTOP s = Ok () t \<and>
    kmem_ready kend (rev (page_range p n) @ qs) t"
  using assms
proof (induction n arbitrary: p qs s)
  case 0
  then have "p = PHYSTOP" by (simp add: word_eq_iff_unat)
  then have "\<not> p + PGSIZE \<le> PHYSTOP"
    by (simp add: PHYSTOP_def KERNBASE_def PGSIZE_def)
  with 0 show ?case by (simp add: freerange_loop.simps page_range_def)
next
  case (Suc n)
  have top: "unat PHYSTOP = 0x88000000" by (simp add: PHYSTOP_def KERNBASE_def)
  have up: "unat (p + PGSIZE) = unat p + 4096"
    using Suc.prems(5) top unat_add_small [of p PGSIZE] by simp
  have guard: "p + PGSIZE \<le> PHYSTOP" and below: "p < PHYSTOP"
    using Suc.prems(5) up by (simp_all add: word_le_nat_alt word_less_nat_alt)
  have ok: "page_ok kend p"
    using Suc.prems below by (simp add: page_ok_def)
  have "p \<notin> set qs" using Suc.prems(6) by auto
  with kmem.free_page [OF Suc.prems(1) ok] obtain t where
    t: "kfree kend p s = Ok () t" "kmem_ready kend (p # qs) t" by blast
  have "page_aligned (p + PGSIZE)"
    using Suc.prems(2) up by (simp add: page_aligned_unat)
  moreover have "kend \<le> p + PGSIZE" and "p + PGSIZE \<noteq> 0" and "\<forall>q\<in>set (p # qs). q < p + PGSIZE"
    using Suc.prems(3,6) up by (auto simp: word_le_nat_alt word_less_nat_alt word_eq_iff_unat)
  moreover have "unat (p + PGSIZE) + n * 4096 = unat PHYSTOP"
    using Suc.prems(5) up by simp
  ultimately obtain t' where "freerange_loop kend (p + PGSIZE) PHYSTOP t = Ok () t'"
    "kmem_ready kend (rev (page_range (p + PGSIZE) n) @ p # qs) t'"
    using Suc.IH [OF t(2), of "p + PGSIZE"] by blast
  with t(1) guard show ?case
    by (auto simp: freerange_loop.simps [of kend p] page_range_Suc)
qed

lemma set_page_range:
  assumes "page_aligned p" and "unat p + n * 4096 = unat PHYSTOP" and "p \<noteq> 0"
  shows "set (page_range p n) = {q. page_ok p q}"
proof -
  have top: "unat PHYSTOP = 0x88000000" by (simp add: PHYSTOP_def KERNBASE_def)
  have at: "unat (p + of_nat i * PGSIZE) = unat p + i * 4096" if "i \<le> n" for i
  proof -
    have "i * 4096 \<le> n * 4096" using that by simp
    then have small: "unat p + i * 4096 < 2 ^ 64" using assms(2) top by simp
    have "of_nat i * PGSIZE = (of_nat (i * 4096) :: u64)" by (simp add: PGSIZE_def)
    then show ?thesis using small unat_add_of_nat [of p "i * 4096"] by simp
  qed
  have dvd: "4096 dvd unat p" using assms(1) by (simp add: page_aligned_unat)
  show ?thesis
  proof (intro set_eqI iffI)
    fix q assume "q \<in> set (page_range p n)"
    then obtain i where i: "i < n" "q = p + of_nat i * PGSIZE" by (auto simp: page_range_def)
    then have q: "unat q = unat p + i * 4096" using at [of i] by simp
    have "i * 4096 < n * 4096" using i(1) by simp
    then show "q \<in> {q. page_ok p q}"
      using q dvd assms(2,3)
      by (auto simp: page_ok_def page_aligned_unat word_le_nat_alt word_less_nat_alt word_eq_iff_unat)
  next
    fix q assume "q \<in> {q. page_ok p q}"
    then have q: "4096 dvd unat q" "unat p \<le> unat q" "unat q < unat PHYSTOP"
      by (auto simp: page_ok_def page_aligned_unat word_le_nat_alt word_less_nat_alt)
    then obtain i where i: "unat q = unat p + 4096 * i"
      using dvd by (metis dvd_diff_nat dvd_def le_add_diff_inverse)
    then have "i < n" using q(3) assms(2) by linarith
    moreover from this i have "q = p + of_nat i * PGSIZE"
      using at [of i] by (simp add: word_eq_iff_unat)
    ultimately show "q \<in> set (page_range p n)" by (auto simp: page_range_def)
  qed
qed

lemma page_ok_PGROUNDUP:
  assumes "kend \<le> PHYSTOP"
  shows "page_ok (PGROUNDUP kend) q \<longleftrightarrow> page_ok kend q"
proof -
  have "unat kend \<le> 0x88000000"
    using assms by (simp add: word_le_nat_alt PHYSTOP_def KERNBASE_def)
  then have up: "unat (PGROUNDUP kend) = (unat kend + 4095) div 4096 * 4096"
    by (intro unat_PGROUNDUP) simp
  have "(unat kend + 4095) div 4096 * 4096 \<le> unat q \<longleftrightarrow> unat kend \<le> unat q" if "4096 dvd unat q"
  proof -
    from that obtain k where k: "unat q = k * 4096" by (auto simp: dvd_def mult.commute)
    have "(unat kend + 4095) div 4096 * 4096 \<le> k * 4096 \<longleftrightarrow> (unat kend + 4095) div 4096 < Suc k"
      by (simp add: less_Suc_eq_le)
    also have "\<dots> \<longleftrightarrow> unat kend + 4095 < Suc k * 4096"
      by (rule div_less_iff_less_mult) simp
    finally show ?thesis using k by simp linarith
  qed
  then show ?thesis
    by (auto simp: page_ok_def page_aligned_unat word_le_nat_alt up)
qed

lemma kinit_ok:
  assumes "freelist s = 0" and "intr_ok s" and "KERNBASE \<le> kend" and "kend \<le> PHYSTOP"
  shows "\<exists>t ps. kinit kend s = Ok () t \<and> kmem_ready kend ps t \<and> set ps = {p. page_ok kend p}"
proof -
  let ?s = "initlock KmemLock ''kmem'' s" and ?p = "PGROUNDUP kend"
  have b: "0x80000000 \<le> unat kend" "unat kend \<le> 0x88000000"
    using assms(3,4) by (simp_all add: word_le_nat_alt PHYSTOP_def KERNBASE_def)
  have up: "unat ?p = (unat kend + 4095) div 4096 * 4096"
    using b by (intro unat_PGROUNDUP) simp
  have "(unat kend + 4095) div 4096 \<le> 0x88000" using b by (simp add: div_le_mono)
  then have "unat ?p + (0x88000 - (unat kend + 4095) div 4096) * 4096 = unat PHYSTOP"
    using up by (simp add: PHYSTOP_def KERNBASE_def diff_mult_distrib)
  then obtain n where n: "unat ?p + n * 4096 = unat PHYSTOP" by blast
  have le: "kend \<le> ?p"
    using up dividend_less_div_times [of 4096 "unat kend + 4095"] by (simp add: word_le_nat_alt)
  have al: "page_aligned ?p" by (simp add: page_aligned_unat up)
  have nz: "?p \<noteq> 0" using le b by (auto simp: word_le_nat_alt)
  have "kmem_ready kend [] ?s"
    using assms(1,2) by (simp add: kmem_ready_def kmem_inv_def initlock_def lock_free_def
        intr_ok_def cpu_defs)
  from freerange_loop_ok [OF this al le nz n] obtain t where
    "freerange_loop kend ?p PHYSTOP ?s = Ok () t" "kmem_ready kend (rev (page_range ?p n) @ []) t"
    by auto
  moreover have "set (rev (page_range ?p n) @ []) = {p. page_ok kend p}"
    using set_page_range [OF al n nz] page_ok_PGROUNDUP [OF assms(4)] by simp
  ultimately show ?thesis unfolding kinit_def freerange_def by blast
qed

lemma mach0_freelist: "freelist mach0 = 0"
  by (simp add: mach0_def)

section \<open>Properties\<close>



text \<open>C3: No double allocation. After boot, any sequence of kalloc calls and of kfree calls on
  pages its callers own runs without panic, spin or sleep; the pages handed out and not given
  back are at all times distinct, good, and not on the free list, and no page is lost.\<close>

theorem kalloc_exclusive:
  assumes "freelist s = 0" and "intr_ok s" and "KERNBASE \<le> kend" and "kend \<le> PHYSTOP"
  shows "\<exists>own free t. bnd (kinit kend s) (\<lambda>_. krun kend ops []) = Ok own t \<and>
    kmem_ready kend free t \<and> distinct (own @ free) \<and> set (own @ free) = {p. page_ok kend p}"
proof -
  from kinit_ok [OF assms] obtain t ps where
    t: "kinit kend s = Ok () t" "kmem_ready kend ps t" "set ps = {p. page_ok kend p}" by blast
  with krun_ok [of kend ps t "[]" ops] kmem.avail_distinct [OF t(2)] show ?thesis by auto
qed

theorem kalloc_exclusive_witness:
  "\<exists>own free t. bnd (kinit 0x80027000 mach0) (\<lambda>_. krun 0x80027000 [KAlloc, KAlloc, KFree 1] []) = Ok own t \<and>
    kmem_ready 0x80027000 free t \<and> distinct (own @ free) \<and> set (own @ free) = {p. page_ok 0x80027000 p}"
  by (rule kalloc_exclusive) (simp_all add: KERNBASE_def PHYSTOP_def mach0_freelist)

text \<open>C35: kfree panics exactly on an address that is unaligned, below the end of the kernel or at or
  above PHYSTOP. On every other address, with the lock free, it returns with that page at the head
  of the free list, every byte of the other pages unchanged.\<close>

theorem kfree_cases:
  assumes "lock_free KmemLock s" and "intr_ok s" and "0 < kend"
  shows "if pa mod PGSIZE \<noteq> 0 \<or> pa < kend \<or> PHYSTOP \<le> pa then kfree kend pa s = Panic ''kfree''
    else \<exists>t. kfree kend pa s = Ok () t \<and> freelist t = pa \<and> load64 (pmem t) pa = freelist s \<and>
           (\<forall>x. PGROUNDDOWN x \<noteq> pa \<longrightarrow> pmem t x = pmem s x)"
proof (cases "pa mod PGSIZE \<noteq> 0 \<or> pa < kend \<or> PHYSTOP \<le> pa")
  case True
  then show ?thesis by (simp add: kfree_def)
next
  case False
  from False have al: "page_aligned pa" by (simp add: page_aligned_def)
  with False assms(3) have "page_ok kend pa" by (auto simp: page_ok_def)
  with assms have "kfree kend pa s = Ok () (kfree_push pa (note_intena s))"
    by (intro kfree_eq)
  moreover note al
  ultimately show ?thesis
    using False push_memory by (auto simp: kfree_push_def)
qed

theorem kfree_cases_witness:
  "\<exists>t. kfree 0x80000000 0x80001000 mach0 = Ok () t \<and> freelist t = 0x80001000"
  using kfree_cases [OF mach0_ok(2,1), of "0x80000000" "0x80001000"]
  by (auto simp: PGSIZE_def PHYSTOP_def KERNBASE_def)

end
