(* ===== verification/Vm.thy ===== *)
theory Vm
  imports Kalloc
begin

text \<open>
  vm.c: Sv39 page tables held in physical memory. A page table is the address of a page
  of 512 entries; walk follows or extends the three-level tree. \<open>kend\<close> is the linker
  symbol end, needed wherever a page is freed. Functions that return -1 or a null
  pointer in C return -1 or 0 here.
\<close>

section \<open>Page-table entries (riscv.h)\<close>

definition PTE_V :: u64 where "PTE_V = 1"
definition PTE_R :: u64 where "PTE_R = 2"
definition PTE_W :: u64 where "PTE_W = 4"
definition PTE_X :: u64 where "PTE_X = 8"
definition PTE_U :: u64 where "PTE_U = 16"

definition PA2PTE :: "u64 \<Rightarrow> u64" where
  "PA2PTE pa = push_bit 10 (drop_bit 12 pa)"

definition PTE2PA :: "u64 \<Rightarrow> u64" where
  "PTE2PA pte = push_bit 12 (drop_bit 10 pte)"

definition PTE_FLAGS :: "u64 \<Rightarrow> u64" where
  "PTE_FLAGS pte = pte AND 0x3FF"

definition PX :: "nat \<Rightarrow> u64 \<Rightarrow> u64" where
  "PX level va = drop_bit (12 + 9 * level) va AND 0x1FF"

definition MAKE_SATP :: "u64 \<Rightarrow> u64" where
  "MAKE_SATP pagetable = push_bit 60 8 OR drop_bit 12 pagetable"

section \<open>Walking and mapping\<close>

fun walk_loop :: "nat \<Rightarrow> u64 \<Rightarrow> u64 \<Rightarrow> bool \<Rightarrow> 'z mach_scheme \<Rightarrow> ('z mach_scheme, u64) res" where
  "walk_loop 0 pagetable va alloc s = Ok (pagetable + 8 * PX 0 va) s"
| "walk_loop (Suc level) pagetable va alloc s =
     (let pte = pagetable + 8 * PX (Suc level) va;
          v = load64 (pmem s) pte
      in if v AND PTE_V \<noteq> 0 then walk_loop level (PTE2PA v) va alloc s
         else if \<not> alloc then Ok 0 s
         else bnd (kalloc s) (\<lambda>pagetable s.
           if pagetable = 0 then Ok 0 s
           else
             (let s = s\<lparr>pmem := memset (pmem s) pagetable 0 (unat PGSIZE)\<rparr>;
                  s = s\<lparr>pmem := store64 (pmem s) pte (PA2PTE pagetable OR PTE_V)\<rparr>
              in walk_loop level pagetable va alloc s)))"

definition walk :: "u64 \<Rightarrow> u64 \<Rightarrow> bool \<Rightarrow> 'z mach_scheme \<Rightarrow> ('z mach_scheme, u64) res" where
  "walk pagetable va alloc s =
     (if MAXVA \<le> va then Panic ''walk'' else walk_loop 2 pagetable va alloc s)"

definition walkaddr :: "u64 \<Rightarrow> u64 \<Rightarrow> 'z mach_scheme \<Rightarrow> ('z mach_scheme, u64) res" where
  "walkaddr pagetable va s =
     (if MAXVA \<le> va then Ok 0 s
      else bnd (walk pagetable va False s) (\<lambda>pte s.
        if pte = 0 then Ok 0 s
        else
          (let v = load64 (pmem s) pte
           in if v AND PTE_V = 0 then Ok 0 s
              else if v AND PTE_U = 0 then Ok 0 s
              else Ok (PTE2PA v) s)))"

lemma walk_Ok_below: "walk pagetable va alloc s = Ok a t \<Longrightarrow> va < MAXVA"
  by (auto simp: walk_def split: if_splits)

lemma below_MAXVA_room: "va < MAXVA \<Longrightarrow> unat (va + PGSIZE) = unat va + 4096"
proof -
  assume "va < MAXVA"
  then have "unat va < unat MAXVA" by (simp add: word_less_nat_alt)
  then have "unat va < 2 ^ 38" by (simp add: MAXVA_def)
  then show ?thesis using unat_add_small [of va PGSIZE] by simp
qed

lemma walk_step_decreases:
  assumes "walk pagetable va alloc s = Ok x t"
  shows "2 ^ 64 - unat (va + PGSIZE) < 2 ^ 64 - unat va"
  using below_MAXVA_room [OF walk_Ok_below [OF assms]] unat_bound [of va] by simp

function mappages_loop ::
    "u64 \<Rightarrow> u64 \<Rightarrow> u64 \<Rightarrow> u64 \<Rightarrow> u64 \<Rightarrow> 'z mach_scheme \<Rightarrow> ('z mach_scheme, int) res" where
  "mappages_loop pagetable a lst pa perm s =
     bnd (walk pagetable a True s) (\<lambda>pte s.
       if pte = 0 then Ok (-1) s
       else if load64 (pmem s) pte AND PTE_V \<noteq> 0 then Panic ''remap''
       else
         (let s = s\<lparr>pmem := store64 (pmem s) pte (PA2PTE pa OR perm OR PTE_V)\<rparr>
          in if a = lst then Ok 0 s
             else mappages_loop pagetable (a + PGSIZE) lst (pa + PGSIZE) perm s))"
  by pat_completeness auto
termination
  by (relation "measure (\<lambda>(pagetable, a, lst, pa, perm, s). 2 ^ 64 - unat a)")
    (auto dest: walk_step_decreases)

declare mappages_loop.simps [simp del]

definition mappages ::
    "u64 \<Rightarrow> u64 \<Rightarrow> u64 \<Rightarrow> u64 \<Rightarrow> u64 \<Rightarrow> 'z mach_scheme \<Rightarrow> ('z mach_scheme, int) res" where
  "mappages pagetable va sz pa perm s =
     mappages_loop pagetable (PGROUNDDOWN va) (PGROUNDDOWN (va + sz - 1)) pa perm s"

definition kvmmap :: "u64 \<Rightarrow> u64 \<Rightarrow> u64 \<Rightarrow> u64 \<Rightarrow> 'z mach_scheme \<Rightarrow> ('z mach_scheme, unit) res" where
  "kvmmap va pa sz perm s =
     bnd (mappages (kernel_pagetable s) va sz pa perm s) (\<lambda>r s.
       if r \<noteq> 0 then Panic ''kvmmap'' else Ok () s)"

definition kvmpa :: "u64 \<Rightarrow> 'z mach_scheme \<Rightarrow> ('z mach_scheme, u64) res" where
  "kvmpa va s =
     (let off = va mod PGSIZE
      in bnd (walk (kernel_pagetable s) va False s) (\<lambda>pte s.
           if pte = 0 then Panic ''kvmpa''
           else if load64 (pmem s) pte AND PTE_V = 0 then Panic ''kvmpa''
           else Ok (PTE2PA (load64 (pmem s) pte) + off) s))"

section \<open>User address spaces\<close>

function uvmunmap_loop ::
    "u64 \<Rightarrow> u64 \<Rightarrow> u64 \<Rightarrow> u64 \<Rightarrow> bool \<Rightarrow> 'z mach_scheme \<Rightarrow> ('z mach_scheme, unit) res" where
  "uvmunmap_loop kend pagetable a lim do_free s =
     (if a < lim then
        bnd (walk pagetable a False s) (\<lambda>pte s.
          if pte = 0 then Panic ''uvmunmap: walk''
          else if load64 (pmem s) pte AND PTE_V = 0 then Panic ''uvmunmap: not mapped''
          else if PTE_FLAGS (load64 (pmem s) pte) = PTE_V then Panic ''uvmunmap: not a leaf''
          else
            bnd (if do_free then kfree kend (PTE2PA (load64 (pmem s) pte)) s else Ok () s) (\<lambda>_ s.
              let s = s\<lparr>pmem := store64 (pmem s) pte 0\<rparr>
              in uvmunmap_loop kend pagetable (a + PGSIZE) lim do_free s))
      else Ok () s)"
  by pat_completeness auto
termination
  by (relation "measure (\<lambda>(kend, pagetable, a, lim, do_free, s). 2 ^ 64 - unat a)")
    (auto dest: walk_step_decreases)

declare uvmunmap_loop.simps [simp del]

definition uvmunmap ::
    "u64 \<Rightarrow> u64 \<Rightarrow> u64 \<Rightarrow> u64 \<Rightarrow> bool \<Rightarrow> 'z mach_scheme \<Rightarrow> ('z mach_scheme, unit) res" where
  "uvmunmap kend pagetable va npages do_free s =
     (if va mod PGSIZE \<noteq> 0 then Panic ''uvmunmap: not aligned''
      else uvmunmap_loop kend pagetable va (va + npages * PGSIZE) do_free s)"

definition uvmcreate :: "'z mach_scheme \<Rightarrow> ('z mach_scheme, u64) res" where
  "uvmcreate s =
     bnd (kalloc s) (\<lambda>pagetable s.
       if pagetable = 0 then Ok 0 s
       else Ok pagetable (s\<lparr>pmem := memset (pmem s) pagetable 0 (unat PGSIZE)\<rparr>))"

definition uvminit :: "u64 \<Rightarrow> byte list \<Rightarrow> 'z mach_scheme \<Rightarrow> ('z mach_scheme, unit) res" where
  "uvminit pagetable src s =
     (if 4096 \<le> length src then Panic ''inituvm: more than a page''
      else
        bnd (kalloc s) (\<lambda>mem s.
          let s = s\<lparr>pmem := memset (pmem s) mem 0 (unat PGSIZE)\<rparr>
          in bnd (mappages pagetable 0 PGSIZE mem (PTE_W OR PTE_R OR PTE_X OR PTE_U) s) (\<lambda>_ s.
               Ok () (s\<lparr>pmem := store_bytes (pmem s) mem src\<rparr>))))"

definition uvmdealloc ::
    "u64 \<Rightarrow> u64 \<Rightarrow> u64 \<Rightarrow> u64 \<Rightarrow> 'z mach_scheme \<Rightarrow> ('z mach_scheme, u64) res" where
  "uvmdealloc kend pagetable oldsz newsz s =
     (if oldsz \<le> newsz then Ok oldsz s
      else
        bnd (if PGROUNDUP newsz < PGROUNDUP oldsz
             then uvmunmap kend pagetable (PGROUNDUP newsz)
                    (scast (ucast ((PGROUNDUP oldsz - PGROUNDUP newsz) div PGSIZE) :: u32)) True s
             else Ok () s)
          (\<lambda>_ s. Ok newsz s))"

function uvmalloc_loop ::
    "u64 \<Rightarrow> u64 \<Rightarrow> u64 \<Rightarrow> u64 \<Rightarrow> u64 \<Rightarrow> 'z mach_scheme \<Rightarrow> ('z mach_scheme, u64) res" where
  "uvmalloc_loop kend pagetable oldsz a newsz s =
     (if a < newsz then
        bnd (kalloc s) (\<lambda>mem s.
          if mem = 0 then bnd (uvmdealloc kend pagetable a oldsz s) (\<lambda>_ s. Ok 0 s)
          else
            (let s = s\<lparr>pmem := memset (pmem s) mem 0 (unat PGSIZE)\<rparr>
             in bnd (mappages pagetable a PGSIZE mem (PTE_W OR PTE_X OR PTE_R OR PTE_U) s) (\<lambda>r s.
                  if r \<noteq> 0 then
                    bnd (kfree kend mem s) (\<lambda>_ s.
                    bnd (uvmdealloc kend pagetable a oldsz s) (\<lambda>_ s. Ok 0 s))
                  else uvmalloc_loop kend pagetable oldsz (a + PGSIZE) newsz s)))
      else Ok newsz s)"
  by pat_completeness auto

lemma mappages_Ok_below:
  assumes "mappages pagetable va sz pa perm s = Ok r t"
  shows "PGROUNDDOWN va < MAXVA"
  using assms unfolding mappages_def
  by (subst (asm) mappages_loop.simps) (auto elim!: bnd_OkE dest: walk_Ok_below)

lemma mappages_step_decreases:
  assumes "mappages pagetable va sz pa perm s = Ok r t"
  shows "2 ^ 64 - unat (va + PGSIZE) < 2 ^ 64 - unat va"
proof -
  from mappages_Ok_below [OF assms] have "unat va div 4096 * 4096 < 2 ^ 38"
    by (simp add: word_less_nat_alt unat_PGROUNDDOWN MAXVA_def)
  moreover have "unat va < unat va div 4096 * 4096 + 4096"
    using dividend_less_div_times [of 4096 "unat va"] by simp
  ultimately have "unat va < 2 ^ 38 + 4096" by linarith
  then show ?thesis using unat_add_small [of va PGSIZE] by simp
qed

termination uvmalloc_loop
  by (relation "measure (\<lambda>(kend, pagetable, oldsz, a, newsz, s). 2 ^ 64 - unat a)")
    (auto dest: mappages_step_decreases)

declare uvmalloc_loop.simps [simp del]

definition uvmalloc ::
    "u64 \<Rightarrow> u64 \<Rightarrow> u64 \<Rightarrow> u64 \<Rightarrow> 'z mach_scheme \<Rightarrow> ('z mach_scheme, u64) res" where
  "uvmalloc kend pagetable oldsz newsz s =
     (if newsz < oldsz then Ok oldsz s
      else
        (let oldsz = PGROUNDUP oldsz
         in uvmalloc_loop kend pagetable oldsz oldsz newsz s))"

text \<open>
  freewalk calls itself once per level of the tree; \<open>fuel\<close> bounds the depth. The loop
  over the 512 entries is the recursion on the list of indices.
\<close>

fun freewalk_entries ::
    "(u64 \<Rightarrow> 'z mach_scheme \<Rightarrow> ('z mach_scheme, unit) res) \<Rightarrow> u64 \<Rightarrow> nat list \<Rightarrow> 'z mach_scheme
       \<Rightarrow> ('z mach_scheme, unit) res" where
  "freewalk_entries rec pagetable [] s = Ok () s"
| "freewalk_entries rec pagetable (i # is) s =
     (let slot = pagetable + 8 * of_nat i;
          pte = load64 (pmem s) slot
      in if pte AND PTE_V \<noteq> 0 \<and> pte AND (PTE_R OR PTE_W OR PTE_X) = 0 then
           bnd (rec (PTE2PA pte) s) (\<lambda>_ s.
             freewalk_entries rec pagetable is (s\<lparr>pmem := store64 (pmem s) slot 0\<rparr>))
         else if pte AND PTE_V \<noteq> 0 then Panic ''freewalk: leaf''
         else freewalk_entries rec pagetable is s)"

fun freewalk :: "nat \<Rightarrow> u64 \<Rightarrow> u64 \<Rightarrow> 'z mach_scheme \<Rightarrow> ('z mach_scheme, unit) res" where
  "freewalk 0 kend pagetable s = Fuel"
| "freewalk (Suc fuel) kend pagetable s =
     bnd (freewalk_entries (freewalk fuel kend) pagetable [0..<512] s) (\<lambda>_ s.
       kfree kend pagetable s)"

definition uvmfree :: "u64 \<Rightarrow> u64 \<Rightarrow> u64 \<Rightarrow> 'z mach_scheme \<Rightarrow> ('z mach_scheme, unit) res" where
  "uvmfree kend pagetable sz s =
     bnd (if 0 < sz then uvmunmap kend pagetable 0 (PGROUNDUP sz div PGSIZE) True s else Ok () s)
       (\<lambda>_ s. freewalk 3 kend pagetable s)"

function uvmcopy_loop ::
    "u64 \<Rightarrow> u64 \<Rightarrow> u64 \<Rightarrow> u64 \<Rightarrow> u64 \<Rightarrow> 'z mach_scheme \<Rightarrow> ('z mach_scheme, int) res" where
  "uvmcopy_loop kend old new sz i s =
     (if i < sz then
        bnd (walk old i False s) (\<lambda>pte s.
          if pte = 0 then Panic ''uvmcopy: pte should exist''
          else if load64 (pmem s) pte AND PTE_V = 0 then Panic ''uvmcopy: page not present''
          else
            (let pa = PTE2PA (load64 (pmem s) pte);
                 flags = PTE_FLAGS (load64 (pmem s) pte)
             in bnd (kalloc s) (\<lambda>mem s.
                  if mem = 0 then
                    bnd (uvmunmap kend new 0 (i div PGSIZE) True s) (\<lambda>_ s. Ok (-1) s)
                  else
                    (let s = s\<lparr>pmem := memmove (pmem s) mem pa (unat PGSIZE)\<rparr>
                     in bnd (mappages new i PGSIZE mem flags s) (\<lambda>r s.
                          if r \<noteq> 0 then
                            bnd (kfree kend mem s) (\<lambda>_ s.
                            bnd (uvmunmap kend new 0 (i div PGSIZE) True s) (\<lambda>_ s. Ok (-1) s))
                          else uvmcopy_loop kend old new sz (i + PGSIZE) s)))))
      else Ok 0 s)"
  by pat_completeness auto
termination
  by (relation "measure (\<lambda>(kend, old, new, sz, i, s). 2 ^ 64 - unat i)")
    (auto dest: mappages_step_decreases)

declare uvmcopy_loop.simps [simp del]

definition uvmcopy :: "u64 \<Rightarrow> u64 \<Rightarrow> u64 \<Rightarrow> u64 \<Rightarrow> 'z mach_scheme \<Rightarrow> ('z mach_scheme, int) res" where
  "uvmcopy kend old new sz s = uvmcopy_loop kend old new sz 0 s"

definition uvmclear :: "u64 \<Rightarrow> u64 \<Rightarrow> 'z mach_scheme \<Rightarrow> ('z mach_scheme, unit) res" where
  "uvmclear pagetable va s =
     bnd (walk pagetable va False s) (\<lambda>pte s.
       if pte = 0 then Panic ''uvmclear''
       else Ok () (s\<lparr>pmem := store64 (pmem s) pte (load64 (pmem s) pte AND NOT PTE_U)\<rparr>))"

section \<open>Copying between kernel and user\<close>

text \<open>
  \<open>page_rest va\<close> is the C expression PGSIZE - (va - PGROUNDDOWN(va)): the bytes from va
  to the end of its page. The kernel-side buffer is a byte list. copyin returns the bytes
  it has copied beside its result, which on failure are those of the pages before the
  unmapped one; copyinstr likewise returns the bytes it has stored at dst.
\<close>

definition page_rest :: "u64 \<Rightarrow> u64" where
  "page_rest va = PGSIZE - (va - PGROUNDDOWN va)"

lemma unat_page_off: "unat (va - PGROUNDDOWN va) = unat va mod 4096"
proof -
  have "unat (PGROUNDDOWN va) \<le> unat va"
    by (simp add: unat_PGROUNDDOWN)
  then have "unat (va - PGROUNDDOWN va) = unat va - unat va div 4096 * 4096"
    by (simp add: unat_sub word_le_nat_alt unat_PGROUNDDOWN)
  then show ?thesis by (simp add: minus_div_mult_eq_mod)
qed

lemma unat_page_rest: "unat (page_rest va) = 4096 - unat va mod 4096"
proof -
  have "va - PGROUNDDOWN va \<le> PGSIZE"
    by (simp add: word_le_nat_alt unat_page_off less_imp_le)
  then show ?thesis by (simp add: page_rest_def unat_sub unat_page_off)
qed

lemma page_rest_pos: "0 < unat (page_rest va)"
  by (simp add: unat_page_rest)

function copyout :: "u64 \<Rightarrow> u64 \<Rightarrow> byte list \<Rightarrow> 'z mach_scheme \<Rightarrow> ('z mach_scheme, int) res" where
  "copyout pagetable dstva src s =
     (if src \<noteq> [] then
        (let va0 = PGROUNDDOWN dstva
         in bnd (walkaddr pagetable va0 s) (\<lambda>pa0 s.
              if pa0 = 0 then Ok (-1) s
              else
                (let n = min (unat (page_rest dstva)) (length src);
                     s = s\<lparr>pmem := store_bytes (pmem s) (pa0 + (dstva - va0)) (take n src)\<rparr>
                 in copyout pagetable (va0 + PGSIZE) (drop n src) s)))
      else Ok 0 s)"
  by pat_completeness auto
termination
  by (relation "measure (\<lambda>(pagetable, dstva, src, s). length src)") (auto simp: page_rest_pos)

declare copyout.simps [simp del]

function copyin :: "u64 \<Rightarrow> u64 \<Rightarrow> nat \<Rightarrow> 'z mach_scheme \<Rightarrow> ('z mach_scheme, int \<times> byte list) res" where
  "copyin pagetable srcva len s =
     (if 0 < len then
        (let va0 = PGROUNDDOWN srcva
         in bnd (walkaddr pagetable va0 s) (\<lambda>pa0 s.
              if pa0 = 0 then Ok (-1, []) s
              else
                (let n = min (unat (page_rest srcva)) len;
                     bs = load_bytes (pmem s) (pa0 + (srcva - va0)) n
                 in bnd (copyin pagetable (va0 + PGSIZE) (len - n) s) (\<lambda>(r, cs) s.
                      Ok (r, bs @ cs) s))))
      else Ok (0, []) s)"
  by pat_completeness auto
termination
  by (relation "measure (\<lambda>(pagetable, srcva, len, s). len)") (auto simp: page_rest_pos)

declare copyin.simps [simp del]

text \<open>The inner loop of copyinstr: copy up to n bytes, stopping after a NUL.\<close>

fun copystr_page :: "(u64 \<Rightarrow> byte) \<Rightarrow> u64 \<Rightarrow> nat \<Rightarrow> bool \<times> byte list" where
  "copystr_page m p 0 = (False, [])"
| "copystr_page m p (Suc n) =
     (if m p = 0 then (True, [0])
      else (case copystr_page m (p + 1) n of (got_null, bs) \<Rightarrow> (got_null, m p # bs)))"

function copyinstr :: "u64 \<Rightarrow> u64 \<Rightarrow> nat \<Rightarrow> 'z mach_scheme \<Rightarrow> ('z mach_scheme, int \<times> byte list) res" where
  "copyinstr pagetable srcva mx s =
     (if 0 < mx then
        (let va0 = PGROUNDDOWN srcva
         in bnd (walkaddr pagetable va0 s) (\<lambda>pa0 s.
              if pa0 = 0 then Ok (-1, []) s
              else
                (let n = min (unat (page_rest srcva)) mx
                 in case copystr_page (pmem s) (pa0 + (srcva - va0)) n of
                      (True, bs) \<Rightarrow> Ok (0, bs) s
                    | (False, bs) \<Rightarrow>
                        bnd (copyinstr pagetable (va0 + PGSIZE) (mx - n) s) (\<lambda>(r, cs) s.
                          Ok (r, bs @ cs) s))))
      else Ok (-1, []) s)"
  by pat_completeness auto
termination
  by (relation "measure (\<lambda>(pagetable, srcva, mx, s). mx)") (auto simp: page_rest_pos)

declare copyinstr.simps [simp del]

section \<open>The kernel's own page table\<close>

text \<open>
  \<open>etext\<close> and \<open>trampoline\<close> are linker symbols. kvminit does not check the result of
  kalloc; the memory write then goes to address 0, here as in C.
\<close>

definition UART0 :: u64 where "UART0 = 0x10000000"
definition VIRTIO0 :: u64 where "VIRTIO0 = 0x10001000"
definition CLINT :: u64 where "CLINT = 0x2000000"
definition PLIC :: u64 where "PLIC = 0x0c000000"

definition kvminit :: "u64 \<Rightarrow> u64 \<Rightarrow> 'z mach_scheme \<Rightarrow> ('z mach_scheme, unit) res" where
  "kvminit etext trampoline s =
     bnd (kalloc s) (\<lambda>pt s.
     let s = s\<lparr>kernel_pagetable := pt\<rparr>;
         s = s\<lparr>pmem := memset (pmem s) (kernel_pagetable s) 0 (unat PGSIZE)\<rparr> in
     bnd (kvmmap UART0 UART0 PGSIZE (PTE_R OR PTE_W) s) (\<lambda>_ s.
     bnd (kvmmap VIRTIO0 VIRTIO0 PGSIZE (PTE_R OR PTE_W) s) (\<lambda>_ s.
     bnd (kvmmap CLINT CLINT 0x10000 (PTE_R OR PTE_W) s) (\<lambda>_ s.
     bnd (kvmmap PLIC PLIC 0x400000 (PTE_R OR PTE_W) s) (\<lambda>_ s.
     bnd (kvmmap KERNBASE KERNBASE (etext - KERNBASE) (PTE_R OR PTE_X) s) (\<lambda>_ s.
     bnd (kvmmap etext etext (PHYSTOP - etext) (PTE_R OR PTE_W) s) (\<lambda>_ s.
     kvmmap TRAMPOLINE trampoline PGSIZE (PTE_R OR PTE_X) s)))))))"

definition kvminithart :: "'z mach_scheme \<Rightarrow> 'z mach_scheme" where
  "kvminithart s = s\<lparr>csr := (csr s)\<lparr>csr_satp := MAKE_SATP (kernel_pagetable s)\<rparr>\<rparr>"

end
