(* ===== verification/Vm_Tree.thy ===== *)
theory Vm_Tree
  imports Vm
begin

text \<open>
  Page tables as trees. A path of indices leads from the root to a table page; a page
  table is well formed when every table page is a good page and no page is reached by two
  paths. On well-formed tables walk finds, and with allocation creates, the entry of a
  virtual address without changing what any address maps to, and mappages changes exactly
  the entries it is asked to set.
\<close>

section \<open>Paths\<close>

definition slot :: "u64 \<Rightarrow> nat \<Rightarrow> u64" where
  "slot t i = t + of_nat (8 * i)"

definition child :: "(u64 \<Rightarrow> byte) \<Rightarrow> u64 \<Rightarrow> nat \<Rightarrow> u64 option" where
  "child m t i =
     (let v = load64 m (slot t i) in if v AND PTE_V \<noteq> 0 then Some (PTE2PA v) else None)"

primrec node :: "(u64 \<Rightarrow> byte) \<Rightarrow> u64 \<Rightarrow> nat list \<Rightarrow> u64 option" where
  "node m t [] = Some t"
| "node m t (i # is) = (case child m t i of None \<Rightarrow> None | Some c \<Rightarrow> node m c is)"

declare node.simps(2) [simp del]

definition ix :: "nat \<Rightarrow> u64 \<Rightarrow> nat" where
  "ix l va = unat (PX l va)"

definition leaf_slot :: "(u64 \<Rightarrow> byte) \<Rightarrow> u64 \<Rightarrow> u64 \<Rightarrow> u64" where
  "leaf_slot m root va =
     (case node m root [ix 2 va, ix 1 va] of None \<Rightarrow> 0 | Some t \<Rightarrow> slot t (ix 0 va))"

text \<open>The entry of a virtual address; 0, an invalid entry, where there is no table.\<close>

definition pte_at :: "(u64 \<Rightarrow> byte) \<Rightarrow> u64 \<Rightarrow> u64 \<Rightarrow> u64" where
  "pte_at m root va =
     (case node m root [ix 2 va, ix 1 va] of None \<Rightarrow> 0 | Some t \<Rightarrow> load64 m (slot t (ix 0 va)))"

definition okpath :: "nat list \<Rightarrow> bool" where
  "okpath p \<longleftrightarrow> length p \<le> 2 \<and> (\<forall>i\<in>set p. i < 512)"

definition pt_wf :: "u64 \<Rightarrow> (u64 \<Rightarrow> byte) \<Rightarrow> u64 \<Rightarrow> bool" where
  "pt_wf kend m root \<longleftrightarrow>
     (\<forall>p a. okpath p \<longrightarrow> node m root p = Some a \<longrightarrow> page_ok kend a) \<and>
     (\<forall>p q a. okpath p \<longrightarrow> okpath q \<longrightarrow> node m root p = Some a \<longrightarrow> node m root q = Some a \<longrightarrow> p = q)"

definition tables :: "(u64 \<Rightarrow> byte) \<Rightarrow> u64 \<Rightarrow> u64 set" where
  "tables m root = {a. \<exists>p. okpath p \<and> node m root p = Some a}"

lemma ix_less [simp]: "ix l va < 512"
proof -
  have "PX l va \<le> 0x1FF" unfolding PX_def by (rule word_and_le1)
  then show ?thesis by (simp add: ix_def word_le_nat_alt)
qed

lemma slot_PX: "t + 8 * PX l va = slot t (ix l va)"
  by (simp add: slot_def ix_def)

lemma okpath_two [simp]: "okpath [i, j] \<longleftrightarrow> i < 512 \<and> j < 512"
  by (auto simp: okpath_def)

lemma okpath_one [simp]: "okpath [i] \<longleftrightarrow> i < 512"
  by (auto simp: okpath_def)

lemma okpath_va: "okpath [ix 2 va, ix 1 va]"
  by (simp add: okpath_def)

lemma okpath_Nil [simp]: "okpath []"
  by (simp add: okpath_def)

lemma okpath_append: "okpath (p @ q) \<Longrightarrow> okpath p"
  by (auto simp: okpath_def)

lemma node_append: "node m t (p @ q) = (case node m t p of None \<Rightarrow> None | Some c \<Rightarrow> node m c q)"
  by (induction p arbitrary: t) (auto simp: node.simps(2) split: option.splits)

lemma node_snoc: "node m t (p @ [i]) = (case node m t p of None \<Rightarrow> None | Some c \<Rightarrow> child m c i)"
  by (auto simp: node_append node.simps(2) split: option.splits)

lemma pt_wf_page: "pt_wf kend m root \<Longrightarrow> okpath p \<Longrightarrow> node m root p = Some a \<Longrightarrow> page_ok kend a"
  by (simp add: pt_wf_def)

lemma pt_wf_inj:
  "pt_wf kend m root \<Longrightarrow> okpath p \<Longrightarrow> okpath q \<Longrightarrow> node m root p = Some a \<Longrightarrow>
   node m root q = Some a \<Longrightarrow> p = q"
  by (simp add: pt_wf_def)

lemma slot_facts:
  assumes "page_ok kend t" and "i < 512"
  shows "aligned8 (slot t i)" and "PGROUNDDOWN (slot t i) = t" and "slot t i \<noteq> 0"
proof -
  from assms have t: "page_aligned t" and "t \<noteq> 0" by (simp_all add: page_ok_def)
  show "aligned8 (slot t i)" "PGROUNDDOWN (slot t i) = t"
    unfolding slot_def using aligned8_slot [OF t assms(2)] by blast+
  have "unat (slot t i) = unat t + 8 * i"
    unfolding slot_def using aligned8_slot(3) [OF t assms(2)] .
  with \<open>t \<noteq> 0\<close> show "slot t i \<noteq> 0"
    by (auto simp: word_eq_iff_unat)
qed

lemma slot_inj: "page_ok kend t \<Longrightarrow> i < 512 \<Longrightarrow> j < 512 \<Longrightarrow> slot t i = slot t j \<Longrightarrow> i = j"
  unfolding slot_def page_ok_def
  by (metis aligned8_slot(3) add_left_imp_eq mult_left_cancel zero_neq_numeral)

section \<open>walk without allocation\<close>

lemma walk_noalloc:
  assumes "va < MAXVA"
  shows "walk root va False s = Ok (leaf_slot (pmem s) root va) s"
  using assms
  by (simp add: walk_def numeral_2_eq_2 slot_PX leaf_slot_def node.simps child_def Let_def not_le)

lemma pte_at_leaf_slot:
  assumes "pt_wf kend m root"
  shows "leaf_slot m root va = 0 \<and> pte_at m root va = 0 \<or>
    leaf_slot m root va \<noteq> 0 \<and> pte_at m root va = load64 m (leaf_slot m root va)"
proof (cases "node m root [ix 2 va, ix 1 va]")
  case None
  then show ?thesis by (simp add: leaf_slot_def pte_at_def)
next
  case (Some t)
  with assms have "page_ok kend t" using pt_wf_page okpath_va by blast
  then have "slot t (ix 0 va) \<noteq> 0" by (rule slot_facts) simp
  with Some show ?thesis by (simp add: leaf_slot_def pte_at_def)
qed

section \<open>Frame\<close>

text \<open>A change outside the table pages changes no path and no entry.\<close>

lemma child_cong:
  assumes "page_ok kend t" and "i < 512" and "\<And>x. PGROUNDDOWN x = t \<Longrightarrow> m' x = m x"
  shows "load64 m' (slot t i) = load64 m (slot t i)" and "child m' t i = child m t i"
proof -
  show "load64 m' (slot t i) = load64 m (slot t i)"
    using slot_facts [OF assms(1,2)] assms(3)
    by (intro load64_cong) (simp add: PGROUNDDOWN_aligned8_add)
  then show "child m' t i = child m t i" by (simp add: child_def)
qed

text \<open>Paths only depend on the tables above the last level.\<close>

lemma node_frame_inner:
  assumes "pt_wf kend m root" and "okpath p"
    and "\<And>q x t. okpath q \<Longrightarrow> length q < 2 \<Longrightarrow> node m root q = Some t \<Longrightarrow> PGROUNDDOWN x = t \<Longrightarrow> m' x = m x"
  shows "node m' root p = node m root p"
  using assms(2)
proof (induction p rule: rev_induct)
  case Nil
  then show ?case by simp
next
  case (snoc i p)
  then have p: "okpath p" "length p < 2" and i: "i < 512" by (auto simp: okpath_def)
  with snoc.IH have IH: "node m' root p = node m root p" by simp
  show ?case
  proof (cases "node m root p")
    case None
    with IH show ?thesis by (simp add: node_snoc)
  next
    case (Some t)
    have "page_ok kend t" using pt_wf_page [OF assms(1) p(1) Some] .
    then have "child m' t i = child m t i"
      using i by (rule child_cong) (rule assms(3) [OF p Some])
    with IH Some show ?thesis by (simp add: node_snoc)
  qed
qed

lemma node_frame:
  assumes "pt_wf kend m root" and "okpath p"
    and "\<And>x. PGROUNDDOWN x \<in> tables m root \<Longrightarrow> m' x = m x"
  shows "node m' root p = node m root p"
  using assms(1,2) by (rule node_frame_inner) (auto simp: tables_def intro!: assms(3))

lemma pte_at_frame:
  assumes "pt_wf kend m root" and "\<And>x. PGROUNDDOWN x \<in> tables m root \<Longrightarrow> m' x = m x"
  shows "pte_at m' root va = pte_at m root va"
proof -
  have n: "node m' root [ix 2 va, ix 1 va] = node m root [ix 2 va, ix 1 va]"
    using assms by (intro node_frame) simp_all
  show ?thesis
  proof (cases "node m root [ix 2 va, ix 1 va]")
    case None
    with n show ?thesis by (simp add: pte_at_def)
  next
    case (Some t)
    then have "t \<in> tables m root" using okpath_va unfolding tables_def by blast
    moreover have "page_ok kend t" using assms(1) Some okpath_va pt_wf_page by blast
    ultimately have "load64 m' (slot t (ix 0 va)) = load64 m (slot t (ix 0 va))"
      using assms(2) by (intro child_cong [of kend]) auto
    with n Some show ?thesis by (simp add: pte_at_def)
  qed
qed

lemma pt_wf_frame:
  assumes "pt_wf kend m root" and "\<And>x. PGROUNDDOWN x \<in> tables m root \<Longrightarrow> m' x = m x"
  shows "pt_wf kend m' root" and "tables m' root = tables m root"
proof -
  have n: "node m' root p = node m root p" if "okpath p" for p
    using assms that by (intro node_frame) simp_all
  then show "pt_wf kend m' root" using assms(1) unfolding pt_wf_def by metis
  show "tables m' root = tables m root" using n unfolding tables_def by auto
qed

section \<open>Writing an entry of a last-level table\<close>

lemma node_store_leaf:
  assumes "pt_wf kend m root" and "node m root [a, b] = Some t" and "a < 512" "b < 512" and "i < 512"
    and "okpath p"
  shows "node (store64 m (slot t i) v) root p = node m root p"
  using assms(1,6)
proof (rule node_frame_inner)
  fix q x u
  assume q: "okpath q" "length q < 2" "node m root q = Some u" and x: "PGROUNDDOWN x = u"
  have t: "page_ok kend t" using assms by (intro pt_wf_page [of kend m root "[a, b]"]) simp_all
  have "u \<noteq> t"
  proof
    assume "u = t"
    with q assms have "q = [a, b]" by (intro pt_wf_inj [OF assms(1) q(1) _ q(3)]) simp_all
    with q(2) show False by simp
  qed
  with x show "store64 m (slot t i) v x = m x"
    using slot_facts [OF t assms(5)] by (intro store64_other_page) simp_all
qed

lemma pt_wf_store_leaf:
  assumes "pt_wf kend m root" and "node m root [a, b] = Some t" and "a < 512" "b < 512" and "i < 512"
  shows "pt_wf kend (store64 m (slot t i) v) root"
    and "tables (store64 m (slot t i) v) root = tables m root"
proof -
  note n = node_store_leaf [OF assms]
  then show "pt_wf kend (store64 m (slot t i) v) root"
    using assms(1) unfolding pt_wf_def by metis
  show "tables (store64 m (slot t i) v) root = tables m root"
    using n unfolding tables_def by auto
qed

definition same_page :: "u64 \<Rightarrow> u64 \<Rightarrow> bool" where
  "same_page va wa \<longleftrightarrow> ix 2 va = ix 2 wa \<and> ix 1 va = ix 1 wa \<and> ix 0 va = ix 0 wa"

lemma pte_at_store_leaf:
  assumes "pt_wf kend m root" and "node m root [ix 2 va, ix 1 va] = Some t"
  shows "pte_at (store64 m (slot t (ix 0 va)) v) root wa =
    (if same_page va wa then v else pte_at m root wa)"
proof -
  let ?m = "store64 m (slot t (ix 0 va)) v"
  have n: "node ?m root [ix 2 wa, ix 1 wa] = node m root [ix 2 wa, ix 1 wa]"
    by (rule node_store_leaf [OF assms]) simp_all
  show ?thesis
  proof (cases "node m root [ix 2 wa, ix 1 wa]")
    case None
    with n assms(2) show ?thesis by (auto simp: pte_at_def same_page_def)
  next
    case (Some u)
    have t: "page_ok kend t" and u: "page_ok kend u"
      using pt_wf_page [OF assms(1) okpath_va] assms(2) Some by blast+
    have "slot t (ix 0 va) = slot u (ix 0 wa) \<longleftrightarrow> same_page va wa"
    proof
      assume eq: "slot t (ix 0 va) = slot u (ix 0 wa)"
      then have tu: "t = u" using slot_facts(2) [OF t] slot_facts(2) [OF u] ix_less by metis
      with eq have "ix 0 va = ix 0 wa" using slot_inj [OF t] by simp
      moreover have "[ix 2 va, ix 1 va] = [ix 2 wa, ix 1 wa]"
        using pt_wf_inj [OF assms(1) okpath_va okpath_va] assms(2) Some tu by blast
      ultimately show "same_page va wa" by (simp add: same_page_def)
    qed (use assms(2) Some in \<open>auto simp: same_page_def\<close>)
    then have "load64 ?m (slot u (ix 0 wa)) =
        (if same_page va wa then v else load64 m (slot u (ix 0 wa)))"
      using slot_facts(1) [OF t] slot_facts(1) [OF u]
      by (cases "same_page va wa") (auto intro: load64_store64_other)
    with n Some show ?thesis by (simp add: pte_at_def)
  qed
qed

section \<open>Adding a table\<close>

lemma not_bit_below: "unat w < 2 ^ k \<Longrightarrow> k \<le> n \<Longrightarrow> \<not> bit w n" for w :: u64
proof -
  assume "unat w < 2 ^ k" "k \<le> n"
  then have "unat w < 2 ^ n" by (meson less_le_trans one_le_numeral power_increasing)
  moreover have "unat (drop_bit n w) = unat w div 2 ^ n"
    by (subst unat_drop_bit_eq) (simp add: drop_bit_eq_div)
  ultimately have "drop_bit n w = 0" by (simp add: unat_eq_zero)
  then show ?thesis by (simp add: bit_iff_odd_drop_bit)
qed

lemma not_bit_aligned: "page_aligned c \<Longrightarrow> k < 12 \<Longrightarrow> \<not> bit c k"
proof -
  assume "page_aligned c" "k < 12"
  then have "bit (PGROUNDDOWN c) k = bit c k" by (simp add: PGROUNDDOWN_id)
  moreover have "\<not> bit (PGROUNDDOWN c) k"
    using \<open>k < 12\<close>
    by (simp add: PGROUNDDOWN_def PGSIZE_mask and_not_mask bit_push_bit_iff)
  ultimately show ?thesis by simp
qed

lemma PTE2PA_PA2PTE:
  assumes "page_aligned c" and "unat c < 2 ^ 54" and "unat f < 2 ^ 10"
  shows "PTE2PA (PA2PTE c OR f) = c"
proof (rule bit_word_eqI)
  fix n assume n: "n < LENGTH(64)"
  show "bit (PTE2PA (PA2PTE c OR f)) n = bit c n"
  proof (cases "12 \<le> n")
    case True
    then have "\<not> bit f (10 + (n - 12))" using not_bit_below [OF assms(3)] by simp
    moreover have "bit c n \<longrightarrow> n < 54" using not_bit_below [OF assms(2), of n] by linarith
    ultimately show ?thesis
      using True n by (auto simp: PTE2PA_def PA2PTE_def bit_push_bit_iff bit_drop_bit_eq bit_or_iff)
  next
    case False
    then show ?thesis
      using not_bit_aligned [OF assms(1), of n] by (simp add: PTE2PA_def bit_push_bit_iff bit_or_iff)
  qed
qed

lemma page_ok_PTE2PA:
  assumes "page_ok kend c" and "unat f < 2 ^ 10"
  shows "PTE2PA (PA2PTE c OR f) = c"
proof -
  have "unat c < unat PHYSTOP" using assms(1) by (simp add: page_ok_def word_less_nat_alt)
  then have "unat c < 2 ^ 54" by (simp add: PHYSTOP_def KERNBASE_def)
  with assms show ?thesis by (intro PTE2PA_PA2PTE) (simp_all add: page_ok_def)
qed

lemma PTE_V_valid [simp]: "(x OR PTE_V) AND PTE_V \<noteq> 0"
proof -
  have "bit ((x OR PTE_V) AND PTE_V) 0" by (simp add: PTE_V_def bit_and_iff bit_or_iff)
  then show ?thesis by auto
qed

lemma child_zero_page:
  assumes "page_ok kend c" and "i < 512" and "\<And>x. PGROUNDDOWN x = c \<Longrightarrow> m x = 0"
  shows "load64 m (slot c i) = 0" and "child m c i = None"
proof -
  have "load64 m (slot c i) = load64 (memset m c 0 4096) (slot c i)"
    using assms slot_facts [OF assms(1,2)]
    by (intro load64_cong) (simp add: memset_page page_ok_def PGROUNDDOWN_aligned8_add)
  also have "\<dots> = 0"
    using assms slot_facts [OF assms(1,2)] by (intro load64_memset_page_zero) (simp_all add: page_ok_def)
  finally show "load64 m (slot c i) = 0" .
  then show "child m c i = None" by (simp add: child_def)
qed

text \<open>
  \<open>fresh_table m mz c\<close>: mz is memory m with the page c, and only it, cleared.
\<close>

definition fresh_table :: "(u64 \<Rightarrow> byte) \<Rightarrow> (u64 \<Rightarrow> byte) \<Rightarrow> u64 \<Rightarrow> bool" where
  "fresh_table m mz c \<longleftrightarrow>
     (\<forall>x. PGROUNDDOWN x \<noteq> c \<longrightarrow> mz x = m x) \<and> (\<forall>x. PGROUNDDOWN x = c \<longrightarrow> mz x = 0)"

lemma node_add_table:
  assumes wf: "pt_wf kend m root" and c: "page_ok kend c" "c \<notin> tables m root" "fresh_table m mz c"
    and p: "okpath (p @ [i])" "node m root p = Some t" "child m t i = None"
    and q: "okpath q"
  shows "node (store64 mz (slot t i) (PA2PTE c OR PTE_V)) root q =
    (if q = p @ [i] then Some c else node m root q)"
  using q
proof (induction q rule: rev_induct)
  case Nil
  then show ?case by simp
next
  case (snoc j q)
  let ?m = "store64 mz (slot t i) (PA2PTE c OR PTE_V)"
  have op: "okpath p" and i: "i < 512" using p(1) by (auto simp: okpath_def)
  have oq: "okpath q" and j: "j < 512" using snoc.prems by (auto simp: okpath_def)
  have t: "page_ok kend t" by (rule pt_wf_page [OF wf op p(2)])
  have "t \<in> tables m root" using op p(2) by (auto simp: tables_def)
  then have tc: "t \<noteq> c" using c(2) by blast
  note IH = snoc.IH [OF oq]
  show ?case
  proof (cases "q = p @ [i]")
    case True
    have "child ?m c j = None"
      using c(3) tc slot_facts [OF t i]
      by (intro child_zero_page [OF c(1) j]) (auto simp: store64_other_page fresh_table_def)
    then show ?thesis using True IH p by (simp add: node_snoc del: append_assoc)
  next
    case False
    show ?thesis
    proof (cases "node m root q")
      case None
      then show ?thesis using IH False p(2) by (auto simp: node_snoc)
    next
      case (Some u)
      have u: "page_ok kend u" by (rule pt_wf_page [OF wf oq Some])
      have "u \<in> tables m root" using oq Some by (auto simp: tables_def)
      then have uc: "u \<noteq> c" using c(2) by blast
      have zm: "child mz u j = child m u j"
        using c(3) uc by (intro child_cong [OF u j]) (auto simp: fresh_table_def)
      show ?thesis
      proof (cases "u = t \<and> j = i")
        case True
        then have "q = p" using pt_wf_inj [OF wf oq op] Some p(2) by blast
        moreover have "child ?m t i = Some c"
          by (simp add: child_def page_ok_PTE2PA [OF c(1)] PTE_V_def)
        ultimately show ?thesis using True IH False Some by (simp add: node_snoc)
      next
        case ne: False
        have "slot u j \<noteq> slot t i"
          using ne slot_facts(2) [OF u j] slot_facts(2) [OF t i] slot_inj [OF t j i] by metis
        then have "child ?m u j = child mz u j"
          using slot_facts(1) [OF u j] slot_facts(1) [OF t i]
          by (simp add: child_def load64_store64_other)
        moreover have "\<not> (q = p \<and> j = i)" using ne Some p(2) by auto
        ultimately show ?thesis using IH False Some zm by (auto simp: node_snoc)
      qed
    qed
  qed
qed

lemma okpath_snoc: "okpath (p @ [i]) \<Longrightarrow> okpath p \<and> i < 512 \<and> length p < 2"
  by (auto simp: okpath_def)

lemma wf_add_table:
  assumes wf: "pt_wf kend m root" and c: "page_ok kend c" "c \<notin> tables m root" "fresh_table m mz c"
    and p: "okpath (p @ [i])" "node m root p = Some t" "child m t i = None"
  defines "m' \<equiv> store64 mz (slot t i) (PA2PTE c OR PTE_V)"
  shows "pt_wf kend m' root" and "tables m' root = insert c (tables m root)"
    and "pte_at m' root va = pte_at m root va"
    and "node m' root (p @ [i]) = Some c"
    and "\<And>x. PGROUNDDOWN x \<noteq> c \<Longrightarrow> PGROUNDDOWN x \<noteq> t \<Longrightarrow> m' x = m x"
proof -
  note n = node_add_table [OF wf c p, folded m'_def]
  have old: "node m root (p @ [i]) = None" using p(2,3) by (simp add: node_snoc)
  have t: "page_ok kend t" "t \<in> tables m root"
    using pt_wf_page [OF wf _ p(2)] okpath_snoc [OF p(1)] p(2) by (auto simp: tables_def)
  note sl = slot_facts [OF t(1), of i]
  have nc: "node m root q \<noteq> Some c" if "okpath q" for q
    using c(2) that by (auto simp: tables_def)
  have nS: "node m' root q = Some a \<longleftrightarrow> q = p @ [i] \<and> a = c \<or> node m root q = Some a" if "okpath q" for q a
    using n [OF that] old by auto
  show "pt_wf kend m' root"
    unfolding pt_wf_def
  proof (intro conjI allI impI)
    fix q a assume "okpath q" "node m' root q = Some a"
    then have "a = c \<or> node m root q = Some a" using nS by auto
    then show "page_ok kend a" using c(1) pt_wf_page [OF wf \<open>okpath q\<close>] by auto
  next
    fix q r a
    assume q: "okpath q" and r: "okpath r" and "node m' root q = Some a" "node m' root r = Some a"
    then have "q = p @ [i] \<and> a = c \<or> node m root q = Some a"
      and "r = p @ [i] \<and> a = c \<or> node m root r = Some a"
      using nS by simp_all
    then show "q = r" using nc [OF q] nc [OF r] pt_wf_inj [OF wf q r, of a] by auto
  qed
  show "tables m' root = insert c (tables m root)"
    using nS p(1) unfolding tables_def by auto
  show "node m' root (p @ [i]) = Some c" using n p(1) by simp
  show frame: "m' x = m x" if "PGROUNDDOWN x \<noteq> c" "PGROUNDDOWN x \<noteq> t" for x
    using that c(3) sl okpath_snoc [OF p(1)]
    by (simp add: m'_def store64_other_page fresh_table_def)
  define hit where "hit \<longleftrightarrow> [ix 2 va, ix 1 va] = p @ [i]"
  have nv: "node m' root [ix 2 va, ix 1 va] = (if hit then Some c else node m root [ix 2 va, ix 1 va])"
    unfolding hit_def by (rule n [OF okpath_va])
  show "pte_at m' root va = pte_at m root va"
  proof (cases hit)
    case True
    have "c \<noteq> t" using c(2) t(2) by auto
    then have "load64 m' (slot c (ix 0 va)) = 0"
      using c(1,3) sl okpath_snoc [OF p(1)]
      by (intro child_zero_page) (auto simp: m'_def store64_other_page fresh_table_def)
    moreover have "node m root [ix 2 va, ix 1 va] = None"
      using True old unfolding hit_def by (simp only:)
    ultimately show ?thesis using nv True by (simp add: pte_at_def)
  next
    case False
    show ?thesis
    proof (cases "node m root [ix 2 va, ix 1 va]")
      case None
      then show ?thesis using nv False by (simp add: pte_at_def)
    next
      case (Some u)
      have u: "page_ok kend u" by (rule pt_wf_page [OF wf okpath_va Some])
      have "u \<noteq> t"
        using pt_wf_inj [OF wf okpath_va _ Some, of p] p(2) okpath_snoc [OF p(1)] by auto
      moreover have "u \<noteq> c" using nc [OF okpath_va] Some by auto
      ultimately have "load64 m' (slot u (ix 0 va)) = load64 m (slot u (ix 0 va))"
        using frame by (intro child_cong [OF u]) auto
      then show ?thesis using nv False Some by (simp add: pte_at_def)
    qed
  qed
qed

section \<open>walk with allocation\<close>

text \<open>
  \<open>vm_inv kend root ps s\<close>: the page table at root is well formed, the allocator is ready
  with free pages ps, and no table page is free.
\<close>

definition vm_inv :: "u64 \<Rightarrow> u64 \<Rightarrow> u64 list \<Rightarrow> 'z mach_scheme \<Rightarrow> bool" where
  "vm_inv kend root ps s \<longleftrightarrow>
     pt_wf kend (pmem s) root \<and> kmem_ready kend ps s \<and> tables (pmem s) root \<inter> set ps = {}"

lemma kmem_ready_pmem:
  assumes "kmem_ready kend ps s" and "\<And>x. PGROUNDDOWN x \<in> set ps \<Longrightarrow> m x = pmem s x"
  shows "kmem_ready kend ps (s\<lparr>pmem := m\<rparr>)"
  using assms unfolding kmem_ready_def
  by (auto simp: lock_free_def intr_ok_def cpu_defs intro!: kmem_inv_cong [of kend ps s])

text \<open>
  \<open>vm_ext root ps s ps' t\<close>: t is s after the pages \<open>ps - ps'\<close> have become tables of
  root, and no byte outside its tables has changed. \<open>vm_grow\<close>: besides, every address
  maps as before.
\<close>

definition vm_ext :: "u64 \<Rightarrow> u64 list \<Rightarrow> 'z mach_scheme \<Rightarrow> u64 list \<Rightarrow> 'z mach_scheme \<Rightarrow> bool" where
  "vm_ext root ps s ps' t \<longleftrightarrow>
     (\<exists>used. ps = used @ ps' \<and> tables (pmem t) root = tables (pmem s) root \<union> set used \<and>
        (\<forall>x. PGROUNDDOWN x \<notin> tables (pmem s) root \<union> set used \<longrightarrow> pmem t x = pmem s x))"

definition vm_grow :: "u64 \<Rightarrow> u64 list \<Rightarrow> 'z mach_scheme \<Rightarrow> u64 list \<Rightarrow> 'z mach_scheme \<Rightarrow> bool" where
  "vm_grow root ps s ps' t \<longleftrightarrow>
     vm_ext root ps s ps' t \<and> (\<forall>va. pte_at (pmem t) root va = pte_at (pmem s) root va)"

lemma vm_ext_refl: "vm_ext root ps s ps s"
  by (simp add: vm_ext_def)

lemma vm_ext_trans:
  "vm_ext root ps s ps' t \<Longrightarrow> vm_ext root ps' t ps'' u \<Longrightarrow> vm_ext root ps s ps'' u"
  unfolding vm_ext_def by (elim conjE exE) (auto intro!: exI)

lemma vm_grow_refl: "vm_grow root ps s ps s"
  by (simp add: vm_grow_def vm_ext_refl)

lemma vm_grow_trans:
  "vm_grow root ps s ps' t \<Longrightarrow> vm_grow root ps' t ps'' u \<Longrightarrow> vm_grow root ps s ps'' u"
  unfolding vm_grow_def by (auto intro: vm_ext_trans)

lemma kalloc_table:
  assumes "vm_inv kend root ps s" and p: "okpath (p @ [i])" "node (pmem s) root p = Some t"
    "child (pmem s) t i = None"
  shows "(\<exists>u. kalloc s = Ok 0 u \<and> ps = [] \<and> vm_inv kend root [] u \<and> pmem u = pmem s) \<or>
    (\<exists>c ps' u v. ps = c # ps' \<and> c \<noteq> 0 \<and> kalloc s = Ok c u \<and>
      v = u\<lparr>pmem := store64 (memset (pmem u) c 0 4096) (slot t i) (PA2PTE c OR PTE_V)\<rparr> \<and>
      vm_inv kend root ps' v \<and> vm_grow root ps s ps' v \<and> node (pmem v) root (p @ [i]) = Some c)"
proof (cases ps)
  case Nil
  with assms(1) kmem.alloc_none [of kend s] show ?thesis by (auto simp: vm_inv_def)
next
  case (Cons c ps')
  have wf: "pt_wf kend (pmem s) root" and dis: "tables (pmem s) root \<inter> set ps = {}"
    and k: "kmem_ready kend (c # ps') s" using assms(1) Cons by (auto simp: vm_inv_def)
  from kmem.alloc_some [OF k] obtain u where u: "kalloc s = Ok c u" "kmem_ready kend ps' u"
    "\<forall>x. PGROUNDDOWN x \<noteq> c \<longrightarrow> pmem u x = pmem s x" by blast
  have c: "page_ok kend c" "c \<notin> tables (pmem s) root" "c \<notin> set ps'"
    using kmem.avail_ok [OF k] kmem.avail_distinct [OF k] dis Cons by auto
  have al: "page_aligned c" and nz: "c \<noteq> 0" using c(1) by (auto simp: page_ok_def)
  let ?mz = "memset (pmem u) c 0 4096"
  have fr: "fresh_table (pmem s) ?mz c"
    using u(3) by (simp add: fresh_table_def memset_page [OF al])
  let ?v = "u\<lparr>pmem := store64 ?mz (slot t i) (PA2PTE c OR PTE_V)\<rparr>"
  note add = wf_add_table [OF wf c(1,2) fr p]
  have t: "t \<in> tables (pmem s) root" using okpath_snoc [OF p(1)] p(2) by (auto simp: tables_def)
  have "kmem_ready kend ps' ?v"
  proof (rule kmem_ready_pmem [OF u(2)])
    fix x assume x: "PGROUNDDOWN x \<in> set ps'"
    then have "PGROUNDDOWN x \<noteq> c" "PGROUNDDOWN x \<noteq> t" using c(3) t dis Cons by auto
    with add(5) u(3) show "store64 ?mz (slot t i) (PA2PTE c OR PTE_V) x = pmem u x" by simp
  qed
  then have "vm_inv kend root ps' ?v"
    using add(1,2) dis Cons c(3) by (auto simp: vm_inv_def)
  moreover have "vm_grow root ps s ps' ?v"
    unfolding vm_grow_def vm_ext_def using add(2,3,5) t Cons by (auto intro!: exI [of _ "[c]"])
  ultimately show ?thesis using u(1) Cons nz add(4) by auto
qed

lemma walk_loop_alloc:
  assumes "vm_inv kend root ps s" and "node (pmem s) root p = Some t"
    and "length p + level = 2" and "p = take (length p) [ix 2 va, ix 1 va]"
  shows "\<exists>a ps' u. walk_loop level t va True s = Ok a u \<and> vm_inv kend root ps' u \<and>
    vm_grow root ps s ps' u \<and> length ps \<le> length ps' + level \<and>
    (a = 0 \<and> ps' = [] \<or> a \<noteq> 0 \<and> (\<exists>lt. node (pmem u) root [ix 2 va, ix 1 va] = Some lt \<and> a = slot lt (ix 0 va)))"
  using assms
proof (induction level arbitrary: s ps p t)
  case 0
  then have "p = [ix 2 va, ix 1 va]" by simp
  with 0 have n: "node (pmem s) root [ix 2 va, ix 1 va] = Some t" by simp
  then have "page_ok kend t" using 0(1) pt_wf_page [OF _ okpath_va] by (auto simp: vm_inv_def)
  then have "slot t (ix 0 va) \<noteq> 0" by (rule slot_facts) simp
  with n 0(1) show ?case by (auto simp: slot_PX intro: vm_grow_refl)
next
  case (Suc level)
  let ?i = "ix (Suc level) va"
  have p': "p @ [?i] = take (length (p @ [?i])) [ix 2 va, ix 1 va]"
    using Suc.prems(3,4) by (cases p) (auto simp: numeral_2_eq_2)
  have ok: "okpath (p @ [?i])"
    using Suc.prems(3) by (subst p', cases p) (auto simp: okpath_def)
  show ?case
  proof (cases "child (pmem s) t ?i")
    case (Some c)
    then have eq: "walk_loop (Suc level) t va True s = walk_loop level c va True s"
      by (auto simp: slot_PX child_def Let_def split: if_splits)
    have nd: "node (pmem s) root (p @ [?i]) = Some c" using Suc.prems(2) Some by (simp add: node_snoc)
    have len: "length (p @ [?i]) + level = 2" using Suc.prems(3) by simp
    from Suc.IH [OF Suc.prems(1) nd len p'] show ?thesis
    proof (elim exE conjE, goal_cases)
      case (1 a ps' u)
      then show ?case unfolding eq
        by (intro exI [of _ a] exI [of _ ps'] exI [of _ u]) (simp add: le_SucI)
    qed
  next
    case None
    then have v: "load64 (pmem s) (slot t ?i) AND PTE_V = 0"
      by (auto simp: child_def Let_def split: if_splits)
    from kalloc_table [OF Suc.prems(1) ok Suc.prems(2) None] show ?thesis
    proof (elim disjE exE conjE)
      fix u assume "kalloc s = Ok 0 u" "ps = []" "vm_inv kend root [] u" "pmem u = pmem s"
      then show ?thesis using v by (auto simp: slot_PX Let_def vm_grow_def vm_ext_def)
    next
      fix c ps' u w
      assume k: "ps = c # ps'" "c \<noteq> 0" "kalloc s = Ok c u"
        "w = u\<lparr>pmem := store64 (memset (pmem u) c 0 4096) (slot t ?i) (PA2PTE c OR PTE_V)\<rparr>"
        and w: "vm_inv kend root ps' w" "vm_grow root ps s ps' w" "node (pmem w) root (p @ [?i]) = Some c"
      have eq: "walk_loop (Suc level) t va True s = walk_loop level c va True w"
        using k v by (simp add: slot_PX Let_def)
      have len: "length (p @ [?i]) + level = 2" using Suc.prems(3) by simp
      from Suc.IH [OF w(1,3) len p'] show ?thesis
      proof (elim exE conjE, goal_cases)
        case (1 a qs x)
        with k(1) vm_grow_trans [OF w(2), of qs x] show ?case unfolding eq
          by (intro exI [of _ a] exI [of _ qs] exI [of _ x]) simp
      qed
    qed
  qed
qed

lemma walk_alloc:
  assumes "vm_inv kend root ps s" and "va < MAXVA"
  shows "\<exists>a ps' u. walk root va True s = Ok a u \<and> vm_inv kend root ps' u \<and> vm_grow root ps s ps' u \<and>
    length ps \<le> length ps' + 2 \<and>
    (a = 0 \<and> ps' = [] \<or> a \<noteq> 0 \<and> (\<exists>lt. node (pmem u) root [ix 2 va, ix 1 va] = Some lt \<and> a = slot lt (ix 0 va)))"
  using walk_loop_alloc [OF assms(1), of "[]" root 2 va] assms(2) by (simp add: walk_def not_le)

section \<open>mappages\<close>

lemma ix_div: "ix l va = unat va div 2 ^ (12 + 9 * l) mod 512"
proof -
  have m: "(0x1FF :: u64) = mask 9" by (simp add: mask_eq_exp_minus_1)
  have "unat (drop_bit (12 + 9 * l) va) = unat va div 2 ^ (12 + 9 * l)"
    by (subst unat_drop_bit_eq) (simp add: drop_bit_eq_div)
  moreover have "unat (w AND mask 9) = unat w mod 512" for w :: u64
    by (simp add: unsigned_take_bit_eq flip: take_bit_eq_mask) (simp add: take_bit_eq_mod)
  ultimately show ?thesis by (simp only: ix_def PX_def m)
qed

lemma split27: "n < 512 * 512 * 512 \<Longrightarrow> n = (n div 262144 mod 512) * 262144 + (n div 512 mod 512) * 512 + n mod 512"
  for n :: nat
proof -
  assume "n < 512 * 512 * 512"
  then have "n div 262144 mod 512 = n div 262144" by simp
  moreover have "n div 262144 = n div 512 div 512" by (simp flip: div_mult2_eq)
  moreover have "n = n div 512 * 512 + n mod 512" by simp
  moreover have "n div 512 = n div 512 div 512 * 512 + n div 512 mod 512" by simp
  ultimately show ?thesis by linarith
qed

lemma same_page_iff:
  assumes "va < MAXVA" and "wa < MAXVA"
  shows "same_page va wa \<longleftrightarrow> PGROUNDDOWN va = PGROUNDDOWN wa"
proof -
  have b: "unat va div 4096 < 512 * 512 * 512" "unat wa div 4096 < 512 * 512 * 512"
    using assms by (simp_all add: word_less_nat_alt MAXVA_def)
  have i: "ix 2 w = unat w div 4096 div 262144 mod 512" "ix 1 w = unat w div 4096 div 512 mod 512"
    "ix 0 w = unat w div 4096 mod 512" for w
    by (simp_all add: ix_div flip: div_mult2_eq)
  have "same_page va wa \<longleftrightarrow> unat va div 4096 = unat wa div 4096"
    unfolding same_page_def i using split27 [OF b(1)] split27 [OF b(2)] by metis
  then show ?thesis by (simp add: word_eq_iff_unat unat_PGROUNDDOWN)
qed

text \<open>The mapping mappages is to make: w in the page range from a to l gets the page of pa.\<close>

definition mapped ::
    "(u64 \<Rightarrow> u64) \<Rightarrow> u64 \<Rightarrow> u64 \<Rightarrow> u64 \<Rightarrow> u64 \<Rightarrow> u64 \<Rightarrow> u64" where
  "mapped old a l pa perm w =
     (if a \<le> PGROUNDDOWN w \<and> PGROUNDDOWN w \<le> l
      then PA2PTE (pa + (PGROUNDDOWN w - a)) OR perm OR PTE_V else old w)"

lemma set_leaf:
  fixes v :: u64
  assumes "vm_inv kend root ps s" and "node (pmem s) root [ix 2 va, ix 1 va] = Some lt"
  defines "t \<equiv> s\<lparr>pmem := store64 (pmem s) (slot lt (ix 0 va)) v\<rparr>"
  shows "vm_inv kend root ps t" and "vm_ext root ps s ps t"
    and "pte_at (pmem t) root w = (if same_page va w then v else pte_at (pmem s) root w)"
proof -
  have wf: "pt_wf kend (pmem s) root" using assms(1) by (simp add: vm_inv_def)
  have ix: "ix 2 va < 512" "ix 1 va < 512" "ix 0 va < 512" by simp_all
  note st = pt_wf_store_leaf [OF wf assms(2) ix, of v]
  have lt: "page_ok kend lt" "lt \<in> tables (pmem s) root"
    using pt_wf_page [OF wf okpath_va assms(2)] okpath_va assms(2) unfolding tables_def by blast+
  have frame: "store64 (pmem s) (slot lt (ix 0 va)) v x = pmem s x" if "PGROUNDDOWN x \<noteq> lt" for x
    using slot_facts [OF lt(1) ix(3)] that by (intro store64_other_page) simp_all
  have "kmem_ready kend ps t"
    unfolding t_def using assms(1) lt(2)
    by (intro kmem_ready_pmem) (auto simp: vm_inv_def intro!: frame)
  then show "vm_inv kend root ps t"
    using assms(1) st unfolding t_def by (simp add: vm_inv_def)
  show "vm_ext root ps s ps t"
    using st(2) lt(2) unfolding t_def vm_ext_def by (auto intro!: frame)
  show "pte_at (pmem t) root w = (if same_page va w then v else pte_at (pmem s) root w)"
    unfolding t_def using pte_at_store_leaf [OF wf assms(2)] by simp
qed

lemma mapped_empty_step:
  assumes "page_aligned a" and "w < MAXVA" and "a < MAXVA"
  shows "mapped old a a pa perm w = (if same_page a w then PA2PTE pa OR perm OR PTE_V else old w)"
  using assms by (auto simp: mapped_def same_page_iff PGROUNDDOWN_id)

lemma mapped_step:
  assumes "page_aligned a" and "w < MAXVA" and "a < MAXVA" and "a < l" and "page_aligned l"
  shows "mapped (\<lambda>w. if same_page a w then PA2PTE pa OR perm OR PTE_V else old w)
      (a + PGSIZE) l (pa + PGSIZE) perm w = mapped old a l pa perm w"
proof -
  have up: "unat (a + PGSIZE) = unat a + 4096" using below_MAXVA_room [OF assms(3)] .
  have nxt: "a + PGSIZE \<le> PGROUNDDOWN w \<longleftrightarrow> a \<le> PGROUNDDOWN w \<and> PGROUNDDOWN w \<noteq> a"
    using assms(1) PGROUNDDOWN_aligned [of w] up
    by (auto simp: word_le_nat_alt page_aligned_unat word_eq_iff_unat elim!: dvdE)
  have off: "pa + PGSIZE + (x - (a + PGSIZE)) = pa + (x - a)" for x by simp
  show ?thesis
    using assms nxt by (auto simp: mapped_def same_page_iff PGROUNDDOWN_id off)
qed

text \<open>One iteration: the walk runs out of pages, or the entry found is free and gets set.\<close>

lemma map_one:
  assumes "vm_inv kend root ps s" and "a < MAXVA" and "pte_at (pmem s) root a AND PTE_V = 0"
  shows "(\<exists>u. walk root a True s = Ok 0 u \<and> vm_inv kend root [] u \<and> vm_grow root ps s [] u \<and> length ps \<le> 2) \<or>
    (\<exists>p ps' u t. walk root a True s = Ok p u \<and> p \<noteq> 0 \<and> length ps \<le> length ps' + 2 \<and> load64 (pmem u) p AND PTE_V = 0 \<and>
       t = u\<lparr>pmem := store64 (pmem u) p v\<rparr> \<and> vm_inv kend root ps' t \<and> vm_ext root ps s ps' t \<and>
       (\<forall>w. pte_at (pmem t) root w = (if same_page a w then v else pte_at (pmem s) root w)))"
proof -
  from walk_alloc [OF assms(1,2)] obtain p ps' u where
    w: "walk root a True s = Ok p u" "vm_inv kend root ps' u" "vm_grow root ps s ps' u" "length ps \<le> length ps' + 2"
    and alt: "p = 0 \<and> ps' = [] \<or> p \<noteq> 0 \<and>
      (\<exists>lt. node (pmem u) root [ix 2 a, ix 1 a] = Some lt \<and> p = slot lt (ix 0 a))" by blast
  from alt show ?thesis
  proof (elim disjE conjE exE)
    assume "p = 0" "ps' = []"
    with w show ?thesis by auto
  next
    fix lt assume p: "p \<noteq> 0" "node (pmem u) root [ix 2 a, ix 1 a] = Some lt" "p = slot lt (ix 0 a)"
    then have "load64 (pmem u) p = pte_at (pmem u) root a" by (simp add: pte_at_def)
    with w(3) assms(3) have free: "load64 (pmem u) p AND PTE_V = 0" by (simp add: vm_grow_def)
    note leaf = set_leaf [OF w(2) p(2), of v]
    have "vm_ext root ps s ps' (u\<lparr>pmem := store64 (pmem u) p v\<rparr>)"
      using w(3) leaf(2) p(3) by (auto simp: vm_grow_def intro: vm_ext_trans)
    then show ?thesis
      using w(1,3,4) p free leaf(1,3) by (auto simp: vm_grow_def)
  qed
qed

definition maps_to ::
    "u64 \<Rightarrow> u64 \<Rightarrow> u64 \<Rightarrow> u64 \<Rightarrow> u64 \<Rightarrow> u64 list \<Rightarrow> int \<Rightarrow> 'z mach_scheme \<Rightarrow> 'z mach_scheme \<Rightarrow> bool" where
  "maps_to root a l pa perm ps' r s u \<longleftrightarrow>
     (r = 0 \<and> (\<forall>w<MAXVA. pte_at (pmem u) root w = mapped (pte_at (pmem s) root) a l pa perm w) \<or>
      r = -1 \<and> ps' = [] \<and>
      (\<forall>w<MAXVA. \<not> (a \<le> PGROUNDDOWN w \<and> PGROUNDDOWN w \<le> l) \<longrightarrow>
         pte_at (pmem u) root w = pte_at (pmem s) root w))"

lemma maps_to_step:
  assumes "page_aligned a" and "a < MAXVA" and "a < l" and "page_aligned l"
    and t: "pte_at (pmem t) root = (\<lambda>w. if same_page a w then PA2PTE pa OR perm OR PTE_V else pte_at (pmem s) root w)"
    and v: "maps_to root (a + PGSIZE) l (pa + PGSIZE) perm ps' r t v"
  shows "maps_to root a l pa perm ps' r s v"
proof -
  have lt: "a < a + PGSIZE"
    using below_MAXVA_room [OF assms(2)] by (simp add: word_less_nat_alt)
  have "pte_at (pmem t) root w = pte_at (pmem s) root w \<and> \<not> (a + PGSIZE \<le> PGROUNDDOWN w \<and> PGROUNDDOWN w \<le> l)"
    if "w < MAXVA" "\<not> (a \<le> PGROUNDDOWN w \<and> PGROUNDDOWN w \<le> l)" for w
    using that assms(1-3) lt by (auto simp: t same_page_iff PGROUNDDOWN_id)
  moreover have "mapped (pte_at (pmem t) root) (a + PGSIZE) l (pa + PGSIZE) perm w =
      mapped (pte_at (pmem s) root) a l pa perm w" if "w < MAXVA" for w
    unfolding t by (rule mapped_step) fact+
  ultimately show ?thesis
    using v unfolding maps_to_def by metis
qed

lemma mappages_loop_maps:
  assumes "vm_inv kend root ps s" and "page_aligned a" and "unat l = unat a + n * 4096" and "l < MAXVA"
    and "\<forall>w<MAXVA. a \<le> PGROUNDDOWN w \<and> PGROUNDDOWN w \<le> l \<longrightarrow> pte_at (pmem s) root w AND PTE_V = 0"
  shows "\<exists>r ps' u. mappages_loop root a l pa perm s = Ok r u \<and> vm_inv kend root ps' u \<and>
    vm_ext root ps s ps' u \<and> maps_to root a l pa perm ps' r s u \<and> length ps \<le> length ps' + 2 * Suc n"
  using assms
proof (induction n arbitrary: a pa s ps)
  case 0
  then have l: "l = a" by (simp add: word_eq_iff_unat)
  let ?v = "PA2PTE pa OR perm OR PTE_V"
  have "pte_at (pmem s) root a AND PTE_V = 0" using 0 l by (simp add: PGROUNDDOWN_id)
  from map_one [OF 0(1) _ this, of ?v] 0(4) l show ?case
    by (subst mappages_loop.simps)
      (auto simp: maps_to_def vm_grow_def Let_def mapped_empty_step [OF 0(2)])
next
  case (Suc n)
  let ?v = "PA2PTE pa OR perm OR PTE_V"
  have a: "a < MAXVA" "a < l" using Suc.prems(3,4) by (simp_all add: word_less_nat_alt)
  have up: "unat (a + PGSIZE) = unat a + 4096" using below_MAXVA_room [OF a(1)] .
  have al: "page_aligned (a + PGSIZE)" "page_aligned l"
    using Suc.prems(2,3) up by (simp_all add: page_aligned_unat)
  have lt: "a < a + PGSIZE" using up by (simp add: word_less_nat_alt)
  have "pte_at (pmem s) root a AND PTE_V = 0" using Suc.prems(2,5) a by (simp add: PGROUNDDOWN_id)
  from map_one [OF Suc.prems(1) a(1) this, of ?v] show ?case
  proof (elim disjE exE conjE)
    fix u assume "walk root a True s = Ok 0 u" "vm_inv kend root [] u" "vm_grow root ps s [] u" "length ps \<le> 2"
    then show ?thesis by (subst mappages_loop.simps) (auto simp: maps_to_def vm_grow_def)
  next
    fix p ps1 u t
    assume w: "walk root a True s = Ok p u" "p \<noteq> 0" "load64 (pmem u) p AND PTE_V = 0"
      and len: "length ps \<le> length ps1 + 2"
      and t: "t = u\<lparr>pmem := store64 (pmem u) p ?v\<rparr>" "vm_inv kend root ps1 t" "vm_ext root ps s ps1 t"
        "\<forall>w. pte_at (pmem t) root w = (if same_page a w then ?v else pte_at (pmem s) root w)"
    have step: "mappages_loop root a l pa perm s = mappages_loop root (a + PGSIZE) l (pa + PGSIZE) perm t"
      using w t(1) a(2) by (subst mappages_loop.simps) (auto simp: Let_def)
    have free: "\<forall>w<MAXVA. a + PGSIZE \<le> PGROUNDDOWN w \<and> PGROUNDDOWN w \<le> l \<longrightarrow> pte_at (pmem t) root w AND PTE_V = 0"
      using Suc.prems(2,5) t(4) lt a(1) by (auto simp: same_page_iff PGROUNDDOWN_id)
    have "unat l = unat (a + PGSIZE) + n * 4096" using Suc.prems(3) up by simp
    from Suc.IH [OF t(2) al(1) this Suc.prems(4) free, of "pa + PGSIZE"] obtain r ps' v where
      v: "mappages_loop root (a + PGSIZE) l (pa + PGSIZE) perm t = Ok r v" "vm_inv kend root ps' v"
        "vm_ext root ps1 t ps' v" "maps_to root (a + PGSIZE) l (pa + PGSIZE) perm ps' r t v"
        "length ps1 \<le> length ps' + 2 * Suc n" by blast
    have "maps_to root a l pa perm ps' r s v"
      using t(4) by (intro maps_to_step [OF Suc.prems(2) a al(2) _ v(4)]) auto
    with v step len vm_ext_trans [OF t(3) v(3)] show ?thesis by auto
  qed
qed

section \<open>An empty page table\<close>

lemma pt_wf_empty:
  assumes "page_ok kend c" and "\<And>x. PGROUNDDOWN x = c \<Longrightarrow> m x = 0"
  shows "pt_wf kend m c" and "tables m c = {c}" and "pte_at m c va = 0"
proof -
  have ch: "child m c i = None" if "i < 512" for i
    using assms that by (intro child_zero_page)
  have n: "node m c p = (if p = [] then Some c else None)" if "okpath p" for p
    using that ch by (cases p) (auto simp: node.simps(2) okpath_def)
  show "pt_wf kend m c" using n assms(1) by (auto simp: pt_wf_def split: if_splits)
  show "tables m c = {c}" using n by (auto simp: tables_def intro!: exI [of _ "[]"] split: if_splits)
  show "pte_at m c va = 0" using n [OF okpath_va] by (simp add: pte_at_def)
qed

lemma uvmcreate_ok:
  assumes "kmem_ready kend (c # ps) s"
  shows "\<exists>t. uvmcreate s = Ok c t \<and> vm_inv kend c ps t \<and> (\<forall>va. pte_at (pmem t) c va = 0) \<and>
    (\<forall>x. PGROUNDDOWN x \<noteq> c \<longrightarrow> pmem t x = pmem s x)"
proof -
  from kmem.alloc_some [OF assms] obtain u where u: "kalloc s = Ok c u" "kmem_ready kend ps u"
    "\<forall>x. PGROUNDDOWN x \<noteq> c \<longrightarrow> pmem u x = pmem s x" by blast
  have c: "page_ok kend c" "c \<notin> set ps"
    using kmem.avail_ok [OF assms] kmem.avail_distinct [OF assms] by auto
  then have al: "page_aligned c" "c \<noteq> 0" by (auto simp: page_ok_def)
  let ?t = "u\<lparr>pmem := memset (pmem u) c 0 4096\<rparr>"
  have z: "pmem ?t x = (if PGROUNDDOWN x = c then 0 else pmem u x)" for x
    by (simp add: memset_page [OF al(1)])
  have e: "pt_wf kend (pmem ?t) c" "tables (pmem ?t) c = {c}" "pte_at (pmem ?t) c va = 0" for va
    by (rule pt_wf_empty [OF c(1)], simp add: memset_page [OF al(1)])+
  have "kmem_ready kend ps ?t"
    using c(2) by (intro kmem_ready_pmem [OF u(2)]) (auto simp: memset_page [OF al(1)])
  then have "vm_inv kend c ps ?t" using e c(2) by (simp add: vm_inv_def)
  moreover have "uvmcreate s = Ok c ?t" using u(1) al(2) by (simp add: uvmcreate_def)
  ultimately show ?thesis using e(3) u(3) z by auto
qed

text \<open>The machine after boot and the creation of one address space, for the concrete inputs below.\<close>

lemma boot_uvm:
  "\<exists>root ps u. bnd (kinit 0x80027000 mach0) (\<lambda>_. uvmcreate) = Ok root u \<and>
     vm_inv 0x80027000 root ps u \<and> (\<forall>va. pte_at (pmem u) root va = 0)"
proof -
  have "\<exists>t ps. kinit 0x80027000 mach0 = Ok () t \<and> kmem_ready 0x80027000 ps t \<and>
      set ps = {p. page_ok 0x80027000 p}"
    by (rule kinit_ok) (simp_all add: KERNBASE_def PHYSTOP_def mach0_freelist)
  then obtain t ps where t: "kinit 0x80027000 mach0 = Ok () t" "kmem_ready 0x80027000 ps t"
    "set ps = {p. page_ok 0x80027000 p}" by blast
  have "page_ok 0x80027000 0x80027000"
    by (simp add: page_ok_def page_aligned_def PGSIZE_def PHYSTOP_def KERNBASE_def)
  with t(3) have "ps \<noteq> []" by auto
  then obtain c qs where "ps = c # qs" by (cases ps) auto
  with t uvmcreate_ok [of "0x80027000" c qs t] show ?thesis by auto
qed

section \<open>Properties\<close>

text \<open>C12: walk without allocation changes nothing and returns the address of the entry of va, or 0
  when a table on the way is missing; with allocation, on a well-formed page table, it returns 0
  only when the allocator has no page left, and otherwise the address of the entry, having added
  only cleared tables: the tree stays well formed, its tables stay disjoint from the free
  pages, and every virtual address maps to what it did before. At or above MAXVA it panics.\<close>

theorem walk_correct:
  assumes "vm_inv kend root ps s"
  shows "(MAXVA \<le> va \<longrightarrow> walk root va alloc s = Panic ''walk'') \<and>
    (va < MAXVA \<longrightarrow>
      walk root va False s = Ok (leaf_slot (pmem s) root va) s \<and>
      (\<exists>a ps' u. walk root va True s = Ok a u \<and> vm_inv kend root ps' u \<and>
         (a = 0 \<longrightarrow> ps' = []) \<and> (a \<noteq> 0 \<longrightarrow> a = leaf_slot (pmem u) root va) \<and>
         (\<forall>wa. pte_at (pmem u) root wa = pte_at (pmem s) root wa)))"
proof (intro conjI impI)
  assume "MAXVA \<le> va"
  then show "walk root va alloc s = Panic ''walk''" by (simp add: walk_def)
next
  assume va: "va < MAXVA"
  then show "walk root va False s = Ok (leaf_slot (pmem s) root va) s" by (rule walk_noalloc)
  from walk_alloc [OF assms va] obtain a ps' u where
    w: "walk root va True s = Ok a u" "vm_inv kend root ps' u" "vm_grow root ps s ps' u"
    and alt: "a = 0 \<and> ps' = [] \<or> a \<noteq> 0 \<and>
      (\<exists>lt. node (pmem u) root [ix 2 va, ix 1 va] = Some lt \<and> a = slot lt (ix 0 va))" by blast
  from alt have "(a = 0 \<longrightarrow> ps' = []) \<and> (a \<noteq> 0 \<longrightarrow> a = leaf_slot (pmem u) root va)"
    by (auto simp: leaf_slot_def)
  with w show "\<exists>a ps' u. walk root va True s = Ok a u \<and> vm_inv kend root ps' u \<and>
      (a = 0 \<longrightarrow> ps' = []) \<and> (a \<noteq> 0 \<longrightarrow> a = leaf_slot (pmem u) root va) \<and>
      (\<forall>wa. pte_at (pmem u) root wa = pte_at (pmem s) root wa)"
    unfolding vm_grow_def by blast
qed

theorem walk_correct_witness:
  "\<exists>root u a v. bnd (kinit 0x80027000 mach0) (\<lambda>_. uvmcreate) = Ok root u \<and>
     walk root 0x1000 True u = Ok a v \<and> (\<forall>wa. pte_at (pmem v) root wa = 0)"
proof -
  from boot_uvm obtain root ps u where b: "bnd (kinit 0x80027000 mach0) (\<lambda>_. uvmcreate) = Ok root u"
    "vm_inv 0x80027000 root ps u" "\<forall>va. pte_at (pmem u) root va = 0" by blast
  have "(0x1000 :: u64) < MAXVA" by (simp add: MAXVA_def)
  with walk_correct [OF b(2), of "0x1000"] b(1,3) show ?thesis by fastforce
qed

text \<open>C6: mappages of a range of unmapped pages below MAXVA maps exactly the pages of that range,
  the k-th to the k-th physical page after pa with the given permissions, and no other address;
  it returns -1 only when the allocator has run out of pages, and then has changed no entry outside
  the range. It succeeds whenever more than two free pages are left for each page to map.\<close>

theorem mappages_correct:
  assumes "vm_inv kend root ps s" and "0 < unat sz" and "unat va + unat sz \<le> unat MAXVA"
    and "\<forall>w<MAXVA. PGROUNDDOWN va \<le> PGROUNDDOWN w \<and> PGROUNDDOWN w \<le> PGROUNDDOWN (va + sz - 1) \<longrightarrow>
      pte_at (pmem s) root w AND PTE_V = 0"
  shows "\<exists>r ps' u. mappages root va sz pa perm s = Ok r u \<and> vm_inv kend root ps' u \<and>
    (r = 0 \<and> (\<forall>w<MAXVA. pte_at (pmem u) root w =
        (if PGROUNDDOWN va \<le> PGROUNDDOWN w \<and> PGROUNDDOWN w \<le> PGROUNDDOWN (va + sz - 1)
         then PA2PTE (pa + (PGROUNDDOWN w - PGROUNDDOWN va)) OR perm OR PTE_V
         else pte_at (pmem s) root w)) \<or>
     r = -1 \<and> ps' = [] \<and>
     (\<forall>w<MAXVA. \<not> (PGROUNDDOWN va \<le> PGROUNDDOWN w \<and> PGROUNDDOWN w \<le> PGROUNDDOWN (va + sz - 1)) \<longrightarrow>
         pte_at (pmem u) root w = pte_at (pmem s) root w)) \<and>
    (2 * ((unat (va + sz - 1) div 4096 - unat va div 4096) + 1) < length ps \<longrightarrow> r = 0)"
proof -
  let ?a = "PGROUNDDOWN va" and ?l = "PGROUNDDOWN (va + sz - 1)"
  have top: "unat MAXVA = 2 ^ 38" by (simp add: MAXVA_def)
  have "unat (va + sz) = unat va + unat sz" using assms(3) top by (intro unat_add_small) simp
  moreover have "1 \<le> va + sz" using calculation assms(2) by (simp add: word_le_nat_alt)
  ultimately have last: "unat (va + sz - 1) = unat va + unat sz - 1" by (simp add: unat_sub)
  have "unat va div 4096 \<le> (unat va + unat sz - 1) div 4096"
    using assms(2) by (intro div_le_mono) simp
  then have n: "unat ?l = unat ?a + ((unat va + unat sz - 1) div 4096 - unat va div 4096) * 4096"
    by (simp add: unat_PGROUNDDOWN last diff_mult_distrib)
  have "unat ?l \<le> unat va + unat sz - 1" by (simp add: unat_PGROUNDDOWN last)
  then have "?l < MAXVA" using assms(2,3) by (simp add: word_less_nat_alt)
  from mappages_loop_maps [OF assms(1) PGROUNDDOWN_aligned n this assms(4)] obtain r ps' u where
    m: "mappages root va sz pa perm s = Ok r u" "vm_inv kend root ps' u"
      "maps_to root ?a ?l pa perm ps' r s u"
      "length ps \<le> length ps' + 2 * Suc ((unat va + unat sz - 1) div 4096 - unat va div 4096)"
    unfolding mappages_def by blast
  have live: "2 * ((unat (va + sz - 1) div 4096 - unat va div 4096) + 1) < length ps \<longrightarrow> r = 0"
    using m(3,4) unfolding last maps_to_def by auto
  show ?thesis
    by (rule exI [of _ r], rule exI [of _ ps'], rule exI [of _ u])
      (intro conjI m(1,2) live m(3) [unfolded maps_to_def mapped_def])
qed

theorem mappages_correct_witness:
  "\<exists>root u r v. bnd (kinit 0x80027000 mach0) (\<lambda>_. uvmcreate) = Ok root u \<and>
     mappages root 0x1000 0x2000 0x80100000 PTE_R u = Ok r v \<and>
     (r = 0 \<longrightarrow> pte_at (pmem v) root 0x2000 = PA2PTE 0x80101000 OR PTE_R OR PTE_V)"
proof -
  from boot_uvm obtain root ps u where b: "bnd (kinit 0x80027000 mach0) (\<lambda>_. uvmcreate) = Ok root u"
    "vm_inv 0x80027000 root ps u" "\<forall>va. pte_at (pmem u) root va = 0" by blast
  have c: "0 < unat (0x2000 :: u64)" "unat (0x1000 :: u64) + unat (0x2000 :: u64) \<le> unat MAXVA"
    "(0x2000 :: u64) < MAXVA"
    by (simp_all add: MAXVA_def)
  have p: "PGROUNDDOWN 0x1000 = 0x1000" "PGROUNDDOWN 0x2000 = 0x2000" "PGROUNDDOWN (0x1000 + 0x2000 - 1) = 0x2000"
    by (simp_all add: PGROUNDDOWN_def PGSIZE_def)
  have free: "\<forall>w<MAXVA. PGROUNDDOWN 0x1000 \<le> PGROUNDDOWN w \<and> PGROUNDDOWN w \<le> PGROUNDDOWN (0x1000 + 0x2000 - 1) \<longrightarrow>
      pte_at (pmem u) root w AND PTE_V = 0" using b(3) by simp
  let ?to = "\<lambda>w. if PGROUNDDOWN 0x1000 \<le> PGROUNDDOWN w \<and> PGROUNDDOWN w \<le> PGROUNDDOWN (0x1000 + 0x2000 - 1)
    then PA2PTE (0x80100000 + (PGROUNDDOWN w - PGROUNDDOWN 0x1000)) OR PTE_R OR PTE_V else pte_at (pmem u) root w"
  have to: "?to 0x2000 = PA2PTE 0x80101000 OR PTE_R OR PTE_V"
    unfolding p by simp
  from mappages_correct [OF b(2) c(1,2) free, of "0x80100000" PTE_R] show ?thesis
  proof (elim exE conjE, goal_cases)
    case (1 r ps' v)
    from 1(3) have "r = 0 \<longrightarrow> pte_at (pmem v) root 0x2000 = PA2PTE 0x80101000 OR PTE_R OR PTE_V"
    proof (elim disjE conjE)
      assume "\<forall>w<MAXVA. pte_at (pmem v) root w = ?to w"
      with c(3) have "pte_at (pmem v) root 0x2000 = ?to 0x2000" by blast
      with to show ?thesis by simp
    qed simp
    with b(1) 1(1) show ?thesis by blast
  qed
qed

end
