(* ===== verification/Vm_User.thy ===== *)
theory Vm_User
  imports Vm_Tree
begin

text \<open>
  User memory as the page table presents it: \<open>upage\<close> is what walkaddr computes, and
  copyin, copyout and copyinstr are shown to read and write the bytes it gives, page by
  page, exactly as a byte-at-a-time copy would.
\<close>

section \<open>The user view of memory\<close>

definition upage :: "(u64 \<Rightarrow> byte) \<Rightarrow> u64 \<Rightarrow> u64 \<Rightarrow> u64" where
  "upage m root va =
     (if MAXVA \<le> va then 0
      else
        (let v = pte_at m root va
         in if v AND PTE_V = 0 then 0 else if v AND PTE_U = 0 then 0 else PTE2PA v))"

definition upa :: "(u64 \<Rightarrow> byte) \<Rightarrow> u64 \<Rightarrow> u64 \<Rightarrow> u64" where
  "upa m root va = upage m root va + (va - PGROUNDDOWN va)"

definition ubyte :: "(u64 \<Rightarrow> byte) \<Rightarrow> u64 \<Rightarrow> u64 \<Rightarrow> byte" where
  "ubyte m root va = m (upa m root va)"

lemma walkaddr_eq:
  assumes "pt_wf kend (pmem s) root"
  shows "walkaddr root va s = Ok (upage (pmem s) root va) s"
  using pte_at_leaf_slot [OF assms, of va]
  by (auto simp: walkaddr_def upage_def walk_noalloc Let_def not_le)

lemma ix_PGROUNDDOWN: "ix l (PGROUNDDOWN va) = ix l va"
proof -
  have "unat va div 4096 * 4096 div 2 ^ (12 + 9 * l) = unat va div 2 ^ (12 + 9 * l)"
  proof -
    have "(2 :: nat) ^ (12 + 9 * l) = 4096 * 2 ^ (9 * l)" by (simp add: power_add)
    then show ?thesis by (simp add: div_mult2_eq)
  qed
  then show ?thesis by (simp add: ix_div unat_PGROUNDDOWN)
qed

lemma MAXVA_PGROUNDDOWN: "MAXVA \<le> PGROUNDDOWN va \<longleftrightarrow> MAXVA \<le> va"
proof -
  have m: "unat MAXVA = 2 ^ 26 * 4096" by (simp add: MAXVA_def)
  have "2 ^ 26 * 4096 \<le> unat va div 4096 * 4096 \<longleftrightarrow> 2 ^ 26 \<le> unat va div 4096" by simp
  also have "\<dots> \<longleftrightarrow> 2 ^ 26 * 4096 \<le> unat va" by (rule less_eq_div_iff_mult_less_eq) simp
  finally show ?thesis by (simp only: word_le_nat_alt m unat_PGROUNDDOWN)
qed

lemma upage_PGROUNDDOWN: "upage m root (PGROUNDDOWN va) = upage m root va"
  unfolding upage_def pte_at_def MAXVA_PGROUNDDOWN ix_PGROUNDDOWN by (rule refl)

lemma upage_same_page: "PGROUNDDOWN va = PGROUNDDOWN wa \<Longrightarrow> upage m root va = upage m root wa"
  by (metis upage_PGROUNDDOWN)

section \<open>Offsets within a page\<close>

lemma in_page:
  assumes "i < unat (page_rest va)"
  shows "unat (va + of_nat i) = unat va + i" and "PGROUNDDOWN (va + of_nat i) = PGROUNDDOWN va"
proof -
  have b: "unat va mod 4096 + i < 4096" using assms by (simp add: unat_page_rest)
  have "unat va div 4096 * 4096 + 4096 \<le> 2 ^ 64"
    using unat_bound [of va] by (intro dvd_room) (auto intro: le_less_trans [OF div_times_less_eq_dividend])
  moreover have "unat va = unat va div 4096 * 4096 + unat va mod 4096" by simp
  ultimately have "unat va + i < 2 ^ 64" using b by linarith
  then show u: "unat (va + of_nat i) = unat va + i" by (intro unat_add_of_nat) simp
  have "(unat va + i) div 4096 = unat va div 4096"
  proof -
    have "unat va + i = unat va div 4096 * 4096 + (unat va mod 4096 + i)" by simp
    then have "(unat va + i) div 4096 = unat va div 4096 + (unat va mod 4096 + i) div 4096"
      by (metis div_mult_self3 zero_neq_numeral)
    with b show ?thesis by simp
  qed
  with u show "PGROUNDDOWN (va + of_nat i) = PGROUNDDOWN va"
    by (simp add: word_eq_iff_unat unat_PGROUNDDOWN)
qed

lemma next_page: "PGROUNDDOWN va + PGSIZE = va + page_rest va"
  by (simp add: page_rest_def)

lemma upa_in_page:
  assumes "i < unat (page_rest va)"
  shows "upa m root (va + of_nat i) = upage m root va + (va - PGROUNDDOWN va) + of_nat i"
  using upage_same_page [OF in_page(2) [OF assms]] in_page(2) [OF assms] by (simp add: upa_def)

section \<open>copyin\<close>

definition ubytes :: "(u64 \<Rightarrow> byte) \<Rightarrow> u64 \<Rightarrow> u64 \<Rightarrow> nat \<Rightarrow> byte list" where
  "ubytes m root va n = map (\<lambda>i. ubyte m root (va + of_nat i)) [0..<n]"

definition urange :: "(u64 \<Rightarrow> byte) \<Rightarrow> u64 \<Rightarrow> u64 \<Rightarrow> nat \<Rightarrow> bool" where
  "urange m root va n \<longleftrightarrow> (\<forall>i<n. upage m root (va + of_nat i) \<noteq> 0)"

lemma ubytes_page:
  assumes "n \<le> unat (page_rest va)"
  shows "ubytes m root va n = load_bytes m (upage m root va + (va - PGROUNDDOWN va)) n"
  using assms by (simp add: ubytes_def load_bytes_def ubyte_def upa_in_page)

lemma ubytes_add: "ubytes m root va (a + b) = ubytes m root va a @ ubytes m root (va + of_nat a) b"
proof -
  have "[0..<a + b] = [0..<a] @ map (\<lambda>i. a + i) [0..<b]"
    by (simp add: map_add_upt upt_add_eq_append [of 0 a b] add.commute)
  then show ?thesis by (simp add: ubytes_def comp_def add.assoc)
qed

lemma urange_page:
  assumes "0 < n" and "n \<le> unat (page_rest va)"
  shows "urange m root va n \<longleftrightarrow> upage m root va \<noteq> 0"
proof -
  have "upage m root (va + of_nat i) = upage m root va" if "i < n" for i
    using assms(2) that by (intro upage_same_page in_page) simp
  with assms(1) show ?thesis by (auto simp: urange_def)
qed

lemma urange_add: "urange m root va (a + b) \<longleftrightarrow> urange m root va a \<and> urange m root (va + of_nat a) b"
proof -
  have "(\<forall>i<a + b. P i) \<longleftrightarrow> (\<forall>i<a. P i) \<and> (\<forall>i<b. P (a + i))" for P :: "nat \<Rightarrow> bool"
    by (metis add_less_cancel_left le_Suc_ex not_less trans_less_add1)
  then show ?thesis by (simp add: urange_def add.assoc)
qed

lemma copyin_reads:
  assumes "pt_wf kend (pmem s) root"
  shows "\<exists>r bs. copyin root va len s = Ok (r, bs) s \<and>
    (if urange (pmem s) root va len then r = 0 \<and> bs = ubytes (pmem s) root va len else r = -1)"
proof (induction len arbitrary: va rule: less_induct)
  case (less len)
  show ?case
  proof (cases "len = 0")
    case True
    then show ?thesis by (simp add: copyin.simps urange_def ubytes_def)
  next
    case False
    let ?p = "upage (pmem s) root va" and ?n = "min (unat (page_rest va)) len"
    have n: "0 < ?n" "?n \<le> unat (page_rest va)" "len = ?n + (len - ?n)"
      using False page_rest_pos [of va] by auto
    have w: "walkaddr root (PGROUNDDOWN va) s = Ok ?p s"
      using walkaddr_eq [OF assms] by (simp add: upage_PGROUNDDOWN)
    show ?thesis
    proof (cases "?p = 0")
      case True
      then have "\<not> urange (pmem s) root va len"
        using urange_page [OF n(1,2)] urange_add [of _ _ _ ?n "len - ?n"] n(3) by metis
      with True False w show ?thesis by (subst copyin.simps) (simp add: Let_def)
    next
      case ne: False
      let ?va = "PGROUNDDOWN va + PGSIZE"
      obtain r bs where ih: "copyin root ?va (len - ?n) s = Ok (r, bs) s"
        "if urange (pmem s) root ?va (len - ?n) then r = 0 \<and> bs = ubytes (pmem s) root ?va (len - ?n) else r = -1"
        using less.IH [of "len - ?n" ?va] n(1) False by auto
      have eq: "copyin root va len s = Ok (r, ubytes (pmem s) root va ?n @ bs) s"
        using w ne False ih(1) by (subst copyin.simps) (simp add: Let_def ubytes_page)
      have va: "?n < len \<Longrightarrow> ?va = va + of_nat ?n"
        by (simp add: next_page min_def split: if_splits)
      show ?thesis
      proof (cases "?n < len")
        case True
        with va eq ih(2) n ne show ?thesis
          using urange_page [OF n(1,2)] urange_add [of "pmem s" root va ?n "len - ?n"]
            ubytes_add [of "pmem s" root va ?n "len - ?n"] by simp
      next
        case False
        then have "?n = len" by simp
        with eq ih(2) n ne urange_page [OF n(1,2)] show ?thesis
          by (simp add: urange_def ubytes_def)
      qed
    qed
  qed
qed

section \<open>copyout\<close>

text \<open>
  The user pages of an address space are not tables of it, and no two addresses of
  different pages share one.
\<close>

definition user_sep :: "u64 \<Rightarrow> (u64 \<Rightarrow> byte) \<Rightarrow> u64 \<Rightarrow> bool" where
  "user_sep kend m root \<longleftrightarrow> pt_wf kend m root \<and>
     (\<forall>va. upage m root va \<noteq> 0 \<longrightarrow> upage m root va \<notin> tables m root) \<and>
     (\<forall>va wa. upage m root va \<noteq> 0 \<longrightarrow> upage m root va = upage m root wa \<longrightarrow> PGROUNDDOWN va = PGROUNDDOWN wa)"

lemma PTE2PA_aligned: "page_aligned (PTE2PA v)"
  by (simp add: page_aligned_unat PTE2PA_def push_bit_eq_mult unat_word_ariths(2) dvd_mod)

lemma upage_aligned: "page_aligned (upage m root va)"
  by (simp add: upage_def Let_def PTE2PA_aligned) (simp add: page_aligned_def)

lemma aligned_offset:
  assumes "page_aligned p"
  shows "PGROUNDDOWN (p + (va - PGROUNDDOWN va)) = p"
    and "unat (page_rest (p + (va - PGROUNDDOWN va))) = unat (page_rest va)"
proof -
  have d: "4096 dvd unat p" using assms by (simp add: page_aligned_unat)
  then have "unat p + 4096 \<le> 2 ^ 64" using unat_bound [of p] by (intro dvd_room) auto
  moreover have off: "unat (va - PGROUNDDOWN va) = unat va mod 4096" by (rule unat_page_off)
  moreover have "unat va mod 4096 < 4096" by simp
  ultimately have u: "unat (p + (va - PGROUNDDOWN va)) = unat p + unat va mod 4096"
    by (subst unat_add_small) simp_all
  from d have "unat p div 4096 * 4096 = unat p" and "unat p mod 4096 = 0" by simp_all
  then have "(unat p + unat va mod 4096) div 4096 * 4096 = unat p"
    and "(unat p + unat va mod 4096) mod 4096 = unat va mod 4096"
    using d by (auto elim!: dvdE)
  with u show "PGROUNDDOWN (p + (va - PGROUNDDOWN va)) = p"
    and "unat (page_rest (p + (va - PGROUNDDOWN va))) = unat (page_rest va)"
    by (simp_all add: word_eq_iff_unat unat_PGROUNDDOWN unat_page_rest)
qed

lemma upa_page: "PGROUNDDOWN (upa m root va) = upage m root va"
  unfolding upa_def by (rule aligned_offset [OF upage_aligned])

lemma upa_inj:
  assumes "user_sep kend m root" and "upage m root va \<noteq> 0" and "upa m root va = upa m root wa"
  shows "va = wa"
proof -
  have "upage m root va = upage m root wa" using assms(3) upa_page by metis
  with assms(1,2) have "PGROUNDDOWN va = PGROUNDDOWN wa" unfolding user_sep_def by blast
  with \<open>upage m root va = upage m root wa\<close> assms(3) show ?thesis by (simp add: upa_def)
qed

lemma user_store:
  assumes "user_sep kend m root" and "upage m root va \<noteq> 0"
    and "\<And>x. PGROUNDDOWN x \<noteq> upage m root va \<Longrightarrow> m' x = m x"
  shows "user_sep kend m' root" and "upage m' root = upage m root"
proof -
  have wf: "pt_wf kend m root" and nt: "upage m root va \<notin> tables m root"
    using assms(1,2) by (auto simp: user_sep_def)
  have fr: "m' x = m x" if "PGROUNDDOWN x \<in> tables m root" for x
    using that nt by (intro assms(3)) auto
  have "pte_at m' root wa = pte_at m root wa" for wa by (rule pte_at_frame [OF wf fr])
  then show u: "upage m' root = upage m root" by (intro ext) (simp add: upage_def)
  have "pt_wf kend m' root" "tables m' root = tables m root" by (rule pt_wf_frame [OF wf fr]; assumption)+
  with assms(1) show "user_sep kend m' root" unfolding user_sep_def u by (elim conjE) (intro conjI; simp only:)
qed

lemma store_bytes_page:
  assumes "length bs \<le> unat (page_rest a)"
  shows "PGROUNDDOWN x \<noteq> PGROUNDDOWN a \<Longrightarrow> store_bytes m a bs x = m x"
    and "i < length bs \<Longrightarrow> store_bytes m a bs (a + of_nat i) = bs ! i"
    and "(\<And>i. i < length bs \<Longrightarrow> x \<noteq> a + of_nat i) \<Longrightarrow> store_bytes m a bs x = m x"
proof -
  have *: "x = a + of_nat (unat (x - a))" by simp
  { assume "PGROUNDDOWN x \<noteq> PGROUNDDOWN a"
    then have "\<not> unat (x - a) < length bs"
      using in_page(2) [of "unat (x - a)" a] assms * by (metis less_le_trans)
    then show "store_bytes m a bs x = m x" by (simp add: store_bytes_def) }
  { assume "i < length bs"
    moreover from this have "unat (of_nat i :: u64) = i"
      using assms by (intro unat_of_nat_small) (simp add: unat_page_rest)
    ultimately show "store_bytes m a bs (a + of_nat i) = bs ! i" by (simp add: store_bytes_def) }
  { assume "\<And>i. i < length bs \<Longrightarrow> x \<noteq> a + of_nat i"
    then have "\<not> unat (x - a) < length bs" using * by blast
    then show "store_bytes m a bs x = m x" by (simp add: store_bytes_def) }
qed

definition uwritten :: "(u64 \<Rightarrow> byte) \<Rightarrow> u64 \<Rightarrow> u64 \<Rightarrow> byte list \<Rightarrow> (u64 \<Rightarrow> byte) \<Rightarrow> bool" where
  "uwritten m root va bs m' \<longleftrightarrow> (\<forall>i<length bs. m' (upa m root (va + of_nat i)) = bs ! i)"

definition uonly :: "(u64 \<Rightarrow> byte) \<Rightarrow> u64 \<Rightarrow> u64 \<Rightarrow> nat \<Rightarrow> (u64 \<Rightarrow> byte) \<Rightarrow> bool" where
  "uonly m root va n m' \<longleftrightarrow>
     (\<forall>x. m' x \<noteq> m x \<longrightarrow> (\<exists>i<n. upage m root (va + of_nat i) \<noteq> 0 \<and> x = upa m root (va + of_nat i)))"

lemma store_user_page:
  assumes "user_sep kend m root" and "upage m root va \<noteq> 0" and "length bs \<le> unat (page_rest va)"
  defines "m' \<equiv> store_bytes m (upage m root va + (va - PGROUNDDOWN va)) bs"
  shows "user_sep kend m' root" and "upage m' root = upage m root"
    and "uwritten m root va bs m'" and "uonly m root va (length bs) m'"
proof -
  let ?a = "upage m root va + (va - PGROUNDDOWN va)"
  have len: "length bs \<le> unat (page_rest ?a)"
    using assms(3) by (simp add: aligned_offset [OF upage_aligned])
  have pg: "PGROUNDDOWN ?a = upage m root va" by (rule aligned_offset [OF upage_aligned])
  note st = store_bytes_page [OF len]
  show "user_sep kend m' root" "upage m' root = upage m root"
    using user_store [OF assms(1,2), of m'] st(1) pg unfolding m'_def by auto
  have upa: "upa m root (va + of_nat i) = ?a + of_nat i"
    and upg: "upage m root (va + of_nat i) = upage m root va" if "i < length bs" for i
    using that assms(3) by (simp_all add: upa_in_page upage_same_page [OF in_page(2)])
  show "uwritten m root va bs m'" using st(2) upa by (simp add: uwritten_def m'_def)
  show "uonly m root va (length bs) m'"
    unfolding uonly_def m'_def using st(3) upa upg assms(2) by metis
qed

lemma uonly_trans:
  assumes "uonly m root va a m1" and "uonly m1 root (va + of_nat a) b m2" and "upage m1 root = upage m root"
  shows "uonly m root va (a + b) m2"
  unfolding uonly_def
proof (intro allI impI)
  fix x assume x: "m2 x \<noteq> m x"
  have upa: "upa m1 root w = upa m root w" for w by (simp add: upa_def assms(3))
  show "\<exists>i<a + b. upage m root (va + of_nat i) \<noteq> 0 \<and> x = upa m root (va + of_nat i)"
  proof (cases "m1 x = m x")
    case True
    with x assms(2) obtain i where "i < b" "upage m root (va + of_nat a + of_nat i) \<noteq> 0"
      "x = upa m root (va + of_nat a + of_nat i)" unfolding uonly_def upa assms(3) by metis
    then show ?thesis by (intro exI [of _ "a + i"]) (simp add: add.assoc)
  next
    case False
    with assms(1) show ?thesis unfolding uonly_def by (meson trans_less_add1)
  qed
qed

lemma uwritten_append:
  assumes "user_sep kend m root" and "uwritten m root va bs m1" and "uwritten m1 root (va + of_nat (length bs)) cs m2"
    and "uonly m1 root (va + of_nat (length bs)) (length cs) m2" and "upage m1 root = upage m root"
    and "urange m root va (length bs)" and "length bs + length cs < 2 ^ 64"
  shows "uwritten m root va (bs @ cs) m2"
  unfolding uwritten_def
proof (intro allI impI)
  fix i assume i: "i < length (bs @ cs)"
  have upa: "upa m1 root w = upa m root w" for w by (simp add: upa_def assms(5))
  show "m2 (upa m root (va + of_nat i)) = (bs @ cs) ! i"
  proof (cases "i < length bs")
    case True
    let ?x = "upa m root (va + of_nat i)"
    have "m2 ?x = m1 ?x"
    proof (rule ccontr)
      assume "m2 ?x \<noteq> m1 ?x"
      then obtain j where j: "j < length cs" "?x = upa m root (va + of_nat (length bs) + of_nat j)"
        using assms(4) unfolding uonly_def upa by blast
      have "va + of_nat i = va + of_nat (length bs) + of_nat j"
        using upa_inj [OF assms(1) _ j(2)] assms(6) True by (simp add: urange_def)
      then have "(of_nat i :: u64) = of_nat (length bs + j)" by simp
      then have "i = length bs + j"
        using True j(1) assms(7) unat_of_nat_small [of i, where 'a = 64]
          unat_of_nat_small [of "length bs + j", where 'a = 64] by simp
      with True show False by simp
    qed
    with True assms(2) show ?thesis by (simp add: uwritten_def nth_append)
  next
    case False
    have "va + of_nat (length bs) + of_nat (i - length bs) = va + of_nat i"
      using False by (simp add: add.assoc flip: of_nat_add)
    moreover have "m2 (upa m root (va + of_nat (length bs) + of_nat (i - length bs))) = cs ! (i - length bs)"
      using False i assms(3) unfolding uwritten_def upa by (metis length_append less_diff_conv2 not_less add.commute)
    ultimately show ?thesis using False by (simp add: nth_append)
  qed
qed

lemma copyout_writes:
  assumes "user_sep kend (pmem s) root" and "length src < 2 ^ 64"
  shows "\<exists>r m. copyout root va src s = Ok r (s\<lparr>pmem := m\<rparr>) \<and> user_sep kend m root \<and>
    upage m root = upage (pmem s) root \<and> uonly (pmem s) root va (length src) m \<and>
    (if urange (pmem s) root va (length src) then r = 0 \<and> uwritten (pmem s) root va src m else r = -1)"
  using assms
proof (induction "length src" arbitrary: va src s rule: less_induct)
  case less
  show ?case
  proof (cases "src = []")
    case True
    then show ?thesis
      using less.prems by (intro exI [of _ 0] exI [of _ "pmem s"])
        (simp add: copyout.simps urange_def uwritten_def uonly_def)
  next
    case False
    let ?p = "upage (pmem s) root va" and ?n = "min (unat (page_rest va)) (length src)"
    have n: "0 < ?n" "?n \<le> unat (page_rest va)" "length src = ?n + (length src - ?n)"
      using False page_rest_pos [of va] by auto
    have "pt_wf kend (pmem s) root" using less.prems(1) by (simp add: user_sep_def)
    from walkaddr_eq [OF this] have w: "walkaddr root (PGROUNDDOWN va) s = Ok ?p s"
      by (simp add: upage_PGROUNDDOWN)
    have ur: "urange (pmem s) root va (length src) \<longleftrightarrow>
        ?p \<noteq> 0 \<and> urange (pmem s) root (va + of_nat ?n) (length src - ?n)"
      using urange_page [OF n(1,2)] urange_add [of _ _ va ?n "length src - ?n"] n(3) by metis
    show ?thesis
    proof (cases "?p = 0")
      case True
      then show ?thesis
        using False w ur less.prems(1)
        by (intro exI [of _ "-1"] exI [of _ "pmem s"]) (subst copyout.simps, simp add: Let_def uonly_def)
    next
      case ne: False
      let ?va = "PGROUNDDOWN va + PGSIZE" and ?cs = "drop ?n src"
      let ?m = "store_bytes (pmem s) (?p + (va - PGROUNDDOWN va)) (take ?n src)"
      have tk: "length (take ?n src) = ?n" by simp
      then have tl: "length (take ?n src) \<le> unat (page_rest va)" using n(2) by simp
      note st = store_user_page [OF less.prems(1) ne tl]
      let ?s = "s\<lparr>pmem := ?m\<rparr>"
      have "length ?cs < length src" "length ?cs < 2 ^ 64" "user_sep kend (pmem ?s) root"
        using n(1) False less.prems(2) st(1) by auto
      from less.hyps [OF this(1,3,2), of ?va] obtain r m where
        ih: "copyout root ?va ?cs ?s = Ok r (?s\<lparr>pmem := m\<rparr>)" "user_sep kend m root"
          "upage m root = upage (pmem ?s) root" "uonly (pmem ?s) root ?va (length ?cs) m"
          "if urange (pmem ?s) root ?va (length ?cs) then r = 0 \<and> uwritten (pmem ?s) root ?va ?cs m else r = -1"
        by blast
      have ps: "pmem ?s = ?m" by simp
      note ih = ih [unfolded ps]
      have eq: "copyout root va src s = Ok r (s\<lparr>pmem := m\<rparr>)"
        using w ne False ih(1) by (subst copyout.simps) (simp add: Let_def)
      have va: "?va = va + of_nat ?n" if "?cs \<noteq> []"
        using that by (simp add: next_page min_def split: if_splits)
      have un: "urange ?m root w k = urange (pmem s) root w k" for w k by (simp add: urange_def st(2))
      have o: "uonly (pmem s) root va (length src) m"
      proof (cases "?cs = []")
        case True
        then have "m = ?m" using ih(4) by (auto simp: uonly_def)
        with True st(4) tk n(3) show ?thesis by simp
      next
        case False
        with uonly_trans [OF st(4), of "length ?cs" m] ih(4) va st(2) n(3) tk show ?thesis by simp
      qed
      have res: "if urange (pmem s) root va (length src) then r = 0 \<and> uwritten (pmem s) root va src m else r = -1"
      proof (cases "?cs = []")
        case True
        then have "m = ?m" using ih(4) by (auto simp: uonly_def)
        with True st(3) ne ur ih(5) tk show ?thesis by (simp add: urange_def)
      next
        case False
        have rg: "urange (pmem s) root va (length (take ?n src))"
          using ne urange_page [OF n(1,2)] tk by simp
        have "uwritten (pmem s) root va (take ?n src @ ?cs) m" if "uwritten ?m root ?va ?cs m"
          using that less.prems ih(4) va [OF False] st(2) rg tk
          by (intro uwritten_append [OF less.prems(1) st(3)]) simp_all
        with ih(5) [unfolded un] ur ne show ?thesis
          unfolding append_take_drop_id va [OF False] length_drop by argo
      qed
      show ?thesis using eq ih(2,3) st(2) o res by auto
    qed
  qed
qed

section \<open>copyinstr\<close>

text \<open>The same string read one byte at a time.\<close>

fun uscan :: "(u64 \<Rightarrow> byte) \<Rightarrow> u64 \<Rightarrow> u64 \<Rightarrow> nat \<Rightarrow> int \<times> byte list" where
  "uscan m root va 0 = (-1, [])"
| "uscan m root va (Suc n) =
     (if upage m root va = 0 then (-1, [])
      else if ubyte m root va = 0 then (0, [0])
      else (case uscan m root (va + 1) n of (r, bs) \<Rightarrow> (r, ubyte m root va # bs)))"

lemma page_rest_Suc:
  assumes "1 < unat (page_rest va)"
  shows "unat (page_rest (va + 1)) = unat (page_rest va) - 1" and "upage m root (va + 1) = upage m root va"
    and "upa m root (va + 1) = upa m root va + 1"
proof -
  have i: "unat (va + 1) = unat va + 1" "PGROUNDDOWN (va + 1) = PGROUNDDOWN va"
    using in_page [OF assms] by simp_all
  have "unat va mod 4096 + 1 < 4096" using assms by (simp add: unat_page_rest)
  then have "(unat va + 1) mod 4096 = unat va mod 4096 + 1"
    by (metis mod_add_left_eq mod_less)
  then show "unat (page_rest (va + 1)) = unat (page_rest va) - 1" by (simp add: unat_page_rest i)
  show u: "upage m root (va + 1) = upage m root va" by (rule upage_same_page [OF i(2)])
  show "upa m root (va + 1) = upa m root va + 1" by (simp add: upa_def u i(2))
qed

lemma uscan_page:
  assumes "n \<le> unat (page_rest va)" and "upage m root va \<noteq> 0"
  shows "uscan m root va (n + k) =
    (case copystr_page m (upa m root va) n of
       (True, bs) \<Rightarrow> (0, bs)
     | (False, bs) \<Rightarrow> (case uscan m root (va + of_nat n) k of (r, cs) \<Rightarrow> (r, bs @ cs)))"
  using assms
proof (induction n arbitrary: va)
  case 0
  then show ?case by (cases "uscan m root va k") simp
next
  case (Suc n)
  show ?case
  proof (cases "n = 0")
    case True
    with Suc.prems show ?thesis by (auto simp: ubyte_def split: prod.splits)
  next
    case False
    with Suc.prems have "1 < unat (page_rest va)" by simp
    note nx = page_rest_Suc [OF this]
    have "n \<le> unat (page_rest (va + 1))" "upage m root (va + 1) \<noteq> 0" using Suc.prems nx by simp_all
    from Suc.IH [OF this] Suc.prems(2) show ?thesis
      by (auto simp: ubyte_def nx(3) add.assoc split: prod.splits bool.splits)
  qed
qed

lemma copyinstr_scans:
  assumes "pt_wf kend (pmem s) root"
  shows "copyinstr root va mx s = Ok (uscan (pmem s) root va mx) s"
proof (induction mx arbitrary: va rule: less_induct)
  case (less mx)
  show ?case
  proof (cases "mx = 0")
    case True
    then show ?thesis by (simp add: copyinstr.simps)
  next
    case False
    let ?p = "upage (pmem s) root va" and ?n = "min (unat (page_rest va)) mx"
    have n: "0 < ?n" "?n \<le> unat (page_rest va)" "?n + (mx - ?n) = mx"
      using False page_rest_pos [of va] by auto
    have w: "walkaddr root (PGROUNDDOWN va) s = Ok ?p s"
      using walkaddr_eq [OF assms] by (simp add: upage_PGROUNDDOWN)
    show ?thesis
    proof (cases "?p = 0")
      case True
      with False w show ?thesis
        by (subst copyinstr.simps) (cases mx, simp_all add: Let_def)
    next
      case ne: False
      let ?va = "PGROUNDDOWN va + PGSIZE"
      have ih: "copyinstr root ?va (mx - ?n) s = Ok (uscan (pmem s) root ?va (mx - ?n)) s"
        using n(1) False by (intro less.IH) simp
      have va: "uscan (pmem s) root ?va (mx - ?n) = uscan (pmem s) root (va + of_nat ?n) (mx - ?n)"
        by (cases "?n < mx") (simp_all add: next_page min_def split: if_splits)
      have "copyinstr root va mx s =
          (case copystr_page (pmem s) (upa (pmem s) root va) ?n of
             (True, bs) \<Rightarrow> Ok (0, bs) s
           | (False, bs) \<Rightarrow> bnd (copyinstr root ?va (mx - ?n) s) (\<lambda>(r, cs) s. Ok (r, bs @ cs) s))"
        using w ne False by (subst copyinstr.simps) (simp add: Let_def upa_def)
      also have "\<dots> = Ok (uscan (pmem s) root va (?n + (mx - ?n))) s"
        unfolding uscan_page [OF n(2) ne] ih va by (simp split: prod.splits bool.splits)
      finally show ?thesis using n(3) by simp
    qed
  qed
qed

section \<open>A concrete address space\<close>

text \<open>One user page, at virtual address 0 and physical address 0x80004000, for the concrete inputs.\<close>

definition demo1 :: "u64 \<Rightarrow> byte" where
  "demo1 = store64 (\<lambda>_. 0) (slot 0x80001000 0) (PA2PTE 0x80002000 OR PTE_V)"

definition demo2 :: "u64 \<Rightarrow> byte" where
  "demo2 = store64 demo1 (slot 0x80002000 0) (PA2PTE 0x80003000 OR PTE_V)"

definition demo_leaf :: u64 where
  "demo_leaf = PA2PTE 0x80004000 OR (PTE_R OR PTE_W OR PTE_U OR PTE_V)"

definition demo_mem :: "u64 \<Rightarrow> byte" where
  "demo_mem = store64 demo2 (slot 0x80003000 0) demo_leaf"

lemma demo_pages:
  "page_ok 0x80000000 0x80001000" "page_ok 0x80000000 0x80002000" "page_ok 0x80000000 0x80003000"
  by (simp_all add: page_ok_def page_aligned_def PGSIZE_def PHYSTOP_def KERNBASE_def)

lemma ix_zero [simp]: "ix l 0 = 0"
  by (simp add: ix_div)

lemma demo1:
  "pt_wf 0x80000000 demo1 0x80001000" "tables demo1 0x80001000 = {0x80002000, 0x80001000}"
  "pte_at demo1 0x80001000 va = 0" "node demo1 0x80001000 [0] = Some 0x80002000"
  "PGROUNDDOWN x = 0x80003000 \<Longrightarrow> demo1 x = 0" "PGROUNDDOWN x = 0x80002000 \<Longrightarrow> demo1 x = 0"
proof -
  have z: "pt_wf 0x80000000 (\<lambda>_. 0) 0x80001000" "tables (\<lambda>_. 0) 0x80001000 = {0x80001000}"
    "\<And>va. pte_at (\<lambda>_. 0) 0x80001000 va = 0"
    by (rule pt_wf_empty [OF demo_pages(1)], simp)+
  have c: "child (\<lambda>_. 0) 0x80001000 0 = None"
    by (rule child_zero_page [OF demo_pages(1)]) simp_all
  have f: "fresh_table (\<lambda>_. 0) (\<lambda>_. 0) 0x80002000" by (simp add: fresh_table_def)
  have n: "(0x80002000 :: u64) \<notin> tables (\<lambda>_. 0) 0x80001000" by (simp add: z)
  have k: "okpath ([] @ [0])" "node (\<lambda>_. 0) 0x80001000 [] = Some 0x80001000" by simp_all
  note a = wf_add_table [OF z(1) demo_pages(2) n f k c]
  show "pt_wf 0x80000000 demo1 0x80001000" "tables demo1 0x80001000 = {0x80002000, 0x80001000}"
    "pte_at demo1 0x80001000 va = 0" "node demo1 0x80001000 [0] = Some 0x80002000"
    using a(1,2,3,4) by (simp_all add: demo1_def z)
  have s: "slot 0x80001000 0 = (0x80001000 :: u64)" by (simp add: slot_def)
  have al: "aligned8 0x80001000" "PGROUNDDOWN 0x80001000 = 0x80001000"
    by (simp_all add: aligned8_def PGROUNDDOWN_def PGSIZE_def)
  show "PGROUNDDOWN x = 0x80003000 \<Longrightarrow> demo1 x = 0" "PGROUNDDOWN x = 0x80002000 \<Longrightarrow> demo1 x = 0"
    unfolding demo1_def s using al by (simp_all add: store64_other_page)
qed

lemma demo2:
  "pt_wf 0x80000000 demo2 0x80001000" "tables demo2 0x80001000 = {0x80003000, 0x80002000, 0x80001000}"
  "pte_at demo2 0x80001000 va = 0" "node demo2 0x80001000 [0, 0] = Some 0x80003000"
proof -
  have c: "child demo1 0x80002000 0 = None"
    by (rule child_zero_page [OF demo_pages(2)]) (simp_all add: demo1(6))
  have f: "fresh_table demo1 demo1 0x80003000" by (simp add: fresh_table_def demo1(5))
  have n: "(0x80003000 :: u64) \<notin> tables demo1 0x80001000" by (simp add: demo1)
  have k: "okpath ([0] @ [0])" by simp
  note a = wf_add_table [OF demo1(1) demo_pages(3) n f k demo1(4) c]
  show "pt_wf 0x80000000 demo2 0x80001000" "tables demo2 0x80001000 = {0x80003000, 0x80002000, 0x80001000}"
    "pte_at demo2 0x80001000 va = 0" "node demo2 0x80001000 [0, 0] = Some 0x80003000"
    using a(1,2,3,4) by (simp_all add: demo2_def demo1)
qed

lemma demo_upage:
  "upage demo_mem 0x80001000 va = (if va < MAXVA \<and> PGROUNDDOWN va = 0 then 0x80004000 else 0)"
proof -
  have n: "node demo2 0x80001000 [ix 2 0, ix 1 0] = Some 0x80003000" using demo2(4) by simp
  have "pte_at demo_mem 0x80001000 va = (if same_page 0 va then demo_leaf else 0)"
    using pte_at_store_leaf [OF demo2(1) n, of demo_leaf va] demo2(3) by (simp add: demo_mem_def)
  moreover have "demo_leaf AND PTE_V \<noteq> 0" "demo_leaf AND PTE_U \<noteq> 0" "PTE2PA demo_leaf = 0x80004000"
    by (simp_all add: demo_leaf_def PTE_R_def PTE_W_def PTE_U_def PTE_V_def PA2PTE_def PTE2PA_def)
  moreover have "same_page 0 va \<longleftrightarrow> PGROUNDDOWN va = 0" if "va < MAXVA"
    using same_page_iff [OF _ that, of 0] by (auto simp: MAXVA_def PGROUNDDOWN_def)
  ultimately show ?thesis by (auto simp: upage_def not_le)
qed

lemma demo_mapped:
  assumes "unat va + i < 4096"
  shows "upage demo_mem 0x80001000 (va + of_nat i) = 0x80004000"
proof -
  have u: "unat (va + of_nat i) = unat va + i" using assms by (intro unat_add_of_nat) simp
  have "PGROUNDDOWN (va + of_nat i) = 0" using assms u by (simp add: word_eq_iff_unat unat_PGROUNDDOWN)
  moreover have "unat MAXVA = 2 ^ 38" by (simp add: MAXVA_def)
  with assms u have "va + of_nat i < MAXVA" by (simp add: word_less_nat_alt)
  ultimately show ?thesis by (simp add: demo_upage)
qed

lemma demo_user_sep: "user_sep 0x80000000 demo_mem 0x80001000"
proof -
  have n: "node demo2 0x80001000 [0, 0] = Some 0x80003000" by (rule demo2(4))
  have wf: "pt_wf 0x80000000 demo_mem 0x80001000" "tables demo_mem 0x80001000 = tables demo2 0x80001000"
    unfolding demo_mem_def by (rule pt_wf_store_leaf [OF demo2(1) n]; simp)+
  show ?thesis
    using wf demo2(2) by (auto simp: user_sep_def demo_upage split: if_splits)
qed

section \<open>Properties\<close>

text \<open>C16: copyin from a well-formed page table changes nothing and succeeds exactly when every byte
  of the source range lies in a mapped user page; it then returns exactly those bytes, whatever
  page boundaries the range crosses. copyinstr equals a byte-at-a-time scan that stops at the
  first NUL, at the first unmapped address, or after max bytes.\<close>

theorem copyin_correct:
  assumes "pt_wf kend (pmem s) root"
  shows "(\<exists>r bs. copyin root srcva len s = Ok (r, bs) s \<and>
      (if \<forall>i<len. upage (pmem s) root (srcva + of_nat i) \<noteq> 0
       then r = 0 \<and> bs = map (\<lambda>i. ubyte (pmem s) root (srcva + of_nat i)) [0..<len] else r = -1)) \<and>
    copyinstr root srcva mx s = Ok (uscan (pmem s) root srcva mx) s"
  using copyin_reads [OF assms] copyinstr_scans [OF assms]
  unfolding urange_def ubytes_def by blast

theorem copyin_correct_witness:
  "\<exists>bs. copyin 0x80001000 10 5 (mach0\<lparr>pmem := demo_mem\<rparr>) = Ok (0, bs) (mach0\<lparr>pmem := demo_mem\<rparr>) \<and> length bs = 5"
proof -
  let ?s = "mach0\<lparr>pmem := demo_mem\<rparr>"
  have ps: "pmem ?s = demo_mem" by simp
  have wf: "pt_wf 0x80000000 (pmem ?s) 0x80001000" using demo_user_sep unfolding ps user_sep_def by blast
  have m: "upage demo_mem 0x80001000 (10 + of_nat i) \<noteq> 0" if "i < 5" for i
    using that by (subst demo_mapped) simp_all
  from copyin_correct [OF wf, of 10 5, unfolded ps] obtain r bs where
    c: "copyin 0x80001000 10 5 ?s = Ok (r, bs) ?s"
    and r: "if \<forall>i<5. upage demo_mem 0x80001000 (10 + of_nat i) \<noteq> 0
      then r = 0 \<and> bs = map (\<lambda>i. ubyte demo_mem 0x80001000 (10 + of_nat i)) [0..<5] else r = -1" by blast
  have "r = 0 \<and> bs = map (\<lambda>i. ubyte demo_mem 0x80001000 (10 + of_nat i)) [0..<5]"
    using r m by (subst (asm) if_P) blast+
  with c show ?thesis by (intro exI [of _ bs]) simp
qed

text \<open>C10: copyout to an address space whose user pages are separate succeeds exactly when the whole
  destination is mapped, changes no byte of memory but those behind the destination range, and a
  copyin of the same range afterwards returns exactly the bytes copied out.\<close>

theorem copyout_copyin:
  assumes "user_sep kend (pmem s) root" and "length src < 2 ^ 64"
  shows "\<exists>r t. copyout root va src s = Ok r t \<and>
    (r = 0 \<longleftrightarrow> (\<forall>i<length src. upage (pmem s) root (va + of_nat i) \<noteq> 0)) \<and> (r = 0 \<or> r = -1) \<and>
    (\<forall>x. pmem t x \<noteq> pmem s x \<longrightarrow>
       (\<exists>i<length src. upage (pmem s) root (va + of_nat i) \<noteq> 0 \<and> x = upa (pmem s) root (va + of_nat i))) \<and>
    (r = 0 \<longrightarrow> copyin root va (length src) t = Ok (0, src) t)"
proof -
  from copyout_writes [OF assms] obtain r m where
    c: "copyout root va src s = Ok r (s\<lparr>pmem := m\<rparr>)" "user_sep kend m root"
      "upage m root = upage (pmem s) root" "uonly (pmem s) root va (length src) m"
      "if urange (pmem s) root va (length src) then r = 0 \<and> uwritten (pmem s) root va src m else r = -1"
    by blast
  have wf: "pt_wf kend (pmem (s\<lparr>pmem := m\<rparr>)) root" using c(2) by (simp add: user_sep_def)
  have "copyin root va (length src) (s\<lparr>pmem := m\<rparr>) = Ok (0, src) (s\<lparr>pmem := m\<rparr>)" if "r = 0"
  proof -
    have rg: "urange (pmem s) root va (length src)" "uwritten (pmem s) root va src m"
      using c(5) that by (auto split: if_splits)
    have "ubytes m root va (length src) = src"
      using rg(2) by (intro nth_equalityI) (simp_all add: ubytes_def uwritten_def ubyte_def upa_def c(3))
    moreover have "urange m root va (length src)" using rg(1) by (simp add: urange_def c(3))
    ultimately show ?thesis using copyin_reads [OF wf, of va "length src"] by auto
  qed
  then show ?thesis
    using c(1,4,5) unfolding uonly_def urange_def by (intro exI [of _ r] exI) (auto split: if_splits)
qed

theorem copyout_copyin_witness:
  "\<exists>t. copyout 0x80001000 4094 [1, 2] (mach0\<lparr>pmem := demo_mem\<rparr>) = Ok 0 t \<and>
     copyin 0x80001000 4094 (length [1 :: byte, 2]) t = Ok (0, [1, 2]) t"
proof -
  let ?s = "mach0\<lparr>pmem := demo_mem\<rparr>" and ?b = "[1, 2] :: byte list"
  have ps: "pmem ?s = demo_mem" by simp
  have sep: "user_sep 0x80000000 (pmem ?s) 0x80001000" unfolding ps by (rule demo_user_sep)
  have m: "\<forall>i<length ?b. upage demo_mem 0x80001000 (4094 + of_nat i) \<noteq> 0"
    by (intro allI impI, subst demo_mapped) simp_all
  have "length ?b < 2 ^ 64" by simp
  from copyout_copyin [OF sep this, of 4094, unfolded ps] m show ?thesis by blast
qed

end
