(* ===== verification/Proc.thy ===== *)
theory Proc
  imports Vm
begin

text \<open>
  proc.c: the process table, sleep and wakeup, wait, kill and the scheduler. The calls
  into the file system (userinit, fork, exit) are in theory Process. \<open>trampoline\<close> and
  \<open>forkret_addr\<close> are addresses the linker provides. The context switch itself is
  assembly: sched ends in the outcome \<open>Sched\<close>, and the code that runs when the process
  is scheduled again is the function's \<open>_resume\<close> part.
\<close>

section \<open>The process table\<close>

definition set_proc :: "nat \<Rightarrow> (proc \<Rightarrow> proc) \<Rightarrow> 'z mach_scheme \<Rightarrow> 'z mach_scheme" where
  "set_proc p f s = s\<lparr>procs := (procs s)(p := f (procs s p))\<rparr>"

fun procinit_loop :: "nat \<Rightarrow> nat \<Rightarrow> 'z mach_scheme \<Rightarrow> ('z mach_scheme, unit) res" where
  "procinit_loop p 0 s = Ok () s"
| "procinit_loop p (Suc n) s =
     (let s = initlock (ProcLock p) ''proc'' s
      in bnd (kalloc s) (\<lambda>pa s.
           if pa = 0 then Panic ''kalloc''
           else
             (let va = KSTACK p
              in bnd (kvmmap va pa PGSIZE (PTE_R OR PTE_W) s) (\<lambda>_ s.
                   procinit_loop (Suc p) n (set_proc p (\<lambda>q. q\<lparr>p_kstack := va\<rparr>) s)))))"

definition procinit :: "'z mach_scheme \<Rightarrow> ('z mach_scheme, unit) res" where
  "procinit s =
     (let s = initlock PidLock ''nextpid'' s
      in bnd (procinit_loop 0 NPROC s) (\<lambda>_ s. Ok () (kvminithart s)))"

definition allocpid :: "'z mach_scheme \<Rightarrow> ('z mach_scheme, int) res" where
  "allocpid s =
     bnd (acquire PidLock s) (\<lambda>_ s.
       let pid = nextpid s;
           s = s\<lparr>nextpid := nextpid s + 1\<rparr>
       in bnd (release PidLock s) (\<lambda>_ s. Ok pid s))"

definition proc_pagetable :: "u64 \<Rightarrow> u64 \<Rightarrow> nat \<Rightarrow> 'z mach_scheme \<Rightarrow> ('z mach_scheme, u64) res" where
  "proc_pagetable kend trampoline p s =
     bnd (uvmcreate s) (\<lambda>pagetable s.
       if pagetable = 0 then Ok 0 s
       else
         bnd (mappages pagetable TRAMPOLINE PGSIZE trampoline (PTE_R OR PTE_X) s) (\<lambda>r s.
           if r < 0 then bnd (uvmfree kend pagetable 0 s) (\<lambda>_ s. Ok 0 s)
           else
             bnd (mappages pagetable TRAPFRAME PGSIZE (p_trapframe (procs s p)) (PTE_R OR PTE_W) s) (\<lambda>r s.
               if r < 0 then
                 bnd (uvmunmap kend pagetable TRAMPOLINE 1 False s) (\<lambda>_ s.
                 bnd (uvmfree kend pagetable 0 s) (\<lambda>_ s. Ok 0 s))
               else Ok pagetable s)))"

definition proc_freepagetable :: "u64 \<Rightarrow> u64 \<Rightarrow> u64 \<Rightarrow> 'z mach_scheme \<Rightarrow> ('z mach_scheme, unit) res" where
  "proc_freepagetable kend pagetable sz s =
     bnd (uvmunmap kend pagetable TRAMPOLINE 1 False s) (\<lambda>_ s.
     bnd (uvmunmap kend pagetable TRAPFRAME 1 False s) (\<lambda>_ s.
     uvmfree kend pagetable sz s))"

definition freeproc :: "u64 \<Rightarrow> nat \<Rightarrow> 'z mach_scheme \<Rightarrow> ('z mach_scheme, unit) res" where
  "freeproc kend p s =
     bnd (if p_trapframe (procs s p) \<noteq> 0 then kfree kend (p_trapframe (procs s p)) s else Ok () s) (\<lambda>_ s.
     let s = set_proc p (\<lambda>q. q\<lparr>p_trapframe := 0\<rparr>) s in
     bnd (if p_pagetable (procs s p) \<noteq> 0
          then proc_freepagetable kend (p_pagetable (procs s p)) (p_sz (procs s p)) s else Ok () s) (\<lambda>_ s.
     Ok () (set_proc p (\<lambda>q. q\<lparr>p_pagetable := 0, p_sz := 0, p_pid := 0, p_parent := None,
              p_name := (p_name q)[0 := 0], p_chan := None, p_killed := False, p_xstate := 0,
              p_state := UNUSED\<rparr>) s)))"

text \<open>
  The search for an UNUSED slot leaves the lock of the slot it finds held. \<open>n\<close> counts the
  slots from p to the end of the table.
\<close>

fun allocproc_loop :: "nat \<Rightarrow> nat \<Rightarrow> 'z mach_scheme \<Rightarrow> ('z mach_scheme, nat option) res" where
  "allocproc_loop p 0 s = Ok None s"
| "allocproc_loop p (Suc n) s =
     bnd (acquire (ProcLock p) s) (\<lambda>_ s.
       if p_state (procs s p) = UNUSED then Ok (Some p) s
       else bnd (release (ProcLock p) s) (\<lambda>_ s. allocproc_loop (Suc p) n s))"

definition allocproc_found ::
    "u64 \<Rightarrow> u64 \<Rightarrow> u64 \<Rightarrow> nat \<Rightarrow> 'z mach_scheme \<Rightarrow> ('z mach_scheme, nat option) res" where
  "allocproc_found kend trampoline forkret_addr p s =
     bnd (allocpid s) (\<lambda>pid s.
     bnd (kalloc (set_proc p (\<lambda>q. q\<lparr>p_pid := pid\<rparr>) s)) (\<lambda>tf s.
     let s = set_proc p (\<lambda>q. q\<lparr>p_trapframe := tf\<rparr>) s in
     if tf = 0 then bnd (release (ProcLock p) s) (\<lambda>_ s. Ok None s)
     else
       bnd (proc_pagetable kend trampoline p s) (\<lambda>pt s.
       let s = set_proc p (\<lambda>q. q\<lparr>p_pagetable := pt\<rparr>) s in
       if pt = 0 then
         bnd (freeproc kend p s) (\<lambda>_ s.
         bnd (release (ProcLock p) s) (\<lambda>_ s. Ok None s))
       else
         Ok (Some p) (set_proc p (\<lambda>q. q\<lparr>p_context :=
           \<lparr>ctx_ra = forkret_addr, ctx_sp = p_kstack q + PGSIZE, ctx_saved = replicate 12 0\<rparr>\<rparr>) s))))"

definition allocproc ::
    "u64 \<Rightarrow> u64 \<Rightarrow> u64 \<Rightarrow> 'z mach_scheme \<Rightarrow> ('z mach_scheme, nat option) res" where
  "allocproc kend trampoline forkret_addr s =
     bnd (allocproc_loop 0 NPROC s) (\<lambda>r s. case r of
       None \<Rightarrow> Ok None s
     | Some p \<Rightarrow> allocproc_found kend trampoline forkret_addr p s)"

definition growproc :: "u64 \<Rightarrow> int \<Rightarrow> 'z mach_scheme \<Rightarrow> ('z mach_scheme, int) res" where
  "growproc kend n s =
     bnd (myproc s) (\<lambda>cur s. case cur of
       None \<Rightarrow> Panic ''kerneltrap''
     | Some p \<Rightarrow>
         (let q = procs s p; sz = (ucast (p_sz q) :: u32)
          in if 0 < n then
               bnd (uvmalloc kend (p_pagetable q) (ucast sz) (ucast (sz + of_int n)) s) (\<lambda>r s.
                 let sz = (ucast r :: u32)
                 in if sz = 0 then Ok (-1) s
                    else Ok 0 (set_proc p (\<lambda>q. q\<lparr>p_sz := ucast sz\<rparr>) s))
             else if n < 0 then
               bnd (uvmdealloc kend (p_pagetable q) (ucast sz) (ucast (sz + of_int n)) s) (\<lambda>r s.
                 Ok 0 (set_proc p (\<lambda>q. q\<lparr>p_sz := ucast (ucast r :: u32)\<rparr>) s))
             else Ok 0 (set_proc p (\<lambda>q. q\<lparr>p_sz := ucast sz\<rparr>) s)))"

section \<open>Sleeping and waking\<close>

definition sched :: "'z mach_scheme \<Rightarrow> ('z mach_scheme, unit) res" where
  "sched s =
     bnd (myproc s) (\<lambda>cur s. case cur of
       None \<Rightarrow> Panic ''kerneltrap''
     | Some p \<Rightarrow>
         if \<not> holding (ProcLock p) s then Panic ''sched p->lock''
         else if noff (mycpu s) \<noteq> 1 then Panic ''sched locks''
         else if p_state (procs s p) = RUNNING then Panic ''sched running''
         else if intr_get s then Panic ''sched interruptible''
         else Sched s)"

definition sched_resume :: "bool \<Rightarrow> 'z mach_scheme \<Rightarrow> 'z mach_scheme" where
  "sched_resume saved s = set_mycpu ((mycpu s)\<lparr>intena := saved\<rparr>) s"

definition yield :: "'z mach_scheme \<Rightarrow> ('z mach_scheme, unit) res" where
  "yield s =
     bnd (myproc s) (\<lambda>cur s. case cur of
       None \<Rightarrow> Panic ''kerneltrap''
     | Some p \<Rightarrow>
         bnd (acquire (ProcLock p) s) (\<lambda>_ s.
         sched (set_proc p (\<lambda>q. q\<lparr>p_state := RUNNABLE\<rparr>) s)))"

definition yield_resume :: "nat \<Rightarrow> bool \<Rightarrow> 'z mach_scheme \<Rightarrow> ('z mach_scheme, unit) res" where
  "yield_resume p saved s = release (ProcLock p) (sched_resume saved s)"

definition sleep :: "chan \<Rightarrow> lockid \<Rightarrow> 'z mach_scheme \<Rightarrow> ('z mach_scheme, unit) res" where
  "sleep ch lk s =
     bnd (myproc s) (\<lambda>cur s. case cur of
       None \<Rightarrow> Panic ''kerneltrap''
     | Some p \<Rightarrow>
         bnd (if lk \<noteq> ProcLock p
              then bnd (acquire (ProcLock p) s) (\<lambda>_ s. release lk s) else Ok () s) (\<lambda>_ s.
         sched (set_proc p (\<lambda>q. q\<lparr>p_chan := Some ch, p_state := SLEEPING\<rparr>) s)))"

definition sleep_resume ::
    "nat \<Rightarrow> lockid \<Rightarrow> bool \<Rightarrow> 'z mach_scheme \<Rightarrow> ('z mach_scheme, unit) res" where
  "sleep_resume p lk saved s =
     (let s = set_proc p (\<lambda>q. q\<lparr>p_chan := None\<rparr>) (sched_resume saved s)
      in if lk \<noteq> ProcLock p
         then bnd (release (ProcLock p) s) (\<lambda>_ s. acquire lk s) else Ok () s)"

fun wakeup_loop :: "chan \<Rightarrow> nat \<Rightarrow> nat \<Rightarrow> 'z mach_scheme \<Rightarrow> ('z mach_scheme, unit) res" where
  "wakeup_loop ch p 0 s = Ok () s"
| "wakeup_loop ch p (Suc n) s =
     bnd (acquire (ProcLock p) s) (\<lambda>_ s.
       let s = (if p_state (procs s p) = SLEEPING \<and> p_chan (procs s p) = Some ch
                then set_proc p (\<lambda>q. q\<lparr>p_state := RUNNABLE\<rparr>) s else s)
       in bnd (release (ProcLock p) s) (\<lambda>_ s. wakeup_loop ch (Suc p) n s))"

definition wakeup :: "chan \<Rightarrow> 'z mach_scheme \<Rightarrow> ('z mach_scheme, unit) res" where
  "wakeup ch s = wakeup_loop ch 0 NPROC s"

definition wakeup1 :: "nat \<Rightarrow> 'z mach_scheme \<Rightarrow> ('z mach_scheme, unit) res" where
  "wakeup1 p s =
     (if \<not> holding (ProcLock p) s then Panic ''wakeup1''
      else if p_chan (procs s p) = Some (ProcChan p) \<and> p_state (procs s p) = SLEEPING
      then Ok () (set_proc p (\<lambda>q. q\<lparr>p_state := RUNNABLE\<rparr>) s)
      else Ok () s)"

fun kill_loop :: "int \<Rightarrow> nat \<Rightarrow> nat \<Rightarrow> 'z mach_scheme \<Rightarrow> ('z mach_scheme, int) res" where
  "kill_loop pid p 0 s = Ok (-1) s"
| "kill_loop pid p (Suc n) s =
     bnd (acquire (ProcLock p) s) (\<lambda>_ s.
       if p_pid (procs s p) = pid then
         (let s = set_proc p (\<lambda>q. q\<lparr>p_killed := True\<rparr>) s;
              s = (if p_state (procs s p) = SLEEPING
                   then set_proc p (\<lambda>q. q\<lparr>p_state := RUNNABLE\<rparr>) s else s)
          in bnd (release (ProcLock p) s) (\<lambda>_ s. Ok 0 s))
       else bnd (release (ProcLock p) s) (\<lambda>_ s. kill_loop pid (Suc p) n s))"

definition kill :: "int \<Rightarrow> 'z mach_scheme \<Rightarrow> ('z mach_scheme, int) res" where
  "kill pid s = kill_loop pid 0 NPROC s"

section \<open>Parents and children\<close>

fun reparent_loop :: "nat \<Rightarrow> nat \<Rightarrow> nat \<Rightarrow> 'z mach_scheme \<Rightarrow> ('z mach_scheme, unit) res" where
  "reparent_loop p pp 0 s = Ok () s"
| "reparent_loop p pp (Suc n) s =
     (if p_parent (procs s pp) = Some p then
        bnd (acquire (ProcLock pp) s) (\<lambda>_ s.
          let s = set_proc pp (\<lambda>q. q\<lparr>p_parent := initproc s\<rparr>) s
          in bnd (release (ProcLock pp) s) (\<lambda>_ s. reparent_loop p (Suc pp) n s))
      else reparent_loop p (Suc pp) n s)"

definition reparent :: "nat \<Rightarrow> 'z mach_scheme \<Rightarrow> ('z mach_scheme, unit) res" where
  "reparent p s = reparent_loop p 0 NPROC s"

text \<open>
  The scan of wait gives \<open>Inr\<close> with the value wait returns when it has found a zombie
  child, and \<open>Inl havekids\<close> when it has not.
\<close>

fun wait_scan ::
    "u64 \<Rightarrow> nat \<Rightarrow> u64 \<Rightarrow> nat \<Rightarrow> nat \<Rightarrow> bool \<Rightarrow> 'z mach_scheme \<Rightarrow> ('z mach_scheme, bool + int) res" where
  "wait_scan kend p addr np 0 havekids s = Ok (Inl havekids) s"
| "wait_scan kend p addr np (Suc n) havekids s =
     (if p_parent (procs s np) = Some p then
        bnd (acquire (ProcLock np) s) (\<lambda>_ s.
          if p_state (procs s np) = ZOMBIE then
            (let pid = p_pid (procs s np)
             in bnd (if addr \<noteq> 0
                     then copyout (p_pagetable (procs s p)) addr
                            (le_bytes 4 (of_int (p_xstate (procs s np)) :: u32)) s
                     else Ok 0 s) (\<lambda>r s.
                  if r < 0 then
                    bnd (release (ProcLock np) s) (\<lambda>_ s.
                    bnd (release (ProcLock p) s) (\<lambda>_ s. Ok (Inr (-1)) s))
                  else
                    bnd (freeproc kend np s) (\<lambda>_ s.
                    bnd (release (ProcLock np) s) (\<lambda>_ s.
                    bnd (release (ProcLock p) s) (\<lambda>_ s. Ok (Inr pid) s)))))
          else bnd (release (ProcLock np) s) (\<lambda>_ s. wait_scan kend p addr (Suc np) n True s))
      else wait_scan kend p addr (Suc np) n havekids s)"

definition wait_loop :: "u64 \<Rightarrow> nat \<Rightarrow> u64 \<Rightarrow> 'z mach_scheme \<Rightarrow> ('z mach_scheme, int) res" where
  "wait_loop kend p addr s =
     bnd (wait_scan kend p addr 0 NPROC False s) (\<lambda>r s. case r of
       Inr v \<Rightarrow> Ok v s
     | Inl havekids \<Rightarrow>
         if \<not> havekids \<or> p_killed (procs s p)
         then bnd (release (ProcLock p) s) (\<lambda>_ s. Ok (-1) s)
         else bnd (sleep (ProcChan p) (ProcLock p) s) (\<lambda>_ s. Ok 0 s))"

definition wait :: "u64 \<Rightarrow> u64 \<Rightarrow> 'z mach_scheme \<Rightarrow> ('z mach_scheme, int) res" where
  "wait kend addr s =
     bnd (myproc s) (\<lambda>cur s. case cur of
       None \<Rightarrow> Panic ''kerneltrap''
     | Some p \<Rightarrow> bnd (acquire (ProcLock p) s) (\<lambda>_ s. wait_loop kend p addr s))"

definition wait_resume ::
    "u64 \<Rightarrow> nat \<Rightarrow> u64 \<Rightarrow> bool \<Rightarrow> 'z mach_scheme \<Rightarrow> ('z mach_scheme, int) res" where
  "wait_resume kend p addr saved s =
     bnd (sleep_resume p (ProcLock p) saved s) (\<lambda>_ s. wait_loop kend p addr s)"

section \<open>The scheduler\<close>

text \<open>
  One pass over the process table. \<open>Inr p\<close>: the scheduler switches to p, whose lock it
  holds; when p switches back, \<open>sched_return\<close> runs and the pass goes on at the next slot.
  \<open>Inl ()\<close>: the pass has ended.
\<close>

fun scheduler_loop :: "nat \<Rightarrow> nat \<Rightarrow> 'z mach_scheme \<Rightarrow> ('z mach_scheme, unit + nat) res" where
  "scheduler_loop p 0 s = Ok (Inl ()) s"
| "scheduler_loop p (Suc n) s =
     bnd (acquire (ProcLock p) s) (\<lambda>_ s.
       if p_state (procs s p) = RUNNABLE then
         (let s = set_proc p (\<lambda>q. q\<lparr>p_state := RUNNING\<rparr>) s
          in Ok (Inr p) (set_mycpu ((mycpu s)\<lparr>cpu_proc := Some p\<rparr>) s))
       else bnd (release (ProcLock p) s) (\<lambda>_ s. scheduler_loop (Suc p) n s))"

definition scheduler :: "'z mach_scheme \<Rightarrow> ('z mach_scheme, unit + nat) res" where
  "scheduler s =
     (let s = set_mycpu ((mycpu s)\<lparr>cpu_proc := None\<rparr>) s
      in scheduler_loop 0 NPROC (intr_on s))"

definition sched_return :: "nat \<Rightarrow> 'z mach_scheme \<Rightarrow> ('z mach_scheme, unit) res" where
  "sched_return p s =
     (let s = set_mycpu ((mycpu s)\<lparr>cpu_proc := None\<rparr>) s
      in release (ProcLock p) s)"

section \<open>Copying to and from either space\<close>

definition either_copyout ::
    "bool \<Rightarrow> u64 \<Rightarrow> byte list \<Rightarrow> 'z mach_scheme \<Rightarrow> ('z mach_scheme, int) res" where
  "either_copyout user_dst dst src s =
     bnd (myproc s) (\<lambda>cur s.
       if user_dst then
         (case cur of
            None \<Rightarrow> Panic ''kerneltrap''
          | Some p \<Rightarrow> copyout (p_pagetable (procs s p)) dst src s)
       else Ok 0 (s\<lparr>pmem := store_bytes (pmem s) dst src\<rparr>))"

definition either_copyin ::
    "bool \<Rightarrow> u64 \<Rightarrow> nat \<Rightarrow> 'z mach_scheme \<Rightarrow> ('z mach_scheme, int \<times> byte list) res" where
  "either_copyin user_src src len s =
     bnd (myproc s) (\<lambda>cur s.
       if user_src then
         (case cur of
            None \<Rightarrow> Panic ''kerneltrap''
          | Some p \<Rightarrow> copyin (p_pagetable (procs s p)) src len s)
       else Ok (0, load_bytes (pmem s) src len) s)"

end
