(* ===== verification/Vm_Frame.thy ===== *)
theory Vm_Frame
  imports Proc
begin

text \<open>
  What the allocator and the page-table code leave alone: a call that returns changes
  only memory, the free list, the lock table and this hart's interrupt bookkeeping. The
  rest of the state is its \<open>core\<close>.
\<close>

definition core :: "'z mach_scheme \<Rightarrow>
    (nat \<times> (nat \<Rightarrow> proc) \<times> int \<times> nat option) \<times> u64 \<times> u32 \<times> csrs \<times> 'z \<times> (nat \<Rightarrow> nat option)" where
  "core s = ((tp s, procs s, nextpid s, initproc s), kernel_pagetable s, ticks s, csr s, mach.more s,
     (\<lambda>h. cpu_proc (cpus s h)))"

definition kept where
  "kept c r \<longleftrightarrow> (\<forall>a t. r = Ok a t \<longrightarrow> core t = c)"

lemma core_eq: "core t = core s \<longleftrightarrow> tp t = tp s \<and> procs t = procs s \<and> nextpid t = nextpid s \<and>
    initproc t = initproc s \<and> kernel_pagetable t = kernel_pagetable s \<and> ticks t = ticks s \<and>
    csr t = csr s \<and> mach.more t = mach.more s \<and> (\<forall>h. cpu_proc (cpus t h) = cpu_proc (cpus s h))"
  by (auto simp: core_def fun_eq_iff)

lemma core_update [simp]:
  "core (t\<lparr>pmem := m\<rparr>) = core t" "core (t\<lparr>freelist := x\<rparr>) = core t" "core (t\<lparr>sie := b\<rparr>) = core t"
  "core (t\<lparr>locks := l\<rparr>) = core t"
  by (simp_all add: core_def)

lemma core_cpu [simp]:
  "core (set_mycpu ((mycpu s)\<lparr>noff := n\<rparr>) s) = core s" "core (set_mycpu ((mycpu s)\<lparr>intena := b\<rparr>) s) = core s"
  by (auto simp: core_def cpu_defs)

lemma core_push_off [simp]: "core (push_off s) = core s"
  by (simp add: push_off_def Let_def intr_off_def)

lemma core_note_intena [simp]: "core (note_intena s) = core s"
  by (simp add: note_intena_def)

lemma kept_Ok [simp]: "kept c (Ok a t) \<longleftrightarrow> core t = c"
  by (simp add: kept_def)

lemma kept_other [simp]: "kept c (Panic m)" "kept c (Sched t)" "kept c (Spin l t)" "kept c Fuel"
  by (simp_all add: kept_def)

lemma kept_bnd:
  assumes "kept c r" and "\<And>a t. core t = c \<Longrightarrow> kept c (k a t)"
  shows "kept c (bnd r k)"
  using assms by (cases r) (auto simp: kept_def)

lemma kept_if: "(b \<Longrightarrow> kept c r) \<Longrightarrow> (\<not> b \<Longrightarrow> kept c r') \<Longrightarrow> kept c (if b then r else r')"
  by simp

lemma keptD: "kept c r \<Longrightarrow> r = Ok a t \<Longrightarrow> core t = c"
  by (simp add: kept_def)

named_theorems kept_intros \<open>the calls that keep the core\<close>

lemmas [kept_intros] = kept_bnd kept_if

lemma kept_pop_off [kept_intros]: "core s = c \<Longrightarrow> kept c (pop_off s)"
  by (auto simp: pop_off_def Let_def intr_on_def)

lemma kept_acquire [kept_intros]: "core s = c \<Longrightarrow> kept c (acquire lk s)"
  by (simp add: acquire_def Let_def)

lemma kept_release [kept_intros]: "core s = c \<Longrightarrow> kept c (release lk s)"
  unfolding release_def by (intro kept_intros) simp_all

lemma kept_kalloc [kept_intros]: "core s = c \<Longrightarrow> kept c (kalloc s)"
  unfolding kalloc_def Let_def by (intro kept_intros) simp_all

lemma kept_kfree [kept_intros]: "core s = c \<Longrightarrow> kept c (kfree kend pa s)"
  unfolding kfree_def Let_def by (intro kept_intros) simp_all

lemma kept_walk_loop [kept_intros]: "core s = c \<Longrightarrow> kept c (walk_loop level pt va alloc s)"
proof (induction level arbitrary: pt s)
  case (Suc level)
  show ?case unfolding walk_loop.simps Let_def by (intro kept_intros Suc) (simp_all add: Suc.prems)
qed simp

lemma kept_walk [kept_intros]: "core s = c \<Longrightarrow> kept c (walk pt va alloc s)"
  unfolding walk_def by (intro kept_intros) simp_all

lemma kept_walkaddr [kept_intros]: "core s = c \<Longrightarrow> kept c (walkaddr pt va s)"
  unfolding walkaddr_def Let_def by (intro kept_intros) simp_all

lemma kept_mappages_loop [kept_intros]: "core s = c \<Longrightarrow> kept c (mappages_loop pt a l pa perm s)"
proof (induction pt a l pa perm s rule: mappages_loop.induct)
  case (1 pt a l pa perm s)
  note IH = "1.IH"
  have "kept c (bnd (walk pt a True s) (\<lambda>pte s.
       if pte = 0 then Ok (-1) s
       else if load64 (pmem s) pte AND PTE_V \<noteq> 0 then Panic ''remap''
       else
         (let s = s\<lparr>pmem := store64 (pmem s) pte (PA2PTE pa OR perm OR PTE_V)\<rparr>
          in if a = l then Ok 0 s
             else mappages_loop pt (a + PGSIZE) l (pa + PGSIZE) perm s)))"
  proof (cases "walk pt a True s")
    case (Ok pte t)
    have "core t = c" using keptD [OF kept_walk [OF "1.prems"] Ok] .
    with Ok IH [OF Ok] show ?thesis by (simp add: Let_def)
  qed simp_all
  then show ?case by (subst mappages_loop.simps)
qed

lemma kept_mappages [kept_intros]: "core s = c \<Longrightarrow> kept c (mappages pt va sz pa perm s)"
  unfolding mappages_def by (intro kept_intros)

lemma kept_uvmcreate [kept_intros]: "core s = c \<Longrightarrow> kept c (uvmcreate s)"
  unfolding uvmcreate_def by (intro kept_intros) simp_all

lemma kept_uvmunmap_loop [kept_intros]: "core s = c \<Longrightarrow> kept c (uvmunmap_loop kend pt a lim fr s)"
proof (induction kend pt a lim fr s rule: uvmunmap_loop.induct)
  case (1 kend pt a lim fr s)
  note IH = "1.IH"
  show ?case
  proof (cases "a < lim")
    case True
    show ?thesis
    proof (cases "walk pt a False s")
      case w: (Ok pte t)
      have t: "core t = c" using keptD [OF kept_walk [OF "1.prems"] w] .
      show ?thesis
      proof (cases "if fr then kfree kend (PTE2PA (load64 (pmem t) pte)) t else Ok () t")
        case f: (Ok x u)
        have "core u = c" using t keptD [OF kept_kfree [OF t]] f by (auto split: if_splits)
        then show ?thesis
          using True w f IH [OF True w _ _ _ f refl] by (subst uvmunmap_loop.simps) (simp add: Let_def)
      qed (use True w in \<open>subst uvmunmap_loop.simps, simp\<close>)+
    qed (use True in \<open>subst uvmunmap_loop.simps, simp\<close>)+
  qed (use "1.prems" in \<open>subst uvmunmap_loop.simps, simp\<close>)
qed

lemma kept_uvmunmap [kept_intros]: "core s = c \<Longrightarrow> kept c (uvmunmap kend pt va n fr s)"
  unfolding uvmunmap_def by (intro kept_intros) simp_all

lemma kept_freewalk_entries:
  assumes "\<And>p s. core s = c \<Longrightarrow> kept c (rec p s)" and "core s = c"
  shows "kept c (freewalk_entries rec pt is s)"
  using assms(2)
proof (induction "is" arbitrary: s)
  case (Cons i "is")
  show ?case unfolding freewalk_entries.simps Let_def
    by (intro kept_intros assms(1) Cons) (simp_all add: Cons.prems)
qed simp

lemma kept_freewalk [kept_intros]: "core s = c \<Longrightarrow> kept c (freewalk n kend pt s)"
proof (induction n arbitrary: pt s)
  case (Suc n)
  show ?case unfolding freewalk.simps
    by (intro kept_bnd kept_freewalk_entries kept_kfree Suc) (simp_all add: Suc.prems)
qed simp

lemma kept_uvmfree [kept_intros]: "core s = c \<Longrightarrow> kept c (uvmfree kend pt sz s)"
  unfolding uvmfree_def by (intro kept_intros) simp_all

lemma kept_proc_pagetable [kept_intros]: "core s = c \<Longrightarrow> kept c (proc_pagetable kend tr p s)"
  unfolding proc_pagetable_def by (intro kept_intros) simp_all

lemma kept_proc_freepagetable [kept_intros]: "core s = c \<Longrightarrow> kept c (proc_freepagetable kend pt sz s)"
  unfolding proc_freepagetable_def by (intro kept_intros) simp_all

end
