(* ===== verification/Proc_Sched.thy ===== *)
theory Proc_Sched
  imports Vm_Frame
begin

text \<open>
  What the process-table operations of proc.c do once their locks are read away, and the
  scheduler's exclusion property: a process is RUNNING exactly when one hart has it as
  its current process, and never on two harts.
\<close>

section \<open>Locks in the process table\<close>

definition procs_free :: "'z mach_scheme \<Rightarrow> bool" where
  "procs_free s \<longleftrightarrow> (\<forall>p<NPROC. lock_free (ProcLock p) s)"

lemma set_proc_simps [simp, frame_simps]:
  "tp (set_proc p f s) = tp s" "sie (set_proc p f s) = sie s" "locks (set_proc p f s) = locks s"
  "cpus (set_proc p f s) = cpus s" "nextpid (set_proc p f s) = nextpid s"
  "initproc (set_proc p f s) = initproc s" "pmem (set_proc p f s) = pmem s"
  "freelist (set_proc p f s) = freelist s" "kernel_pagetable (set_proc p f s) = kernel_pagetable s"
  "ticks (set_proc p f s) = ticks s" "csr (set_proc p f s) = csr s"
  "mach.more (set_proc p f s) = mach.more s"
  "procs (set_proc p f s) = (procs s)(p := f (procs s p))"
  by (simp_all add: set_proc_def)

lemma lock_neutral_id: "lock_neutral (\<lambda>s. s)"
  by (simp add: lock_neutral_def)

lemma lock_neutral_set_proc:
  assumes "\<And>s a c l. b (s\<lparr>sie := a, cpus := c, locks := l\<rparr>) = b s"
  shows "lock_neutral (\<lambda>s. if b s then set_proc p f s else s)"
  using assms by (auto simp: lock_neutral_def set_proc_def)

lemma bracket_then:
  assumes "lock_free lk s" and "intr_ok s" and "lock_neutral f"
  shows "bnd (acquire lk s) (\<lambda>_ s. bnd (release lk (f s)) k) = k () (f (note_intena s))"
  using critical_section [OF assms] by (simp add: bnd_assoc [symmetric])

section \<open>wakeup and kill\<close>

definition woken :: "chan \<Rightarrow> proc \<Rightarrow> proc" where
  "woken ch q = (if p_state q = SLEEPING \<and> p_chan q = Some ch then q\<lparr>p_state := RUNNABLE\<rparr> else q)"

lemma note_intena_procs [simp]: "note_intena (s\<lparr>procs := c\<rparr>) = (note_intena s)\<lparr>procs := c\<rparr>"
  by (simp add: note_intena_def cpu_defs)

lemma lock_free_procs [simp]: "lock_free lk (s\<lparr>procs := c\<rparr>) = lock_free lk s"
  by (simp add: lock_free_def)

lemma intr_ok_procs [simp]: "intr_ok (s\<lparr>procs := c\<rparr>) = intr_ok s"
  by (simp add: intr_ok_def cpu_defs)

lemma wakeup_loop_Suc:
  assumes "lock_free (ProcLock p) s" and "intr_ok s"
  shows "wakeup_loop ch p (Suc n) s =
    wakeup_loop ch (Suc p) n ((note_intena s)\<lparr>procs := (procs s)(p := woken ch (procs s p))\<rparr>)"
proof -
  let ?f = "\<lambda>s :: 'a mach_scheme. if p_state (procs s p) = SLEEPING \<and> p_chan (procs s p) = Some ch
    then set_proc p (\<lambda>q. q\<lparr>p_state := RUNNABLE\<rparr>) s else s"
  have n: "lock_neutral ?f" by (rule lock_neutral_set_proc) simp
  have "?f (note_intena s) = (note_intena s)\<lparr>procs := (procs s)(p := woken ch (procs s p))\<rparr>"
    by (simp add: woken_def set_proc_def)
  then show ?thesis
    by (simp only: wakeup_loop.simps Let_def bracket_then [OF assms n])
qed

lemma wakeup_loop_eq:
  assumes "\<forall>q. p \<le> q \<and> q < p + n \<longrightarrow> lock_free (ProcLock q) s" and "intr_ok s"
  shows "wakeup_loop ch p n s = Ok () ((if n = 0 then s else note_intena s)
     \<lparr>procs := (\<lambda>q. if p \<le> q \<and> q < p + n then woken ch (procs s q) else procs s q)\<rparr>)"
  using assms
proof (induction n arbitrary: p s)
  case 0
  have "(\<lambda>q. if p \<le> q \<and> q < p + 0 then woken ch (procs s q) else procs s q) = procs s"
    by (rule ext) auto
  then show ?case by (simp only: wakeup_loop.simps) simp
next
  case (Suc n)
  let ?t = "(note_intena s)\<lparr>procs := (procs s)(p := woken ch (procs s p))\<rparr>"
  have eq: "wakeup_loop ch p (Suc n) s = wakeup_loop ch (Suc p) n ?t"
    using Suc.prems by (intro wakeup_loop_Suc) simp_all
  have t: "\<forall>q. Suc p \<le> q \<and> q < Suc p + n \<longrightarrow> lock_free (ProcLock q) ?t" "intr_ok ?t"
    using Suc.prems by simp_all
  have pr: "(\<lambda>q. if Suc p \<le> q \<and> q < Suc p + n then woken ch (procs ?t q) else procs ?t q) =
      (\<lambda>q. if p \<le> q \<and> q < p + Suc n then woken ch (procs s q) else procs s q)"
  proof
    fix q show "(if Suc p \<le> q \<and> q < Suc p + n then woken ch (procs ?t q) else procs ?t q) =
      (if p \<le> q \<and> q < p + Suc n then woken ch (procs s q) else procs s q)"
      by (cases "q = p") auto
  qed
  show ?case unfolding eq Suc.IH [OF t] pr by simp
qed

lemma wakeup_eq:
  assumes "procs_free s" and "intr_ok s"
  shows "wakeup ch s = Ok () ((note_intena s)\<lparr>procs := (\<lambda>q. if q < NPROC then woken ch (procs s q) else procs s q)\<rparr>)"
  using wakeup_loop_eq [of 0 NPROC s ch] assms by (simp add: wakeup_def procs_free_def NPROC_def)

definition killed :: "proc \<Rightarrow> proc" where
  "killed q = q\<lparr>p_killed := True, p_state := (if p_state q = SLEEPING then RUNNABLE else p_state q)\<rparr>"

lemma lock_neutral_killed:
  "lock_neutral (\<lambda>s. let s = set_proc p (\<lambda>q. q\<lparr>p_killed := True\<rparr>) s
     in if p_state (procs s p) = SLEEPING then set_proc p (\<lambda>q. q\<lparr>p_state := RUNNABLE\<rparr>) s else s)"
  by (auto simp: lock_neutral_def set_proc_def Let_def)

lemma kill_loop_Suc:
  assumes "lock_free (ProcLock p) s" and "intr_ok s"
  shows "kill_loop pid p (Suc n) s =
    (if p_pid (procs s p) = pid then Ok 0 ((note_intena s)\<lparr>procs := (procs s)(p := killed (procs s p))\<rparr>)
     else kill_loop pid (Suc p) n (note_intena s))"
proof (cases "p_pid (procs s p) = pid")
  case True
  let ?f = "\<lambda>s :: 'a mach_scheme. let s = set_proc p (\<lambda>q. q\<lparr>p_killed := True\<rparr>) s
     in if p_state (procs s p) = SLEEPING then set_proc p (\<lambda>q. q\<lparr>p_state := RUNNABLE\<rparr>) s else s"
  have "kill_loop pid p (Suc n) s =
      bnd (acquire (ProcLock p) s) (\<lambda>_ s. bnd (release (ProcLock p) (?f s)) (\<lambda>_ s. Ok 0 s))"
    using True assms(1) by (simp add: acquire_free Let_def)
  also have "\<dots> = Ok 0 (?f (note_intena s))"
    by (rule bracket_then [OF assms lock_neutral_killed])
  also have "?f (note_intena s) = (note_intena s)\<lparr>procs := (procs s)(p := killed (procs s p))\<rparr>"
    by (simp add: killed_def set_proc_def Let_def)
  finally show ?thesis using True by simp
next
  case False
  have "kill_loop pid p (Suc n) s =
      bnd (acquire (ProcLock p) s) (\<lambda>_ s. bnd (release (ProcLock p) s) (\<lambda>_ s. kill_loop pid (Suc p) n s))"
    using False assms(1) by (simp add: acquire_free)
  with False bracket_then [OF assms lock_neutral_id] show ?thesis by simp
qed

lemma kill_loop_none:
  assumes "\<forall>q. p \<le> q \<and> q < p + n \<longrightarrow> lock_free (ProcLock q) s \<and> p_pid (procs s q) \<noteq> pid" and "intr_ok s"
  shows "kill_loop pid p n s = Ok (-1) (if n = 0 then s else note_intena s)"
  using assms
proof (induction n arbitrary: p s)
  case (Suc n)
  then have "kill_loop pid p (Suc n) s = kill_loop pid (Suc p) n (note_intena s)"
    by (subst kill_loop_Suc) simp_all
  also have "\<dots> = Ok (-1) (if n = 0 then note_intena s else note_intena (note_intena s))"
    using Suc.prems by (intro Suc.IH) simp_all
  finally show ?case by simp
qed simp

lemma kill_loop_found:
  assumes "\<forall>q. p \<le> q \<and> q \<le> p + k \<longrightarrow> lock_free (ProcLock q) s" and "intr_ok s"
    and "p_pid (procs s (p + k)) = pid" and "\<forall>q. p \<le> q \<and> q < p + k \<longrightarrow> p_pid (procs s q) \<noteq> pid" and "k < n"
  shows "kill_loop pid p n s = Ok 0 ((note_intena s)\<lparr>procs := (procs s)(p + k := killed (procs s (p + k)))\<rparr>)"
  using assms
proof (induction k arbitrary: p n s)
  case 0
  then obtain m where "n = Suc m" by (cases n) auto
  with 0 show ?case by (simp add: kill_loop_Suc fun_upd_def del: kill_loop.simps)
next
  case (Suc k)
  then obtain m where n: "n = Suc m" by (cases n) auto
  have "kill_loop pid p n s = kill_loop pid (Suc p) m (note_intena s)"
    using Suc.prems unfolding n by (subst kill_loop_Suc) simp_all
  also have "\<dots> = Ok 0 ((note_intena (note_intena s))
      \<lparr>procs := (procs (note_intena s))(Suc p + k := killed (procs (note_intena s) (Suc p + k)))\<rparr>)"
    using Suc.prems n by (intro Suc.IH) simp_all
  finally show ?case by (simp add: fun_upd_def)
qed

lemma kill_found:
  assumes "procs_free s" and "intr_ok s" and "p < NPROC" and "p_pid (procs s p) = pid"
    and "\<forall>q<p. p_pid (procs s q) \<noteq> pid"
  shows "kill pid s = Ok 0 ((note_intena s)\<lparr>procs := (procs s)(p := killed (procs s p))\<rparr>)"
  using kill_loop_found [of 0 p s pid NPROC] assms by (simp add: kill_def procs_free_def)

lemma kill_none:
  assumes "procs_free s" and "intr_ok s" and "\<forall>q<NPROC. p_pid (procs s q) \<noteq> pid"
  shows "kill pid s = Ok (-1) (note_intena s)"
  using kill_loop_none [of 0 NPROC s pid] assms by (simp add: kill_def procs_free_def NPROC_def)

section \<open>allocproc\<close>

lemma core_procs: "core t = core s \<Longrightarrow> procs t = procs s \<and> nextpid t = nextpid s"
  by (simp add: core_eq)

lemma allocproc_loop_first:
  assumes "allocproc_loop p n s = Ok r t"
  shows "core t = core s \<and> (case r of
      None \<Rightarrow> \<forall>q. p \<le> q \<and> q < p + n \<longrightarrow> p_state (procs s q) \<noteq> UNUSED
    | Some q \<Rightarrow> p \<le> q \<and> q < p + n \<and> p_state (procs s q) = UNUSED \<and>
        (\<forall>q'. p \<le> q' \<and> q' < q \<longrightarrow> p_state (procs s q') \<noteq> UNUSED))"
  using assms
proof (induction n arbitrary: p s)
  case 0
  then show ?case by auto
next
  case (Suc n)
  from Suc.prems obtain u where u: "acquire (ProcLock p) s = Ok () u"
    and k: "(if p_state (procs u p) = UNUSED then Ok (Some p) u
       else bnd (release (ProcLock p) u) (\<lambda>_ s. allocproc_loop (Suc p) n s)) = Ok r t"
    by (auto elim: bnd_OkE)
  have cu: "core u = core s" by (rule keptD [OF kept_acquire u]) simp
  show ?case
  proof (cases "p_state (procs u p) = UNUSED")
    case True
    with k cu core_procs [OF cu] show ?thesis by auto
  next
    case False
    with k obtain v where v: "release (ProcLock p) u = Ok () v" "allocproc_loop (Suc p) n v = Ok r t"
      by (auto elim: bnd_OkE)
    have cv: "core v = core s" by (rule keptD [OF kept_release v(1)]) (simp add: cu)
    have rg: "(p \<le> q \<and> q < p + Suc n) \<longleftrightarrow> q = p \<or> (Suc p \<le> q \<and> q < Suc p + n)" for q by auto
    have rg': "(p \<le> q' \<and> q' < q) \<longleftrightarrow> q' = p \<and> p < q \<or> (Suc p \<le> q' \<and> q' < q)" for q q' by auto
    show ?thesis
      using Suc.IH [OF v(2)] cv core_procs [OF cv] core_procs [OF cu] False
      unfolding rg rg' by (auto split: option.splits)
  qed
qed

lemma allocpid_Ok:
  assumes "allocpid s = Ok pid t"
  shows "pid = nextpid s" and "procs t = procs s" and "nextpid t = nextpid s + 1"
proof -
  from assms obtain u where u: "acquire PidLock s = Ok () u"
    and k: "bnd (release PidLock (u\<lparr>nextpid := nextpid u + 1\<rparr>)) (\<lambda>_ s. Ok (nextpid u) s) = Ok pid t"
    by (auto simp: allocpid_def Let_def elim: bnd_OkE)
  have cu: "core u = core s" by (rule keptD [OF kept_acquire u]) simp
  from k obtain v where v: "release PidLock (u\<lparr>nextpid := nextpid u + 1\<rparr>) = Ok () v" "pid = nextpid u" "t = v"
    by (auto elim: bnd_OkE)
  have "core v = core (u\<lparr>nextpid := nextpid u + 1\<rparr>)" by (rule keptD [OF kept_release v(1)]) simp
  with v cu core_procs [OF cu] show "pid = nextpid s" "procs t = procs s" "nextpid t = nextpid s + 1"
    by (auto simp: core_eq)
qed

lemma allocproc_found_Ok:
  assumes "allocproc_found kend tr fr p s = Ok (Some q) t"
  shows "q = p \<and> nextpid t = nextpid s + 1 \<and>
    (\<exists>tf pt. tf \<noteq> 0 \<and> pt \<noteq> 0 \<and> procs t = (procs s)(p := (procs s p)\<lparr>p_pid := nextpid s, p_trapframe := tf,
       p_pagetable := pt,
       p_context := \<lparr>ctx_ra = fr, ctx_sp = p_kstack (procs s p) + PGSIZE, ctx_saved = replicate 12 0\<rparr>\<rparr>))"
proof -
  obtain pid b where b: "allocpid s = Ok pid b"
    using assms by (auto simp: allocproc_found_def elim: bnd_OkE)
  obtain tf c where c: "kalloc (set_proc p (\<lambda>q. q\<lparr>p_pid := pid\<rparr>) b) = Ok tf c"
    using assms b by (auto simp: allocproc_found_def elim: bnd_OkE)
  have tf: "tf \<noteq> 0"
    using assms b c by (auto simp: allocproc_found_def Let_def elim: bnd_OkE)
  obtain pt d where d: "proc_pagetable kend tr p (set_proc p (\<lambda>q. q\<lparr>p_trapframe := tf\<rparr>) c) = Ok pt d"
    using assms b c tf by (auto simp: allocproc_found_def Let_def elim: bnd_OkE)
  have pt: "pt \<noteq> 0"
    using assms b c tf d by (auto simp: allocproc_found_def Let_def elim!: bnd_OkE)
  have t: "q = p" "t = set_proc p (\<lambda>q. q\<lparr>p_context :=
      \<lparr>ctx_ra = fr, ctx_sp = p_kstack q + PGSIZE, ctx_saved = replicate 12 0\<rparr>\<rparr>)
        (set_proc p (\<lambda>q. q\<lparr>p_pagetable := pt\<rparr>) d)"
    using assms b c tf d pt by (auto simp: allocproc_found_def Let_def)
  have cc: "core c = core (set_proc p (\<lambda>q. q\<lparr>p_pid := pid\<rparr>) b)" by (rule keptD [OF kept_kalloc c]) simp
  have cd: "core d = core (set_proc p (\<lambda>q. q\<lparr>p_trapframe := tf\<rparr>) c)"
    by (rule keptD [OF kept_proc_pagetable d]) simp
  have "procs d = (procs s)(p := (procs s p)\<lparr>p_pid := nextpid s, p_trapframe := tf\<rparr>)"
    and "nextpid d = nextpid s + 1"
    using core_procs [OF cc] core_procs [OF cd] allocpid_Ok [OF b] by simp_all
  with t tf pt show ?thesis by (intro conjI exI [of _ tf] exI [of _ pt]) simp_all
qed

lemma allocproc_Ok:
  assumes "allocproc kend tr fr s = Ok (Some p) t"
  shows "p < NPROC \<and> p_state (procs s p) = UNUSED \<and> (\<forall>q<p. p_state (procs s q) \<noteq> UNUSED) \<and>
    nextpid t = nextpid s + 1 \<and>
    (\<exists>tf pt. tf \<noteq> 0 \<and> pt \<noteq> 0 \<and> procs t = (procs s)(p := (procs s p)\<lparr>p_pid := nextpid s, p_trapframe := tf,
       p_pagetable := pt,
       p_context := \<lparr>ctx_ra = fr, ctx_sp = p_kstack (procs s p) + PGSIZE, ctx_saved = replicate 12 0\<rparr>\<rparr>))"
proof -
  from assms obtain r a where l: "allocproc_loop 0 NPROC s = Ok r a"
    and k: "(case r of None \<Rightarrow> Ok None a | Some p \<Rightarrow> allocproc_found kend tr fr p a) = Ok (Some p) t"
    unfolding allocproc_def by (rule bnd_OkE)
  from k obtain q where q: "r = Some q" "allocproc_found kend tr fr q a = Ok (Some p) t"
    by (cases r) auto
  note first = allocproc_loop_first [OF l] and found = allocproc_found_Ok [OF q(2)]
  from first q(1) have a: "procs a = procs s" "nextpid a = nextpid s" by (simp_all add: core_eq)
  from first q(1) found show ?thesis unfolding a by simp
qed

section \<open>Switching to the scheduler and back\<close>

text \<open>
  \<open>quiet h s\<close>: hart h runs code outside every critical section. \<open>in_proc h p\<close> is the
  state in which it has switched away from p: it holds only the lock of p.
\<close>

definition quiet :: "'z mach_scheme \<Rightarrow> bool" where
  "quiet s \<longleftrightarrow> (\<forall>lk. lock_free lk s) \<and> (\<forall>h. noff (cpus s h) = 0)"

definition locked_by :: "nat \<Rightarrow> spinlock \<Rightarrow> spinlock" where
  "locked_by h l = l\<lparr>lk_locked := True, lk_cpu := Some h\<rparr>"

definition switching :: "nat \<Rightarrow> 'z mach_scheme \<Rightarrow> 'z mach_scheme" where
  "switching p s = s\<lparr>sie := False,
     cpus := (cpus s)(tp s := (cpus s (tp s))\<lparr>intena := sie s, noff := 1\<rparr>),
     locks := (locks s)(ProcLock p := locked_by (tp s) (locks s (ProcLock p)))\<rparr>"

lemma quiet_lock: "quiet s \<Longrightarrow> \<not> lk_locked (locks s lk) \<and> lk_cpu (locks s lk) = None"
  by (simp add: quiet_def lock_free_def)

lemma quiet_noff: "quiet s \<Longrightarrow> noff (cpus s h) = 0"
  by (simp add: quiet_def)

lemma enter_switching: "quiet s \<Longrightarrow> enter (ProcLock p) s = switching p s"
  by (auto simp: enter_def switching_def locked_by_def push_off_def cpu_defs Let_def quiet_noff)

lemma quiet_acquire: "quiet s \<Longrightarrow> acquire (ProcLock p) s = Ok () (switching p s)"
  by (simp add: acquire_free quiet_def flip: enter_switching)

lemma sched_switching:
  assumes "cpu_proc (cpus s (tp s)) = Some p" and "p_state (procs s p) \<noteq> RUNNING"
  shows "sched (switching p s) = Sched (switching p s)"
proof -
  have i: "intr_ok (switching p s)" by (simp add: intr_ok_def switching_def cpu_defs)
  have n: "note_intena (switching p s) = switching p s" by (simp add: note_intena_def switching_def cpu_defs)
  have c: "cpu_proc (mycpu (switching p s)) = Some p" using assms(1) by (simp add: switching_def cpu_defs)
  show ?thesis
    unfolding sched_def myproc_eq [OF i] n c
    using assms(2) by (simp add: switching_def holding_def cpu_defs locked_by_def)
qed

lemma switching_set_proc: "set_proc p f (switching q s) = switching q (set_proc p f s)"
  by (simp add: switching_def set_proc_def)

lemma quiet_set_proc [simp]: "quiet (set_proc p f s) = quiet s"
  by (simp add: quiet_def lock_free_def)

lemma intr_ok_quiet: "quiet s \<Longrightarrow> intr_ok s"
  by (simp add: quiet_def intr_ok_def cpu_defs)

lemma noff_note_intena [simp]: "noff (cpus (note_intena s) h) = noff (cpus s h)"
  by (simp add: note_intena_def cpu_defs)

lemma quiet_note_intena [simp]: "quiet (note_intena s) = quiet s"
  by (simp add: quiet_def)

lemma cpu_back: "noff c = 0 \<Longrightarrow> c\<lparr>intena := b, cpu_proc := x, noff := 0\<rparr> = c\<lparr>cpu_proc := x, intena := b\<rparr>"
  by (rule cpu.equality) simp_all

lemma switching_note_intena: "quiet s \<Longrightarrow> switching p (note_intena s) = switching p s"
  by (simp add: switching_def note_intena_def cpu_defs quiet_noff)

lemma yield_eq:
  assumes "quiet s" and "cpu_proc (cpus s (tp s)) = Some p"
  shows "yield s = Sched (switching p (set_proc p (\<lambda>q. q\<lparr>p_state := RUNNABLE\<rparr>) s))"
proof -
  have "sched (switching p (set_proc p (\<lambda>q. q\<lparr>p_state := RUNNABLE\<rparr>) s)) =
      Sched (switching p (set_proc p (\<lambda>q. q\<lparr>p_state := RUNNABLE\<rparr>) s))"
    using assms(2) by (intro sched_switching) simp_all
  then show ?thesis
    using assms unfolding yield_def myproc_eq [OF intr_ok_quiet [OF assms(1)]]
    by (simp add: quiet_acquire switching_note_intena switching_set_proc mycpu_def cpuid_def)
qed

text \<open>The scheduler's side: it clears c->proc and releases the lock of the process.\<close>

lemma sched_return_eq:
  assumes "quiet s"
  shows "sched_return p (switching p s) = Ok ()
    (s\<lparr>cpus := (cpus s)(tp s := (cpus s (tp s))\<lparr>cpu_proc := None, intena := sie s\<rparr>)\<rparr>)"
proof -
  have l: "(locks s)(ProcLock p := (locks s (ProcLock p))\<lparr>lk_locked := False, lk_cpu := None\<rparr>) = locks s"
    using quiet_lock [OF assms, of "ProcLock p"] by auto
  show ?thesis
    using quiet_noff [OF assms, of "tp s"] l
    by (auto simp: sched_return_def switching_def release_def holding_def locked_by_def pop_off_def cpu_defs Let_def
        cpu_back intro!: mach.equality)
qed

lemma hand_over:
  assumes "quiet s" and "lk \<noteq> ProcLock p"
  shows "bnd (acquire (ProcLock p) (enter lk s)) (\<lambda>_. release lk) = Ok () (switching p s)"
proof -
  have l: "(locks s lk)\<lparr>lk_locked := False, lk_cpu := None\<rparr> = locks s lk"
    using quiet_lock [OF assms(1), of lk] by simp
  have f: "lock_free (ProcLock p) (enter lk s)"
    using quiet_lock [OF assms(1)] assms(2) by (simp add: lock_free_def enter_def)
  show ?thesis
    unfolding acquire_free [OF f] bnd.simps
    using quiet_noff [OF assms(1), of "tp s"] assms(2) quiet_lock [OF assms(1)]
    by (auto simp: release_def holding_def enter_def push_off_def pop_off_def cpu_defs Let_def
        switching_def locked_by_def l fun_upd_twist intro!: mach.equality)
qed

lemma sleep_eq:
  assumes "quiet s" and "cpu_proc (cpus s (tp s)) = Some p" and "lk \<noteq> ProcLock p"
  shows "bnd (acquire lk s) (\<lambda>_. sleep ch lk) =
    Sched (switching p (set_proc p (\<lambda>q. q\<lparr>p_chan := Some ch, p_state := SLEEPING\<rparr>) s))"
proof -
  let ?e = "enter lk s"
  have lf: "lock_free lk s" using assms(1) by (simp add: quiet_def)
  have i: "intr_ok ?e"
    using quiet_noff [OF assms(1)] by (simp add: intr_ok_def enter_def push_off_def cpu_defs Let_def)
  have n: "note_intena ?e = ?e"
    using quiet_noff [OF assms(1)] by (simp add: note_intena_def enter_def push_off_def cpu_defs Let_def)
  have c: "cpu_proc (mycpu ?e) = Some p"
    using assms(2) by (simp add: enter_def push_off_def cpu_defs Let_def)
  have "sched (switching p (set_proc p (\<lambda>q. q\<lparr>p_chan := Some ch, p_state := SLEEPING\<rparr>) s)) =
      Sched (switching p (set_proc p (\<lambda>q. q\<lparr>p_chan := Some ch, p_state := SLEEPING\<rparr>) s))"
    using assms(2) by (intro sched_switching) simp_all
  then show ?thesis
    using assms(3) hand_over [OF assms(1,3)]
    unfolding acquire_free [OF lf] bnd.simps sleep_def myproc_eq [OF i] n c
    by (simp add: switching_set_proc)
qed

lemma switching_cpu_proc:
  "set_mycpu ((mycpu (switching q s))\<lparr>cpu_proc := x\<rparr>) (switching q s) =
   switching q (s\<lparr>cpus := (cpus s)(tp s := (cpus s (tp s))\<lparr>cpu_proc := x\<rparr>)\<rparr>)"
  by (rule mach.equality)
    (auto simp: switching_def cpu_defs fun_eq_iff intro!: cpu.equality)

lemma scheduler_loop_pick:
  assumes "quiet s" and "scheduler_loop p n s = Ok (Inr q) t"
  shows "\<exists>s'. (s' = s \<or> s' = note_intena s) \<and> p_state (procs s q) = RUNNABLE \<and>
    t = switching q ((set_proc q (\<lambda>x. x\<lparr>p_state := RUNNING\<rparr>) s')
          \<lparr>cpus := (cpus s')(tp s := (cpus s' (tp s))\<lparr>cpu_proc := Some q\<rparr>)\<rparr>)"
  using assms
proof (induction n arbitrary: p s)
  case (Suc n)
  have lf: "lock_free (ProcLock p) s" using Suc.prems(1) by (simp add: quiet_def)
  show ?case
  proof (cases "p_state (procs s p) = RUNNABLE")
    case True
    have "scheduler_loop p (Suc n) s = Ok (Inr p)
        (set_mycpu ((mycpu (switching p (set_proc p (\<lambda>x. x\<lparr>p_state := RUNNING\<rparr>) s)))\<lparr>cpu_proc := Some p\<rparr>)
          (switching p (set_proc p (\<lambda>x. x\<lparr>p_state := RUNNING\<rparr>) s)))"
      using True by (simp add: quiet_acquire [OF Suc.prems(1)] Let_def switching_set_proc)
        (simp add: switching_def)
    with Suc.prems(2) have "q = p" and "t = switching p ((set_proc p (\<lambda>x. x\<lparr>p_state := RUNNING\<rparr>) s)
          \<lparr>cpus := (cpus s)(tp s := (cpus s (tp s))\<lparr>cpu_proc := Some p\<rparr>)\<rparr>)"
      unfolding switching_cpu_proc by auto
    with True show ?thesis by blast
  next
    case False
    have "scheduler_loop p (Suc n) s =
        bnd (acquire (ProcLock p) s) (\<lambda>_ s. bnd (release (ProcLock p) s) (\<lambda>_ s. scheduler_loop (Suc p) n s))"
      using False lf by (simp add: acquire_free)
    also have "\<dots> = scheduler_loop (Suc p) n (note_intena s)"
      by (rule bracket_then [OF lf intr_ok_quiet [OF Suc.prems(1)] lock_neutral_id])
    finally have "scheduler_loop (Suc p) n (note_intena s) = Ok (Inr q) t" using Suc.prems(2) by simp
    from Suc.IH [OF _ this] Suc.prems(1) show ?thesis by auto
  qed
qed simp

lemma resume_eq:
  assumes "quiet s"
  shows "yield_resume p b (switching p s) = Ok ()
    (s\<lparr>sie := b, cpus := (cpus s)(tp s := (cpus s (tp s))\<lparr>intena := b\<rparr>)\<rparr>)"
proof -
  have l: "(locks s)(ProcLock p := (locks s (ProcLock p))\<lparr>lk_locked := False, lk_cpu := None\<rparr>) = locks s"
    using quiet_lock [OF assms, of "ProcLock p"] by auto
  have c: "(cpus s (tp s))\<lparr>intena := b, noff := 0\<rparr> = (cpus s (tp s))\<lparr>intena := b\<rparr>"
    using quiet_noff [OF assms] by (intro cpu.equality) simp_all
  show ?thesis
    using quiet_noff [OF assms, of "tp s"] l c
    by (auto simp: yield_resume_def sched_resume_def switching_def release_def holding_def locked_by_def pop_off_def
        cpu_defs Let_def intro!: mach.equality)
qed

section \<open>Exclusive running\<close>

text \<open>
  The harts run process code and their schedulers in any order. One step is one pass
  through a scheduler that finds a process and lets it run, or one call of yield, sleep,
  wakeup or kill by the process a hart is running, up to the scheduler's release of that
  process's lock. Each of these holds the process's lock across the switch, so no other
  hart sees the states in between. \<open>b\<close> is the hart's interrupt-enable bit.
\<close>

inductive sys_step :: "mach \<Rightarrow> mach \<Rightarrow> bool" where
  sys_pick: "cpu_proc (cpus s h) = None \<Longrightarrow> scheduler (s\<lparr>tp := h, sie := b\<rparr>) = Ok (Inr q) t \<Longrightarrow>
    yield_resume q b' t = Ok () u \<Longrightarrow> sys_step s u"
| sys_yield: "cpu_proc (cpus s h) = Some p \<Longrightarrow> yield (s\<lparr>tp := h, sie := b\<rparr>) = Sched t \<Longrightarrow>
    sched_return p t = Ok () u \<Longrightarrow> sys_step s u"
| sys_sleep: "cpu_proc (cpus s h) = Some p \<Longrightarrow> lk \<noteq> ProcLock p \<Longrightarrow>
    bnd (acquire lk (s\<lparr>tp := h, sie := b\<rparr>)) (\<lambda>_. sleep ch lk) = Sched t \<Longrightarrow>
    sched_return p t = Ok () u \<Longrightarrow> sys_step s u"
| sys_wakeup: "wakeup ch (s\<lparr>tp := h, sie := b\<rparr>) = Ok () u \<Longrightarrow> sys_step s u"
| sys_kill: "kill pid (s\<lparr>tp := h, sie := b\<rparr>) = Ok r u \<Longrightarrow> sys_step s u"

definition sys_init :: "mach \<Rightarrow> bool" where
  "sys_init s \<longleftrightarrow> quiet s \<and> (\<forall>h. cpu_proc (cpus s h) = None) \<and> (\<forall>p. p_state (procs s p) \<noteq> RUNNING)"

definition excl :: "(nat \<Rightarrow> bool) \<Rightarrow> (nat \<Rightarrow> nat option) \<Rightarrow> bool" where
  "excl ru cu \<longleftrightarrow> (\<forall>p. ru p \<longleftrightarrow> (\<exists>h. cu h = Some p)) \<and> (\<forall>h g p. cu h = Some p \<longrightarrow> cu g = Some p \<longrightarrow> h = g)"

lemma excl_put:
  assumes "excl ru cu" and "cu h = None" and "\<not> ru q"
  shows "excl (ru(q := True)) (cu(h := Some q))"
  unfolding excl_def
proof (intro conjI allI impI)
  fix p show "(ru(q := True)) p = (\<exists>g. (cu(h := Some q)) g = Some p)"
  proof (cases "p = q")
    case False
    then have "(\<exists>g. (cu(h := Some q)) g = Some p) \<longleftrightarrow> (\<exists>g. cu g = Some p)"
      using assms(2) by (metis fun_upd_apply option.distinct(1) option.inject)
    with False assms(1) show ?thesis by (simp add: excl_def)
  qed auto
next
  fix g g' p assume "(cu(h := Some q)) g = Some p" "(cu(h := Some q)) g' = Some p"
  then show "g = g'" using assms by (auto simp: excl_def split: if_splits)
qed

lemma excl_drop:
  assumes "excl ru cu" and "cu h = Some p"
  shows "excl (ru(p := False)) (cu(h := None))"
  unfolding excl_def
proof (intro conjI allI impI)
  fix q show "(ru(p := False)) q = (\<exists>g. (cu(h := None)) g = Some q)"
  proof (cases "q = p")
    case True
    then show ?thesis using assms by (auto simp: excl_def)
  next
    case False
    then have "(\<exists>g. (cu(h := None)) g = Some q) \<longleftrightarrow> (\<exists>g. cu g = Some q)"
      using assms(2) by (metis fun_upd_apply option.distinct(1) option.inject)
    with False assms(1) show ?thesis by (simp add: excl_def)
  qed
next
  fix g g' q assume "(cu(h := None)) g = Some q" "(cu(h := None)) g' = Some q"
  then show "g = g'" using assms(1) by (auto simp: excl_def split: if_splits)
qed

definition is_running :: "mach \<Rightarrow> nat \<Rightarrow> bool" where
  "is_running s p \<longleftrightarrow> p_state (procs s p) = RUNNING"

definition current :: "mach \<Rightarrow> nat \<Rightarrow> nat option" where
  "current s h = cpu_proc (cpus s h)"

definition run_inv :: "mach \<Rightarrow> bool" where
  "run_inv s \<longleftrightarrow> quiet s \<and> excl (is_running s) (current s)"

lemma quiet_hart [simp]: "quiet (s\<lparr>tp := h, sie := b\<rparr>) = quiet s"
  by (simp add: quiet_def lock_free_def)

lemma run_inv_init: "sys_init s \<Longrightarrow> run_inv s"
  by (simp add: sys_init_def run_inv_def excl_def is_running_def current_def)

lemma run_inv_pick:
  assumes step: "cpu_proc (cpus s h) = None" "scheduler (s\<lparr>tp := h, sie := b\<rparr>) = Ok (Inr q) t"
      "yield_resume q b' t = Ok () u"
    and inv: "run_inv s"
  shows "run_inv u"
proof -
  define v where "v = s\<lparr>tp := h, sie := True, cpus := (cpus s)(h := (cpus s h)\<lparr>cpu_proc := None\<rparr>)\<rparr>"
  have v: "tp v = h" "procs v = procs s" "\<And>g. cpu_proc (cpus v g) = cpu_proc (cpus s g)"
    using step(1) by (auto simp: v_def)
  have qv: "quiet v" using inv by (auto simp: run_inv_def quiet_def lock_free_def v_def)
  have "scheduler (s\<lparr>tp := h, sie := b\<rparr>) = scheduler_loop 0 NPROC v"
    unfolding scheduler_def v_def by (simp add: cpu_defs)
      (rule arg_cong [where f = "scheduler_loop 0 NPROC"], rule mach.equality; simp)
  with step(2) have "scheduler_loop 0 NPROC v = Ok (Inr q) t" by simp
  from scheduler_loop_pick [OF qv this] obtain w where
    w: "w = v \<or> w = note_intena v" "p_state (procs v q) = RUNNABLE"
    and t: "t = switching q ((set_proc q (\<lambda>x. x\<lparr>p_state := RUNNING\<rparr>) w)
      \<lparr>cpus := (cpus w)(tp v := (cpus w (tp v))\<lparr>cpu_proc := Some q\<rparr>)\<rparr>)" by blast
  define z where "z = (set_proc q (\<lambda>x. x\<lparr>p_state := RUNNING\<rparr>) w)\<lparr>cpus := (cpus w)(h := (cpus w h)\<lparr>cpu_proc := Some q\<rparr>)\<rparr>"
  have ww: "tp w = h" "procs w = procs s" "\<And>g. cpu_proc (cpus w g) = cpu_proc (cpus s g)"
    using w(1) v by (auto simp: note_intena_def cpu_defs)
  have "quiet w" using qv w(1) by auto
  then have qz: "quiet z" by (auto simp: quiet_def lock_free_def z_def)
  have z: "tp z = h" "procs z = (procs s)(q := (procs s q)\<lparr>p_state := RUNNING\<rparr>)"
    "\<And>g. cpu_proc (cpus z g) = ((current s)(h := Some q)) g"
    using ww by (auto simp: z_def current_def)
  have "t = switching q z" using t v(1) by (simp add: z_def)
  with step(3) resume_eq [OF qz, of q b'] z(1)
  have u: "u = z\<lparr>sie := b', cpus := (cpus z)(h := (cpus z h)\<lparr>intena := b'\<rparr>)\<rparr>" by simp
  have "quiet u" using qz unfolding u by (auto simp: quiet_def lock_free_def)
  moreover have "is_running u = (is_running s)(q := True)"
    by (rule ext) (simp add: u z is_running_def)
  moreover have "current u g = ((current s)(h := Some q)) g" for g
    using z(3) [of g] by (auto simp: u current_def)
  then have "current u = (current s)(h := Some q)" by (rule ext)
  moreover have "\<not> is_running s q" using w(2) v(2) by (simp add: is_running_def)
  ultimately show ?thesis
    using inv step(1) excl_put [of "is_running s" "current s" h q] by (simp add: run_inv_def current_def)
qed

lemma run_inv_yield:
  assumes step: "cpu_proc (cpus s h) = Some p" "yield (s\<lparr>tp := h, sie := b\<rparr>) = Sched t" "sched_return p t = Ok () u"
    and inv: "run_inv s"
  shows "run_inv u"
proof -
  let ?s = "s\<lparr>tp := h, sie := b\<rparr>" and ?f = "\<lambda>q. q\<lparr>p_state := RUNNABLE\<rparr>"
  have q: "quiet ?s" using inv by (simp add: run_inv_def)
  then have "t = switching p (set_proc p ?f ?s)"
    using step(1,2) yield_eq [OF q, of p] by simp
  with step(3) sched_return_eq [of "set_proc p ?f ?s" p] q
  have u: "u = (set_proc p ?f ?s)\<lparr>cpus := (cpus s)(h := (cpus s h)\<lparr>cpu_proc := None, intena := b\<rparr>)\<rparr>" by simp
  have "quiet u" using q unfolding u by (auto simp: quiet_def lock_free_def)
  moreover have "is_running u = (is_running s)(p := False)" by (auto simp: u is_running_def fun_eq_iff)
  moreover have "current u = (current s)(h := None)" by (auto simp: u current_def fun_eq_iff)
  ultimately show ?thesis
    using inv step(1) excl_drop [of "is_running s" "current s" h p] by (simp add: run_inv_def current_def)
qed

lemma run_inv_sleep:
  assumes step: "cpu_proc (cpus s h) = Some p" "lk \<noteq> ProcLock p"
      "bnd (acquire lk (s\<lparr>tp := h, sie := b\<rparr>)) (\<lambda>_. sleep ch lk) = Sched t" "sched_return p t = Ok () u"
    and inv: "run_inv s"
  shows "run_inv u"
proof -
  let ?s = "s\<lparr>tp := h, sie := b\<rparr>" and ?f = "\<lambda>q. q\<lparr>p_chan := Some ch, p_state := SLEEPING\<rparr>"
  have q: "quiet ?s" using inv by (simp add: run_inv_def)
  then have "t = switching p (set_proc p ?f ?s)"
    using step(1,3) sleep_eq [OF q _ step(2)] by simp
  with step(4) sched_return_eq [of "set_proc p ?f ?s" p] q
  have u: "u = (set_proc p ?f ?s)\<lparr>cpus := (cpus s)(h := (cpus s h)\<lparr>cpu_proc := None, intena := b\<rparr>)\<rparr>" by simp
  have "quiet u" using q unfolding u by (auto simp: quiet_def lock_free_def)
  moreover have "is_running u = (is_running s)(p := False)" by (auto simp: u is_running_def fun_eq_iff)
  moreover have "current u = (current s)(h := None)" by (auto simp: u current_def fun_eq_iff)
  ultimately show ?thesis
    using inv step(1) excl_drop [of "is_running s" "current s" h p] by (simp add: run_inv_def current_def)
qed

lemma run_inv_wakeup:
  assumes step: "wakeup ch (s\<lparr>tp := h, sie := b\<rparr>) = Ok () u" and inv: "run_inv s"
  shows "run_inv u"
proof -
  let ?s = "s\<lparr>tp := h, sie := b\<rparr>"
  have q: "quiet ?s" using inv by (simp add: run_inv_def)
  then have pf: "procs_free ?s" by (simp add: procs_free_def quiet_def)
  have ps: "procs ?s = procs s" by simp
  from step wakeup_eq [OF pf intr_ok_quiet [OF q], unfolded ps]
  have u: "u = (note_intena ?s)\<lparr>procs := (\<lambda>q. if q < NPROC then woken ch (procs s q) else procs s q)\<rparr>" by simp
  have "quiet ((note_intena ?s)\<lparr>procs := c\<rparr>)" for c using q by (simp add: quiet_def)
  moreover have "is_running u = is_running s" by (auto simp: u is_running_def woken_def fun_eq_iff)
  moreover have "current u = current s" by (simp add: u current_def fun_eq_iff note_intena_def cpu_defs)
  ultimately show ?thesis using inv u by (simp add: run_inv_def)
qed

lemma run_inv_kill:
  assumes step: "kill pid (s\<lparr>tp := h, sie := b\<rparr>) = Ok r u" and inv: "run_inv s"
  shows "run_inv u"
proof -
  let ?s = "s\<lparr>tp := h, sie := b\<rparr>"
  have q: "quiet ?s" using inv by (simp add: run_inv_def)
  then have pf: "procs_free ?s" by (simp add: procs_free_def quiet_def)
  have "\<exists>c. u = (note_intena ?s)\<lparr>procs := c\<rparr> \<and> (\<forall>p. p_state (c p) = RUNNING \<longleftrightarrow> p_state (procs s p) = RUNNING)"
  proof (cases "\<exists>p<NPROC. p_pid (procs s p) = pid")
    case True
    define p where "p = (LEAST p. p < NPROC \<and> p_pid (procs s p) = pid)"
    from True have p: "p < NPROC \<and> p_pid (procs s p) = pid" unfolding p_def by (rule LeastI_ex)
    have "\<forall>q<p. p_pid (procs s q) \<noteq> pid" using not_less_Least [of _ "\<lambda>p. p < NPROC \<and> p_pid (procs s p) = pid"] p
      unfolding p_def by (metis order.strict_trans)
    with p step kill_found [OF pf intr_ok_quiet [OF q], of p pid]
    show ?thesis by (intro exI [of _ "(procs s)(p := killed (procs s p))"]) (auto simp: killed_def)
  next
    case False
    with step kill_none [OF pf intr_ok_quiet [OF q], of pid]
    show ?thesis by (intro exI [of _ "procs s"]) auto
  qed
  then obtain c where u: "u = (note_intena ?s)\<lparr>procs := c\<rparr>"
    and c: "\<And>p. p_state (c p) = RUNNING \<longleftrightarrow> p_state (procs s p) = RUNNING" by blast
  have "quiet u" using q unfolding u by (simp add: quiet_def)
  moreover have "is_running u = is_running s" using c by (simp add: u is_running_def fun_eq_iff)
  moreover have "current u = current s" by (simp add: u current_def fun_eq_iff note_intena_def cpu_defs)
  ultimately show ?thesis using inv by (simp add: run_inv_def)
qed

lemma run_inv_step: "sys_step s u \<Longrightarrow> run_inv s \<Longrightarrow> run_inv u"
  by (erule sys_step.cases)
    (auto intro: run_inv_pick run_inv_yield run_inv_sleep run_inv_wakeup run_inv_kill)

section \<open>A concrete run\<close>

definition one_runnable :: mach where
  "one_runnable = mach0\<lparr>procs := (\<lambda>_. proc0)(0 := proc0\<lparr>p_state := RUNNABLE\<rparr>)\<rparr>"

lemma one_runnable: "sys_init one_runnable" "quiet one_runnable" "procs_free one_runnable" "intr_ok one_runnable"
  by (auto simp: sys_init_def quiet_def lock_free_def one_runnable_def mach0_def proc0_def procs_free_def
      intr_ok_def cpu_defs)

lemma scheduler_loop_here:
  assumes "quiet s" and "p_state (procs s p) = RUNNABLE"
  shows "\<exists>t. scheduler_loop p (Suc n) s = Ok (Inr p) t \<and> (\<exists>z. quiet z \<and> t = switching p z \<and>
    cpu_proc (cpus z (tp s)) = Some p \<and> tp z = tp s)"
proof -
  let ?x = "set_proc p (\<lambda>x. x\<lparr>p_state := RUNNING\<rparr>) s"
  let ?z = "?x\<lparr>cpus := (cpus ?x)(tp ?x := (cpus ?x (tp ?x))\<lparr>cpu_proc := Some p\<rparr>)\<rparr>"
  have "scheduler_loop p (Suc n) s =
      Ok (Inr p) (set_mycpu ((mycpu (switching p ?x))\<lparr>cpu_proc := Some p\<rparr>) (switching p ?x))"
    using assms(2) by (simp add: quiet_acquire [OF assms(1)] Let_def switching_set_proc)
      (simp add: switching_def)
  moreover have "quiet ?z" using assms(1) by (auto simp: quiet_def lock_free_def)
  ultimately show ?thesis
    unfolding switching_cpu_proc by (intro exI [of _ "switching p ?z"] conjI exI [of _ ?z]) simp_all
qed

lemma one_runnable_step:
  "\<exists>u. sys_step one_runnable u \<and> cpu_proc (cpus u 1) = Some 0"
proof -
  define v where "v = one_runnable\<lparr>tp := 1, sie := True, cpus := (cpus one_runnable)
    (1 := (cpus one_runnable 1)\<lparr>cpu_proc := None\<rparr>)\<rparr>"
  have "quiet v" using one_runnable(2) by (auto simp: quiet_def lock_free_def v_def)
  moreover have "p_state (procs v 0) = RUNNABLE" by (simp add: v_def one_runnable_def)
  ultimately obtain t z where t: "scheduler_loop 0 (Suc 63) v = Ok (Inr 0) t" and z: "quiet z" "t = switching 0 z"
    "cpu_proc (cpus z (tp v)) = Some 0" "tp z = tp v" using scheduler_loop_here by blast
  have "scheduler (one_runnable\<lparr>tp := 1, sie := True\<rparr>) = scheduler_loop 0 (Suc 63) v"
    unfolding scheduler_def v_def NPROC_def
    by (simp only: cpu_defs Let_def numeral_eq_Suc pred_numeral_simps BitM.simps)
      (rule arg_cong [where f = "scheduler_loop 0 _"], rule mach.equality; simp)
  with t have "scheduler (one_runnable\<lparr>tp := 1, sie := True\<rparr>) = Ok (Inr 0) t" by simp
  moreover have "cpu_proc (cpus one_runnable 1) = None" by (simp add: one_runnable_def mach0_def)
  moreover from resume_eq [OF z(1), of 0 True] z(2)
  have "yield_resume 0 True t = Ok () (z\<lparr>sie := True, cpus := (cpus z)(tp z := (cpus z (tp z))\<lparr>intena := True\<rparr>)\<rparr>)"
    by simp
  ultimately have "sys_step one_runnable (z\<lparr>sie := True, cpus := (cpus z)(tp z := (cpus z (tp z))\<lparr>intena := True\<rparr>)\<rparr>)"
    using sys_pick by blast
  then show ?thesis using z(3,4) by (intro exI conjI) (assumption, simp add: v_def)
qed

section \<open>Properties\<close>



text \<open>C28: wakeup makes exactly the processes sleeping on the channel runnable, changes nothing else
  in the process table, and returns with every lock as it found it. kill returns 0 exactly when
  some slot has the pid, marks the first such slot killed and makes it runnable if it sleeps.\<close>

theorem wakeup_kill_correct:
  assumes "procs_free s" and "intr_ok s"
  shows "wakeup ch s = Ok () ((note_intena s)\<lparr>procs := (\<lambda>q. if q < NPROC \<and> p_state (procs s q) = SLEEPING \<and>
      p_chan (procs s q) = Some ch then (procs s q)\<lparr>p_state := RUNNABLE\<rparr> else procs s q)\<rparr>) \<and>
    (if \<exists>p<NPROC. p_pid (procs s p) = pid
     then \<exists>p<NPROC. p_pid (procs s p) = pid \<and> (\<forall>q<p. p_pid (procs s q) \<noteq> pid) \<and>
       kill pid s = Ok 0 ((note_intena s)\<lparr>procs := (procs s)(p := (procs s p)\<lparr>p_killed := True,
         p_state := (if p_state (procs s p) = SLEEPING then RUNNABLE else p_state (procs s p))\<rparr>)\<rparr>)
     else kill pid s = Ok (-1) (note_intena s))"
proof
  have "(\<lambda>q. if q < NPROC then woken ch (procs s q) else procs s q) =
      (\<lambda>q. if q < NPROC \<and> p_state (procs s q) = SLEEPING \<and> p_chan (procs s q) = Some ch
        then (procs s q)\<lparr>p_state := RUNNABLE\<rparr> else procs s q)"
    by (rule ext) (simp add: woken_def)
  then show "wakeup ch s = Ok () ((note_intena s)\<lparr>procs := (\<lambda>q. if q < NPROC \<and> p_state (procs s q) = SLEEPING \<and>
      p_chan (procs s q) = Some ch then (procs s q)\<lparr>p_state := RUNNABLE\<rparr> else procs s q)\<rparr>)"
    using wakeup_eq [OF assms, of ch] by simp
  show "if \<exists>p<NPROC. p_pid (procs s p) = pid
     then \<exists>p<NPROC. p_pid (procs s p) = pid \<and> (\<forall>q<p. p_pid (procs s q) \<noteq> pid) \<and>
       kill pid s = Ok 0 ((note_intena s)\<lparr>procs := (procs s)(p := (procs s p)\<lparr>p_killed := True,
         p_state := (if p_state (procs s p) = SLEEPING then RUNNABLE else p_state (procs s p))\<rparr>)\<rparr>)
     else kill pid s = Ok (-1) (note_intena s)"
  proof (cases "\<exists>p<NPROC. p_pid (procs s p) = pid")
    case True
    define p where "p = (LEAST p. p < NPROC \<and> p_pid (procs s p) = pid)"
    from True have p: "p < NPROC \<and> p_pid (procs s p) = pid" unfolding p_def by (rule LeastI_ex)
    have first: "p_pid (procs s q) \<noteq> pid" if "q < p" for q
      using not_less_Least [of q "\<lambda>p. p < NPROC \<and> p_pid (procs s p) = pid"] that p unfolding p_def by auto
    with p kill_found [OF assms, of p pid] True show ?thesis by (auto simp: killed_def)
  next
    case False
    then have "kill pid s = Ok (-1) (note_intena s)" by (intro kill_none [OF assms]) auto
    with False show ?thesis by (simp only: if_False)
  qed
qed

theorem wakeup_kill_correct_witness:
  "kill 7 one_runnable = Ok (-1) (note_intena one_runnable)"
proof -
  have "\<not> (\<exists>p<NPROC. p_pid (procs one_runnable p) = 7)" by (simp add: one_runnable_def proc0_def)
  with wakeup_kill_correct [OF one_runnable(3,4), of ConsChan 7] show ?thesis by (simp only: if_False)
qed

end
