(* ===== verification/Proc_Alloc.thy ===== *)
theory Proc_Alloc
  imports Proc_Sched Vm_Tree
begin

text \<open>
  The creation of a process: proc_pagetable builds an address space that maps the
  trampoline and the trapframe and nothing else, and allocproc succeeds whenever a slot
  and a handful of pages are free.
\<close>

section \<open>One page\<close>

lemma PGROUNDDOWN_last:
  assumes "page_aligned a" and "a < MAXVA"
  shows "PGROUNDDOWN (a + PGSIZE - 1) = a"
proof -
  have d: "4096 dvd unat a" using assms(1) by (simp add: page_aligned_unat)
  have u: "unat (a + PGSIZE) = unat a + 4096" by (rule below_MAXVA_room [OF assms(2)])
  then have "1 \<le> a + PGSIZE" by (simp add: word_le_nat_alt)
  with u have "unat (a + PGSIZE - 1) = unat a + 4095" by (simp add: unat_sub)
  with d show ?thesis by (auto simp: word_eq_iff_unat unat_PGROUNDDOWN elim!: dvdE)
qed

lemma mappages_one:
  assumes "vm_inv kend root ps s" and "page_aligned a" and "a < MAXVA"
    and "pte_at (pmem s) root a AND PTE_V = 0" and "2 < length ps"
  shows "\<exists>ps' u. mappages root a PGSIZE pa perm s = Ok 0 u \<and> vm_inv kend root ps' u \<and>
    length ps \<le> length ps' + 2 \<and>
    (\<forall>w<MAXVA. pte_at (pmem u) root w =
       (if PGROUNDDOWN w = a then PA2PTE pa OR perm OR PTE_V else pte_at (pmem s) root w))"
proof -
  have free: "\<forall>w<MAXVA. a \<le> PGROUNDDOWN w \<and> PGROUNDDOWN w \<le> a \<longrightarrow> pte_at (pmem s) root w AND PTE_V = 0"
  proof (intro allI impI)
    fix w assume w: "w < MAXVA" "a \<le> PGROUNDDOWN w \<and> PGROUNDDOWN w \<le> a"
    then have "PGROUNDDOWN w = PGROUNDDOWN a" by (auto simp: PGROUNDDOWN_id [OF assms(2)])
    then have "same_page w a" using same_page_iff [OF w(1) assms(3)] by simp
    then have "pte_at (pmem s) root w = pte_at (pmem s) root a"
      by (auto simp: pte_at_def same_page_def split: option.split)
    with assms(4) show "pte_at (pmem s) root w AND PTE_V = 0" by simp
  qed
  have "unat a = unat a + 0 * 4096" by simp
  from mappages_loop_maps [OF assms(1,2) this assms(3) free, of pa perm] show ?thesis
  proof (elim exE conjE, goal_cases)
    case (1 r ps' u)
    then have "r = 0" using assms(5) by (auto simp: maps_to_def)
    moreover have "mapped old a a pa perm w =
        (if PGROUNDDOWN w = a then PA2PTE pa OR perm OR PTE_V else old w)" for old w
      by (auto simp: mapped_def)
    ultimately show ?case
      using 1 unfolding mappages_def PGROUNDDOWN_last [OF assms(2,3)] PGROUNDDOWN_id [OF assms(2)]
      by (intro exI [of _ ps'] exI [of _ u]) (simp add: maps_to_def)
  qed
qed

section \<open>proc_pagetable\<close>

lemma trampoline_addr:
  "page_aligned TRAMPOLINE" "TRAMPOLINE < MAXVA" "page_aligned TRAPFRAME" "TRAPFRAME < MAXVA"
  "TRAMPOLINE \<noteq> TRAPFRAME"
  by (simp_all add: page_aligned_def TRAMPOLINE_def TRAPFRAME_def MAXVA_def PGSIZE_def)

lemma proc_pagetable_ok:
  assumes "kmem_ready kend (c # ps) s" and "4 < length ps"
  shows "\<exists>t ps'. proc_pagetable kend tr p s = Ok c t \<and> vm_inv kend c ps' t \<and>
    (\<forall>w<MAXVA. pte_at (pmem t) c w =
       (if PGROUNDDOWN w = TRAMPOLINE then PA2PTE tr OR (PTE_R OR PTE_X) OR PTE_V
        else if PGROUNDDOWN w = TRAPFRAME then PA2PTE (p_trapframe (procs s p)) OR (PTE_R OR PTE_W) OR PTE_V
        else 0))"
proof -
  have c0: "c \<noteq> 0" using kmem.avail_ok [OF assms(1)] kmem.ok_nonzero by auto
  from uvmcreate_ok [OF assms(1)] obtain t where t: "uvmcreate s = Ok c t" "vm_inv kend c ps t"
    "\<And>va. pte_at (pmem t) c va = 0" by blast
  have "pte_at (pmem t) c TRAMPOLINE AND PTE_V = 0" "2 < length ps" using t(3) assms(2) by simp_all
  from mappages_one [OF t(2) trampoline_addr(1,2) this, of tr "PTE_R OR PTE_X"] obtain ps1 u where
    u: "mappages c TRAMPOLINE PGSIZE tr (PTE_R OR PTE_X) t = Ok 0 u" "vm_inv kend c ps1 u"
      "length ps \<le> length ps1 + 2"
      "\<forall>w<MAXVA. pte_at (pmem u) c w =
         (if PGROUNDDOWN w = TRAMPOLINE then PA2PTE tr OR (PTE_R OR PTE_X) OR PTE_V else pte_at (pmem t) c w)"
    by blast
  have "pte_at (pmem u) c TRAPFRAME AND PTE_V = 0" "2 < length ps1"
    using u(3,4) t(3) assms(2) trampoline_addr(4,5) by (simp_all add: PGROUNDDOWN_id [OF trampoline_addr(3)])
  from mappages_one [OF u(2) trampoline_addr(3,4) this, of "p_trapframe (procs u p)" "PTE_R OR PTE_W"]
  obtain ps2 v where
    v: "mappages c TRAPFRAME PGSIZE (p_trapframe (procs u p)) (PTE_R OR PTE_W) u = Ok 0 v" "vm_inv kend c ps2 v"
      "\<forall>w<MAXVA. pte_at (pmem v) c w =
         (if PGROUNDDOWN w = TRAPFRAME then PA2PTE (p_trapframe (procs u p)) OR (PTE_R OR PTE_W) OR PTE_V
          else pte_at (pmem u) c w)"
    by blast
  have "core t = core s" by (rule keptD [OF kept_uvmcreate t(1)]) simp
  moreover have "core u = core t" by (rule keptD [OF kept_mappages u(1)]) simp
  ultimately have pr: "procs u = procs s" by (simp add: core_eq)
  have "proc_pagetable kend tr p s = Ok c v"
    using t(1) u(1) v(1) c0 by (simp add: proc_pagetable_def)
  moreover have "\<forall>w<MAXVA. pte_at (pmem v) c w =
       (if PGROUNDDOWN w = TRAMPOLINE then PA2PTE tr OR (PTE_R OR PTE_X) OR PTE_V
        else if PGROUNDDOWN w = TRAPFRAME then PA2PTE (p_trapframe (procs s p)) OR (PTE_R OR PTE_W) OR PTE_V
        else 0)"
    using u(4) v(3) t(3) trampoline_addr(5) by (simp add: pr)
  ultimately show ?thesis using v(2) by blast
qed

section \<open>allocproc\<close>

lemma kmem_ready_enter:
  assumes "kmem_ready kend ps s" and "lk \<noteq> KmemLock" and "quiet s"
  shows "kmem_ready kend ps (enter lk s)"
  using assms unfolding kmem_ready_def
  by (auto simp: kmem_inv_def lock_free_def enter_def intr_ok_def noff_push_off quiet_def)
    (auto simp: push_off_def cpu_defs Let_def)

lemma kmem_ready_set_proc [simp]: "kmem_ready kend ps (set_proc p f s) = kmem_ready kend ps s"
  by (simp add: kmem_ready_def kmem_inv_def lock_free_def intr_ok_def cpu_defs)

lemma allocpid_eq:
  assumes "lock_free PidLock s" and "intr_ok s"
  shows "allocpid s = Ok (nextpid s) ((note_intena s)\<lparr>nextpid := nextpid s + 1\<rparr>)"
proof -
  have n: "lock_neutral (\<lambda>s :: 'a mach_scheme. s\<lparr>nextpid := nextpid s + 1\<rparr>)" by (simp add: lock_neutral_def)
  have "nextpid (enter PidLock s) = nextpid s" by simp
  then have "allocpid s = bnd (acquire PidLock s) (\<lambda>_ t. bnd (release PidLock (t\<lparr>nextpid := nextpid t + 1\<rparr>))
      (\<lambda>_ u. Ok (nextpid s) u))"
    by (simp add: allocpid_def acquire_free [OF assms(1)] Let_def)
  with bracket_then [OF assms n] show ?thesis by simp
qed

lemma allocproc_loop_found:
  assumes "quiet s" and "p_state (procs s (p + k)) = UNUSED" and "\<forall>q. p \<le> q \<and> q < p + k \<longrightarrow> p_state (procs s q) \<noteq> UNUSED"
    and "k < n"
  shows "\<exists>s'. allocproc_loop p n s = Ok (Some (p + k)) (enter (ProcLock (p + k)) s') \<and> (s' = s \<or> s' = note_intena s)"
  using assms
proof (induction k arbitrary: p n s)
  case 0
  then obtain m where "n = Suc m" by (cases n) auto
  with 0 show ?case by (auto simp: acquire_free quiet_def)
next
  case (Suc k)
  then obtain m where n: "n = Suc m" by (cases n) auto
  have lf: "lock_free (ProcLock p) s" using Suc.prems(1) by (simp add: quiet_def)
  have "p_state (procs s p) \<noteq> UNUSED" using Suc.prems(3) by simp
  then have "allocproc_loop p n s =
      bnd (acquire (ProcLock p) s) (\<lambda>_ s. bnd (release (ProcLock p) s) (\<lambda>_ s. allocproc_loop (Suc p) m s))"
    using lf n by (simp add: acquire_free)
  also have "\<dots> = allocproc_loop (Suc p) m (note_intena s)"
    by (rule bracket_then [OF lf intr_ok_quiet [OF Suc.prems(1)] lock_neutral_id])
  finally have eq: "allocproc_loop p n s = allocproc_loop (Suc p) m (note_intena s)" .
  have "\<exists>s'. allocproc_loop (Suc p) m (note_intena s) = Ok (Some (Suc p + k)) (enter (ProcLock (Suc p + k)) s') \<and>
      (s' = note_intena s \<or> s' = note_intena (note_intena s))"
    using Suc.prems n by (intro Suc.IH) simp_all
  with eq show ?case by auto
qed

lemma allocproc_ok:
  assumes "quiet s" and "p < NPROC" and "p_state (procs s p) = UNUSED" and "\<forall>q<p. p_state (procs s q) \<noteq> UNUSED"
    and "kmem_ready kend ps s" and "6 < length ps"
  shows "\<exists>t. allocproc kend tr fr s = Ok (Some p) t"
proof -
  from allocproc_loop_found [of s 0 p NPROC] assms(1-4) obtain s' where
    l: "allocproc_loop 0 NPROC s = Ok (Some p) (enter (ProcLock p) s')" "s' = s \<or> s' = note_intena s" by auto
  let ?e = "enter (ProcLock p) s'"
  have q: "quiet s'" and k': "kmem_ready kend ps s'"
    using l(2) assms(1,5) by (auto simp: kmem_ready_def)
  have k: "kmem_ready kend ps ?e" by (rule kmem_ready_enter [OF k' _ q]) simp
  have pid: "lock_free PidLock ?e" using q by (simp add: quiet_def lock_free_def enter_def)
  have i: "intr_ok ?e" using k by (simp add: kmem_ready_def)
  let ?s1 = "(note_intena ?e)\<lparr>nextpid := nextpid ?e + 1\<rparr>"
  let ?s2 = "set_proc p (\<lambda>q. q\<lparr>p_pid := nextpid ?e\<rparr>) ?s1"
  have "kmem_ready kend ps ?s1"
    using k by (simp add: kmem_ready_def kmem_inv_def lock_free_def intr_ok_def cpu_defs note_intena_def)
  then have k2: "kmem_ready kend ps ?s2" by simp
  obtain tf c qs where ps: "ps = tf # c # qs" and len: "4 < length qs"
    using assms(6) by (cases ps; cases "tl ps") auto
  from kmem.alloc_some [OF k2 [unfolded ps]] obtain u where
    u: "kalloc ?s2 = Ok tf u" "kmem_ready kend (c # qs) u" by blast
  have tf: "tf \<noteq> 0" using kmem.avail_ok [OF k2 [unfolded ps]] kmem.ok_nonzero by auto
  have c: "c \<noteq> 0" using kmem.avail_ok [OF u(2)] kmem.ok_nonzero by auto
  let ?s3 = "set_proc p (\<lambda>q. q\<lparr>p_trapframe := tf\<rparr>) u"
  have k3: "kmem_ready kend (c # qs) ?s3" using u(2) by simp
  from proc_pagetable_ok [OF k3 len] obtain v where v: "proc_pagetable kend tr p ?s3 = Ok c v" by blast
  have "\<exists>t. allocproc_found kend tr fr p ?e = Ok (Some p) t"
    unfolding allocproc_found_def allocpid_eq [OF pid i] using u(1) tf v c by simp
  with l(1) show ?thesis by (simp add: allocproc_def)
qed

section \<open>A machine with a few free pages\<close>

fun link :: "u64 list \<Rightarrow> (u64 \<Rightarrow> byte)" where
  "link [] = (\<lambda>_. 0)"
| "link (p # ps) = store64 (link ps) p (case ps of [] \<Rightarrow> 0 | q # _ \<Rightarrow> q)"

lemma flist_link:
  assumes "\<forall>p\<in>set ps. page_ok kend p" and "distinct ps"
  shows "flist (link ps) (case ps of [] \<Rightarrow> 0 | q # _ \<Rightarrow> q) ps"
  using assms
proof (induction ps)
  case (Cons p ps)
  let ?h = "case ps of [] \<Rightarrow> 0 | q # _ \<Rightarrow> q"
  have al: "aligned8 q" if "q = p \<or> q \<in> set ps" for q
    using Cons.prems(1) that by (auto simp: page_ok_def intro: page_aligned_aligned8)
  have "flist (link ps) ?h ps" using Cons by simp
  then have "flist (store64 (link ps) p ?h) ?h ps"
    using Cons.prems(2) al by (elim flist_cong) (metis distinct.simps(2) load64_store64_other)
  then show ?case using Cons.prems(1) by (simp add: page_ok_def)
qed simp

definition few_pages :: "u64 list" where
  "few_pages = [0x80001000, 0x80002000, 0x80003000, 0x80004000, 0x80005000, 0x80006000, 0x80007000]"

definition few :: mach where
  "few = mach0\<lparr>pmem := link few_pages, freelist := 0x80001000\<rparr>"

lemma few_ok: "kmem_ready 0x80000000 few_pages few" "quiet few"
proof -
  have ok: "\<forall>p\<in>set few_pages. page_ok 0x80000000 p" and "distinct few_pages"
    by (simp_all add: few_pages_def page_ok_def page_aligned_def PGSIZE_def PHYSTOP_def KERNBASE_def)
  with flist_link [OF this] show "kmem_ready 0x80000000 few_pages few"
    by (simp add: kmem_ready_def kmem_inv_def few_def lock_free_def intr_ok_def cpu_defs)
      (simp add: few_pages_def mach0_def)
  show "quiet few" by (simp add: quiet_def lock_free_def few_def mach0_def)
qed

section \<open>Properties\<close>

text \<open>C21: proc_pagetable, with at least six free pages, returns an address space in which the
  trampoline page is mapped to the trampoline code, readable and executable, the page below it to the
  process's trapframe, readable and writable, neither of them accessible to user code, and no
  other address below MAXVA is mapped.\<close>

theorem proc_pagetable_maps:
  assumes "kmem_ready kend (c # ps) s" and "4 < length ps"
  shows "\<exists>t ps'. proc_pagetable kend trampoline p s = Ok c t \<and> vm_inv kend c ps' t \<and>
    (\<forall>w<MAXVA. pte_at (pmem t) c w =
       (if PGROUNDDOWN w = TRAMPOLINE then PA2PTE trampoline OR (PTE_R OR PTE_X) OR PTE_V
        else if PGROUNDDOWN w = TRAPFRAME then PA2PTE (p_trapframe (procs s p)) OR (PTE_R OR PTE_W) OR PTE_V
        else 0))"
  by (rule proc_pagetable_ok [OF assms])

theorem proc_pagetable_maps_witness:
  "\<exists>t. proc_pagetable 0x80000000 0x80008000 0 few = Ok 0x80001000 t \<and> pte_at (pmem t) 0x80001000 0 = 0"
proof -
  have k: "kmem_ready 0x80000000 (0x80001000 # tl few_pages) few" using few_ok(1) by (simp add: few_pages_def)
  have l: "4 < length (tl few_pages)" by (simp add: few_pages_def)
  have "0 < MAXVA" "PGROUNDDOWN 0 \<noteq> TRAMPOLINE" "PGROUNDDOWN 0 \<noteq> TRAPFRAME"
    by (simp_all add: MAXVA_def PGROUNDDOWN_def TRAMPOLINE_def TRAPFRAME_def PGSIZE_def)
  with proc_pagetable_maps [OF k l, of "0x80008000" 0] show ?thesis by auto
qed

text \<open>C11: allocproc succeeds whenever the table has an UNUSED slot and at least seven pages are free.
  The slot it returns is the first UNUSED one; it has the next pid, a trapframe, a page table and a
  context that starts at forkret on the slot's own kernel stack; every other slot is unchanged. Its
  killed flag is what it was, so a slot killed while it was free gives a process that is born
  killed.\<close>

theorem allocproc_correct:
  assumes "quiet s" and "p < NPROC" and "p_state (procs s p) = UNUSED" and "\<forall>q<p. p_state (procs s q) \<noteq> UNUSED"
    and "kmem_ready kend ps s" and "6 < length ps"
  shows "\<exists>t. allocproc kend trampoline forkret_addr s = Ok (Some p) t \<and>
    nextpid t = nextpid s + 1 \<and> p_pid (procs t p) = nextpid s \<and> p_trapframe (procs t p) \<noteq> 0 \<and>
    p_pagetable (procs t p) \<noteq> 0 \<and> ctx_ra (p_context (procs t p)) = forkret_addr \<and>
    ctx_sp (p_context (procs t p)) = p_kstack (procs s p) + PGSIZE \<and>
    p_killed (procs t p) = p_killed (procs s p) \<and> (\<forall>q. q \<noteq> p \<longrightarrow> procs t q = procs s q)"
proof -
  from allocproc_ok [OF assms] obtain t where t: "allocproc kend trampoline forkret_addr s = Ok (Some p) t" by blast
  from allocproc_Ok [OF t] t show ?thesis by auto
qed

theorem allocproc_correct_witness:
  "\<exists>t. allocproc 0x80000000 0x80008000 0x80000400 few = Ok (Some 0) t \<and> p_pid (procs t 0) = 1"
proof -
  have "0 < NPROC" "p_state (procs few 0) = UNUSED" "\<forall>q<0. p_state (procs few q) \<noteq> UNUSED" "6 < length few_pages"
    "nextpid few = 1"
    by (simp_all add: NPROC_def few_def mach0_def proc0_def few_pages_def)
  with allocproc_correct [OF few_ok(2) this(1,2,3) few_ok(1) this(4)] show ?thesis by fastforce
qed

text \<open>C31: kill of pid 0 reports success although no process has that pid: it finds the first free
  slot, whose pid is 0, and marks it killed; the next process allocated in that slot starts
  with its killed flag set and will exit at its first trap.\<close>

theorem kill_zero_marks_free_slot:
  assumes "quiet s" and "p < NPROC" and "p_state (procs s p) = UNUSED" and "p_pid (procs s p) = 0"
    and "\<forall>q<p. p_state (procs s q) \<noteq> UNUSED \<and> p_pid (procs s q) \<noteq> 0"
    and "kmem_ready kend ps s" and "6 < length ps"
  shows "\<exists>t u. kill 0 s = Ok 0 t \<and> p_state (procs t p) = UNUSED \<and>
    allocproc kend trampoline forkret_addr t = Ok (Some p) u \<and> p_killed (procs u p)"
proof -
  let ?t = "(note_intena s)\<lparr>procs := (procs s)(p := killed (procs s p))\<rparr>"
  have "procs_free s" using assms(1) by (simp add: procs_free_def quiet_def)
  then have k: "kill 0 s = Ok 0 ?t"
    using assms(2,4,5) by (intro kill_found intr_ok_quiet [OF assms(1)]) auto
  have "quiet ?t" using assms(1) by (simp add: quiet_def)
  moreover have "kmem_ready kend ps ?t"
    using assms(6) by (simp add: kmem_ready_def kmem_inv_def)
  moreover have st: "p_state (procs ?t p) = UNUSED" "p_killed (procs ?t p)" using assms(3) by (simp_all add: killed_def)
  moreover have "\<forall>q<p. p_state (procs ?t q) \<noteq> UNUSED" using assms(5) by simp
  ultimately obtain u where u: "allocproc kend trampoline forkret_addr ?t = Ok (Some p) u"
    using allocproc_ok [of ?t p kend ps] assms(2,7) by blast
  from allocproc_Ok [OF u] st have "p_killed (procs u p)" by auto
  with k u st show ?thesis by blast
qed

theorem kill_zero_marks_free_slot_witness:
  "\<exists>t u. kill 0 few = Ok 0 t \<and> allocproc 0x80000000 0x80008000 0x80000400 t = Ok (Some 0) u \<and> p_killed (procs u 0)"
proof -
  have "0 < NPROC" "p_state (procs few 0) = UNUSED" "p_pid (procs few 0) = 0"
    "\<forall>q<0. p_state (procs few q) \<noteq> UNUSED \<and> p_pid (procs few q) \<noteq> 0" "6 < length few_pages"
    by (simp_all add: NPROC_def few_def mach0_def proc0_def few_pages_def)
  from kill_zero_marks_free_slot [OF few_ok(2) this(1-4) few_ok(1) this(5)] show ?thesis by blast
qed

end
