(* ===== verification/Sleeplock.thy ===== *)
theory Sleeplock
  imports Proc_Sched
begin

text \<open>
  sleeplock.c: locks a process may hold while it sleeps. The table of sleep locks extends
  the machine state; each one is guarded by its own spin lock. A process that finds the lock
  taken ends in the outcome \<open>Sched\<close>, and when it runs again goes on in \<open>acquiresleep_resume\<close>.

  The second half reads the locks away for a process that runs undisturbed: in a \<open>calm\<close>
  state (no spin lock is held and the hart runs a process) every operation that only takes and
  gives back locks leaves a state that is the \<open>same_mach\<close>, up to the recorded interrupt bit
  and to processes it has woken.
\<close>

record smach = mach +
  slocks :: "sleepid \<Rightarrow> sleeplock"

definition initsleeplock :: "sleepid \<Rightarrow> string \<Rightarrow> 'z smach_scheme \<Rightarrow> 'z smach_scheme" where
  "initsleeplock lk name s =
     (let s = initlock (SleepLk lk) ''sleep lock'' s
      in s\<lparr>slocks := (slocks s)(lk := \<lparr>sl_locked = False, sl_name = name, sl_pid = 0\<rparr>)\<rparr>)"

text \<open>The body of acquiresleep, entered with the spin lock held: at the call and after each wake-up.\<close>

definition acquiresleep_loop :: "sleepid \<Rightarrow> 'z smach_scheme \<Rightarrow> ('z smach_scheme, unit) res" where
  "acquiresleep_loop lk s =
     (if sl_locked (slocks s lk) then sleep (SleepChan lk) (SleepLk lk) s
      else
        (let s = s\<lparr>slocks := (slocks s)(lk := (slocks s lk)\<lparr>sl_locked := True\<rparr>)\<rparr>
         in bnd (myproc s) (\<lambda>cur s. case cur of
              None \<Rightarrow> Panic ''kerneltrap''
            | Some p \<Rightarrow>
                release (SleepLk lk)
                  (s\<lparr>slocks := (slocks s)(lk := (slocks s lk)\<lparr>sl_pid := p_pid (procs s p)\<rparr>)\<rparr>))))"

definition acquiresleep :: "sleepid \<Rightarrow> 'z smach_scheme \<Rightarrow> ('z smach_scheme, unit) res" where
  "acquiresleep lk s = bnd (acquire (SleepLk lk) s) (\<lambda>_ s. acquiresleep_loop lk s)"

definition acquiresleep_resume ::
    "nat \<Rightarrow> sleepid \<Rightarrow> bool \<Rightarrow> 'z smach_scheme \<Rightarrow> ('z smach_scheme, unit) res" where
  "acquiresleep_resume p lk saved s =
     bnd (sleep_resume p (SleepLk lk) saved s) (\<lambda>_ s. acquiresleep_loop lk s)"

definition releasesleep :: "sleepid \<Rightarrow> 'z smach_scheme \<Rightarrow> ('z smach_scheme, unit) res" where
  "releasesleep lk s =
     bnd (acquire (SleepLk lk) s) (\<lambda>_ s.
       let s = s\<lparr>slocks := (slocks s)(lk := (slocks s lk)\<lparr>sl_locked := False, sl_pid := 0\<rparr>)\<rparr>
       in bnd (wakeup (SleepChan lk) s) (\<lambda>_ s. release (SleepLk lk) s))"

definition holdingsleep :: "sleepid \<Rightarrow> 'z smach_scheme \<Rightarrow> ('z smach_scheme, bool) res" where
  "holdingsleep lk s =
     bnd (acquire (SleepLk lk) s) (\<lambda>_ s.
     bnd (if sl_locked (slocks s lk)
          then bnd (myproc s) (\<lambda>cur s. case cur of
                 None \<Rightarrow> Panic ''kerneltrap''
               | Some p \<Rightarrow> Ok (sl_pid (slocks s lk) = p_pid (procs s p)) s)
          else Ok False s) (\<lambda>r s.
     bnd (release (SleepLk lk) s) (\<lambda>_ s. Ok r s)))"

section \<open>Undisturbed runs\<close>

text \<open>The hart runs process p, holds no spin lock, and neither does any other hart.\<close>

definition calm :: "nat \<Rightarrow> 'z mach_scheme \<Rightarrow> bool" where
  "calm p s \<longleftrightarrow> cpu_proc (mycpu s) = Some p \<and> intr_ok s \<and> (\<forall>lk. lock_free lk s)"

text \<open>Processes may have been woken and the interrupt bit noted; nothing else has changed.\<close>

definition same_mach :: "'y mach_scheme \<Rightarrow> 'z mach_scheme \<Rightarrow> bool" where
  "same_mach s t \<longleftrightarrow> tp t = tp s \<and> sie t = sie s \<and> csr t = csr s \<and> locks t = locks s \<and>
     nextpid t = nextpid s \<and> initproc t = initproc s \<and> pmem t = pmem s \<and> freelist t = freelist s \<and>
     kernel_pagetable t = kernel_pagetable s \<and> ticks t = ticks s \<and>
     (\<forall>h. (cpus t h)\<lparr>intena := False\<rparr> = (cpus s h)\<lparr>intena := False\<rparr>) \<and>
     (\<forall>q. (procs t q)\<lparr>p_state := UNUSED\<rparr> = (procs s q)\<lparr>p_state := UNUSED\<rparr>)"

lemma same_machI [intro]: "same_mach s s"
  by (simp add: same_mach_def)

lemma same_mach_trans [trans]: "same_mach s t \<Longrightarrow> same_mach t u \<Longrightarrow> same_mach s u"
  by (simp add: same_mach_def)

lemma cpu_up_to_intena:
  "c\<lparr>intena := False\<rparr> = d\<lparr>intena := False\<rparr> \<Longrightarrow> cpu_proc c = cpu_proc d \<and> noff c = noff d"
  by (metis cpu.ext_inject cpu.surjective cpu.update_convs(4))

lemma proc_up_to_state:
  assumes "q\<lparr>p_state := UNUSED\<rparr> = r\<lparr>p_state := UNUSED\<rparr>"
  shows "p_pid q = p_pid r \<and> p_pagetable q = p_pagetable r \<and> p_ofile q = p_ofile r \<and> p_cwd q = p_cwd r \<and>
    p_sz q = p_sz r \<and> p_trapframe q = p_trapframe r \<and> p_killed q = p_killed r \<and> p_parent q = p_parent r \<and>
    p_name q = p_name r"
  using assms by (cases q, cases r) simp

lemma same_mach_proc:
  assumes "same_mach s t"
  shows "p_pid (procs t q) = p_pid (procs s q)" "p_pagetable (procs t q) = p_pagetable (procs s q)"
    "p_ofile (procs t q) = p_ofile (procs s q)" "p_cwd (procs t q) = p_cwd (procs s q)"
    "p_sz (procs t q) = p_sz (procs s q)" "p_trapframe (procs t q) = p_trapframe (procs s q)"
    "p_killed (procs t q) = p_killed (procs s q)"
  using assms proc_up_to_state [of "procs t q" "procs s q"] by (simp_all add: same_mach_def)

lemma calm_same:
  assumes "calm p s" and "same_mach s t"
  shows "calm p t"
proof -
  have "tp t = tp s" "sie t = sie s" "locks t = locks s"
    and c: "(cpus t (tp s))\<lparr>intena := False\<rparr> = (cpus s (tp s))\<lparr>intena := False\<rparr>"
    using assms(2) by (simp_all add: same_mach_def)
  with assms(1) cpu_up_to_intena [OF c] show ?thesis
    by (simp add: calm_def intr_ok_def lock_free_def mycpu_def cpuid_def)
qed

lemma calmD:
  assumes "calm p s"
  shows "cpu_proc (mycpu s) = Some p" "intr_ok s" "lock_free lk s" "procs_free s"
  using assms by (simp_all add: calm_def procs_free_def)

lemma same_mach_note_intena [intro]: "same_mach s (note_intena s)"
  by (simp add: same_mach_def) (simp add: note_intena_def set_mycpu_def mycpu_def)

lemma same_mach_woken:
  "same_mach s (s\<lparr>procs := (\<lambda>q. if q < NPROC then woken ch (procs s q) else procs s q)\<rparr>)"
  by (simp add: same_mach_def woken_def)

text \<open>Leaving a critical section whose body has kept the hart, its interrupt state and the locks.\<close>

lemma release_same:
  assumes "lock_free lk s" and "intr_ok s" and "same_mach (enter lk s) u" and "cpus u = cpus (enter lk s)"
  shows "\<exists>t. release lk u = Ok () t \<and> same_mach s t \<and> mach.more t = mach.more u"
proof -
  have u: "tp u = tp s" "\<not> sie u" "locks u = locks (enter lk s)"
    using assms(3) by (simp_all add: same_mach_def)
  let ?t = "u\<lparr>sie := sie s, cpus := cpus (note_intena s), locks := locks s\<rparr>"
  have "release lk u = Ok () ?t"
    by (rule release_enter [OF assms(1,2) u assms(4)])
  moreover have "same_mach s (note_intena s)" ..
  with assms(3) have "same_mach s ?t"
    by (simp add: same_mach_def)
  ultimately show ?thesis by simp
qed

lemma noff_enter: "noff (mycpu (enter lk s)) = noff (mycpu s) + 1"
  by (simp add: enter_def noff_push_off) (simp add: push_off_def cpu_defs Let_def)

lemma enter_ok:
  assumes "calm p s"
  shows "intr_ok (enter lk s)" "note_intena (enter lk s) = enter lk s"
    "cpu_proc (mycpu (enter lk s)) = Some p" "lk' \<noteq> lk \<Longrightarrow> lock_free lk' (enter lk s)"
proof -
  have "0 \<le> noff (mycpu s)" using calmD(2) [OF assms] by (simp add: intr_ok_def)
  then show "intr_ok (enter lk s)" "note_intena (enter lk s) = enter lk s"
    by (simp_all add: intr_ok_def note_intena_def noff_enter)
  show "cpu_proc (mycpu (enter lk s)) = Some p"
    using calmD(1) [OF assms] by (simp add: enter_def push_off_def cpu_defs Let_def)
  show "lk' \<noteq> lk \<Longrightarrow> lock_free lk' (enter lk s)"
    using calmD(3) [OF assms] by (simp add: lock_free_def enter_def)
qed

section \<open>Sleep locks in an undisturbed run\<close>

lemma more_smach:
  fixes s :: "'y smach_scheme" and t :: "'y smach_scheme"
  shows "mach.more t = mach.more s \<Longrightarrow> slocks t = slocks s \<and> smach.more t = smach.more s"
  by (cases s, cases t) simp

lemma slocks_update_simps [simp]:
  "intr_ok (s\<lparr>slocks := x\<rparr>) = intr_ok s" "mycpu (s\<lparr>slocks := x\<rparr>) = mycpu s"
  "note_intena (s\<lparr>slocks := x\<rparr>) = (note_intena s)\<lparr>slocks := x\<rparr>"
  "lock_free lk (s\<lparr>slocks := x\<rparr>) = lock_free lk s" "procs_free (s\<lparr>slocks := x\<rparr>) = procs_free s"
  "same_mach u (s\<lparr>slocks := x\<rparr>) = same_mach u s"
  by (simp_all add: intr_ok_def cpu_defs note_intena_def lock_free_def procs_free_def same_mach_def)

lemma slocks_enter [simp]: "slocks (enter lk s) = slocks s" "smach.more (enter lk s) = smach.more s"
  by (simp_all add: enter_def push_off_def cpu_defs Let_def)

lemma slocks_note_intena [simp]:
  "slocks (note_intena s) = slocks s" "smach.more (note_intena s) = smach.more s"
  by (simp_all add: note_intena_def cpu_defs)

text \<open>The end of a critical section that has only written sleep locks.\<close>

lemma release_slocks:
  fixes s :: "'z smach_scheme" and u :: "'z smach_scheme"
  assumes "calm p s" and "same_mach (enter lk s) u" and "cpus u = cpus (enter lk s)"
  shows "\<exists>t. release lk u = Ok () t \<and> same_mach s t \<and> slocks t = slocks u \<and> smach.more t = smach.more u"
  using release_same [OF calmD(3) [OF assms(1)] calmD(2) [OF assms(1)] assms(2,3)] more_smach by blast

lemma acquiresleep_free:
  fixes s :: "'z smach_scheme"
  assumes "calm p s" and "\<not> sl_locked (slocks s lk)"
  shows "\<exists>t. acquiresleep lk s = Ok () t \<and> same_mach s t \<and> smach.more t = smach.more s \<and>
    slocks t = (slocks s)(lk := (slocks s lk)\<lparr>sl_locked := True, sl_pid := p_pid (procs s p)\<rparr>)"
proof -
  note e = enter_ok [OF assms(1), of "SleepLk lk"]
  let ?u = "(enter (SleepLk lk) s)\<lparr>slocks := (slocks s)(lk := (slocks s lk)\<lparr>sl_locked := True, sl_pid := p_pid (procs s p)\<rparr>)\<rparr>"
  have "acquiresleep lk s = release (SleepLk lk) ?u"
    using assms(2) e
    by (simp add: acquiresleep_def acquire_free calmD(3) [OF assms(1)] acquiresleep_loop_def Let_def myproc_eq)
  with release_slocks [OF assms(1), of "SleepLk lk" ?u] show ?thesis by auto
qed

lemma wakeup_enter:
  fixes s :: "'z mach_scheme" and u :: "'z mach_scheme"
  assumes "calm p s" and "same_mach (enter lk s) u" and "cpus u = cpus (enter lk s)"
    and "\<And>q. lk \<noteq> ProcLock q"
  shows "\<exists>t. wakeup ch u = Ok () t \<and> same_mach (enter lk s) t \<and> cpus t = cpus (enter lk s) \<and>
    mach.more t = mach.more u"
proof -
  have u: "tp u = tp s" "sie u = sie (enter lk s)" "locks u = locks (enter lk s)"
    using assms(2) by (simp_all add: same_mach_def)
  have mc: "mycpu u = mycpu (enter lk s)" by (simp add: mycpu_def cpuid_def u assms(3))
  have i: "intr_ok u" using enter_ok(1) [OF assms(1), of lk] by (simp add: intr_ok_def mc u)
  have f: "procs_free u"
    using enter_ok(4) [OF assms(1) assms(4) [symmetric]] by (simp add: procs_free_def lock_free_def u)
  have n: "note_intena u = u"
    using calmD(2) [OF assms(1)] by (simp add: note_intena_def mc noff_enter intr_ok_def)
  let ?t = "u\<lparr>procs := (\<lambda>q. if q < NPROC then woken ch (procs u q) else procs u q)\<rparr>"
  have "wakeup ch u = Ok () ?t" using wakeup_eq [OF f i] by (simp add: n)
  moreover have "same_mach (enter lk s) ?t"
    using assms(2) same_mach_woken [of u ch] by (rule same_mach_trans)
  ultimately show ?thesis using assms(3) by simp
qed

lemma releasesleep_ok:
  fixes s :: "'z smach_scheme"
  assumes "calm p s"
  shows "\<exists>t. releasesleep lk s = Ok () t \<and> same_mach s t \<and> smach.more t = smach.more s \<and>
    slocks t = (slocks s)(lk := (slocks s lk)\<lparr>sl_locked := False, sl_pid := 0\<rparr>)"
proof -
  let ?u = "(enter (SleepLk lk) s)\<lparr>slocks := (slocks s)(lk := (slocks s lk)\<lparr>sl_locked := False, sl_pid := 0\<rparr>)\<rparr>"
  obtain v where v: "wakeup (SleepChan lk) ?u = Ok () v" "same_mach (enter (SleepLk lk) s) v"
      "cpus v = cpus (enter (SleepLk lk) s)" "mach.more v = mach.more ?u"
    using wakeup_enter [OF assms, of "SleepLk lk" ?u "SleepChan lk"] by auto
  have "releasesleep lk s = release (SleepLk lk) v"
    by (simp add: releasesleep_def acquire_free calmD(3) [OF assms] Let_def v(1))
  moreover have "slocks v = slocks ?u \<and> smach.more v = smach.more ?u"
    by (rule more_smach [OF v(4)])
  ultimately show ?thesis using release_slocks [OF assms v(2,3)] by auto
qed

lemma holdingsleep_ok:
  fixes s :: "'z smach_scheme"
  assumes "calm p s"
  shows "\<exists>t. holdingsleep lk s = Ok (sl_locked (slocks s lk) \<and> sl_pid (slocks s lk) = p_pid (procs s p)) t \<and>
    same_mach s t \<and> slocks t = slocks s \<and> smach.more t = smach.more s"
proof -
  note e = enter_ok [OF assms, of "SleepLk lk"]
  obtain t where t: "release (SleepLk lk) (enter (SleepLk lk) s) = Ok () t" "same_mach s t"
      "slocks t = slocks s" "smach.more t = smach.more s"
    using release_slocks [OF assms, of "SleepLk lk" "enter (SleepLk lk) s"] by auto
  then show ?thesis
    using e by (auto simp: holdingsleep_def acquire_free calmD(3) [OF assms] myproc_eq)
qed

end
