(* ===== verification/Bio.thy ===== *)
theory Bio
  imports Sleeplock
begin

text \<open>
  bio.c: the buffer cache. Buffers are numbered 0 to NBUF - 1 and the list head is number NBUF;
  \<open>b_prev\<close> and \<open>b_next\<close> are the pointers of the doubly linked list, most recently used first.
  The walks along the list carry a bound of NBUF + 1 steps, enough for every list of the cache.

  A disk transfer is seen here as completed: \<open>disk_rw\<close> is the effect of virtio_disk_rw between its
  call and its return, with the order of the writes kept in \<open>dhist\<close> (latest first). The driver that
  brings this effect about is modelled in theory Virtio.
\<close>

definition BSIZE :: nat where "BSIZE = 1024"

record buf =
  b_valid :: bool
  b_disk :: bool
  b_dev :: u32
  b_blockno :: u32
  b_refcnt :: u32
  b_prev :: nat
  b_next :: nat
  b_data :: "byte list"

text \<open>
  The shared state of the disk driver (virtio.h, virtio_disk.c). What a descriptor's address points to
  is one of the three parts of a request: the header with type and sector, the data of a buffer, or the
  status byte of a slot.
\<close>

datatype daddr = DNull | DHeader u32 u64 | DData nat | DStatus nat

record VRingDesc =
  vd_addr :: daddr
  vd_len :: u32
  vd_flags :: u16
  vd_next :: nat

record vdisk =
  d_desc :: "nat \<Rightarrow> VRingDesc"
  d_avail_idx :: u16
  d_avail_ring :: "nat \<Rightarrow> nat"
  d_used_id :: u16
  d_used_elems :: "nat \<Rightarrow> nat"
  d_free :: "nat \<Rightarrow> bool"
  d_used_idx :: u16
  d_info_b :: "nat \<Rightarrow> nat option"
  d_info_status :: "nat \<Rightarrow> byte"
  d_writes :: "(nat \<times> u32) list"

record bmach = smach +
  bufs :: "nat \<Rightarrow> buf"
  disk :: "nat \<Rightarrow> byte list"
  dhist :: "(nat \<times> byte list) list"
  vd :: vdisk

definition bhead :: nat where "bhead = NBUF"

definition set_buf :: "nat \<Rightarrow> (buf \<Rightarrow> buf) \<Rightarrow> 'z bmach_scheme \<Rightarrow> 'z bmach_scheme" where
  "set_buf b f s = s\<lparr>bufs := (bufs s)(b := f (bufs s b))\<rparr>"

text \<open>The block that a transfer of the buffer addresses: the sector number is computed in 32 bits.\<close>

definition disk_block :: "buf \<Rightarrow> nat" where
  "disk_block b = unat (b_blockno b * of_nat (BSIZE div 512)) div (BSIZE div 512)"

definition disk_rw :: "nat \<Rightarrow> bool \<Rightarrow> 'z bmach_scheme \<Rightarrow> 'z bmach_scheme" where
  "disk_rw b write s =
     (let n = disk_block (bufs s b)
      in if write
         then s\<lparr>disk := (disk s)(n := b_data (bufs s b)), dhist := (n, b_data (bufs s b)) # dhist s\<rparr>
         else set_buf b (\<lambda>x. x\<lparr>b_data := disk s n\<rparr>) s)"

section \<open>The list of buffers\<close>

text \<open>\<open>b->next = head.next; b->prev = &head; head.next->prev = b; head.next = b\<close>\<close>

definition push_front :: "nat \<Rightarrow> 'z bmach_scheme \<Rightarrow> 'z bmach_scheme" where
  "push_front b s =
     (let s = set_buf b (\<lambda>x. x\<lparr>b_next := b_next (bufs s bhead)\<rparr>) s;
          s = set_buf b (\<lambda>x. x\<lparr>b_prev := bhead\<rparr>) s;
          s = set_buf (b_next (bufs s bhead)) (\<lambda>x. x\<lparr>b_prev := b\<rparr>) s
      in set_buf bhead (\<lambda>x. x\<lparr>b_next := b\<rparr>) s)"

definition unlink_buf :: "nat \<Rightarrow> 'z bmach_scheme \<Rightarrow> 'z bmach_scheme" where
  "unlink_buf b s =
     (let s = set_buf (b_next (bufs s b)) (\<lambda>x. x\<lparr>b_prev := b_prev (bufs s b)\<rparr>) s
      in set_buf (b_prev (bufs s b)) (\<lambda>x. x\<lparr>b_next := b_next (bufs s b)\<rparr>) s)"

fun binit_loop :: "nat \<Rightarrow> nat \<Rightarrow> 'z bmach_scheme \<Rightarrow> 'z bmach_scheme" where
  "binit_loop b 0 s = s"
| "binit_loop b (Suc n) s = binit_loop (Suc b) n (push_front b (initsleeplock (BufLock b) ''buffer'' s))"

definition binit :: "'z bmach_scheme \<Rightarrow> 'z bmach_scheme" where
  "binit s =
     (let s = initlock BcacheLock ''bcache'' s;
          s = set_buf bhead (\<lambda>x. x\<lparr>b_prev := bhead, b_next := bhead\<rparr>) s
      in binit_loop 0 NBUF s)"

text \<open>
  The two searches of bget. The first argument bounds the number of steps; \<open>None\<close> is a walk that
  has not come back to the head, \<open>Some None\<close> one that has.
\<close>

fun bget_cached :: "nat \<Rightarrow> u32 \<Rightarrow> u32 \<Rightarrow> nat \<Rightarrow> (nat \<Rightarrow> buf) \<Rightarrow> nat option option" where
  "bget_cached 0 dev blockno b bf = None"
| "bget_cached (Suc n) dev blockno b bf =
     (if b = bhead then Some None
      else if b_dev (bf b) = dev \<and> b_blockno (bf b) = blockno then Some (Some b)
      else bget_cached n dev blockno (b_next (bf b)) bf)"

fun bget_unused :: "nat \<Rightarrow> nat \<Rightarrow> (nat \<Rightarrow> buf) \<Rightarrow> nat option option" where
  "bget_unused 0 b bf = None"
| "bget_unused (Suc n) b bf =
     (if b = bhead then Some None
      else if b_refcnt (bf b) = 0 then Some (Some b)
      else bget_unused n (b_prev (bf b)) bf)"

definition bget :: "u32 \<Rightarrow> u32 \<Rightarrow> 'z bmach_scheme \<Rightarrow> ('z bmach_scheme, nat) res" where
  "bget dev blockno s =
     bnd (acquire BcacheLock s) (\<lambda>_ s.
     case bget_cached (Suc NBUF) dev blockno (b_next (bufs s bhead)) (bufs s) of
       None \<Rightarrow> Fuel
     | Some (Some b) \<Rightarrow>
         bnd (release BcacheLock (set_buf b (\<lambda>x. x\<lparr>b_refcnt := b_refcnt x + 1\<rparr>) s)) (\<lambda>_ s.
         bnd (acquiresleep (BufLock b) s) (\<lambda>_ s. Ok b s))
     | Some None \<Rightarrow>
         (case bget_unused (Suc NBUF) (b_prev (bufs s bhead)) (bufs s) of
            None \<Rightarrow> Fuel
          | Some None \<Rightarrow> Panic ''bget: no buffers''
          | Some (Some b) \<Rightarrow>
              bnd (release BcacheLock (set_buf b
                (\<lambda>x. x\<lparr>b_dev := dev, b_blockno := blockno, b_valid := False, b_refcnt := 1\<rparr>) s)) (\<lambda>_ s.
              bnd (acquiresleep (BufLock b) s) (\<lambda>_ s. Ok b s))))"

definition bread_fill :: "nat \<Rightarrow> 'z bmach_scheme \<Rightarrow> ('z bmach_scheme, nat) res" where
  "bread_fill b s =
     (if \<not> b_valid (bufs s b)
      then Ok b (set_buf b (\<lambda>x. x\<lparr>b_valid := True\<rparr>) (disk_rw b False s))
      else Ok b s)"

definition bread :: "u32 \<Rightarrow> u32 \<Rightarrow> 'z bmach_scheme \<Rightarrow> ('z bmach_scheme, nat) res" where
  "bread dev blockno s = bnd (bget dev blockno s) (\<lambda>b s. bread_fill b s)"

definition bread_resume :: "nat \<Rightarrow> bool \<Rightarrow> nat \<Rightarrow> 'z bmach_scheme \<Rightarrow> ('z bmach_scheme, nat) res" where
  "bread_resume p saved b s =
     bnd (acquiresleep_resume p (BufLock b) saved s) (\<lambda>_ s. bread_fill b s)"

definition bwrite :: "nat \<Rightarrow> 'z bmach_scheme \<Rightarrow> ('z bmach_scheme, unit) res" where
  "bwrite b s =
     bnd (holdingsleep (BufLock b) s) (\<lambda>h s.
       if \<not> h then Panic ''bwrite'' else Ok () (disk_rw b True s))"

definition brelse :: "nat \<Rightarrow> 'z bmach_scheme \<Rightarrow> ('z bmach_scheme, unit) res" where
  "brelse b s =
     bnd (holdingsleep (BufLock b) s) (\<lambda>h s.
       if \<not> h then Panic ''brelse''
       else
         bnd (releasesleep (BufLock b) s) (\<lambda>_ s.
         bnd (acquire BcacheLock s) (\<lambda>_ s.
         let s = set_buf b (\<lambda>x. x\<lparr>b_refcnt := b_refcnt x - 1\<rparr>) s;
             s = (if b_refcnt (bufs s b) = 0 then push_front b (unlink_buf b s) else s)
         in release BcacheLock s)))"

definition bpin :: "nat \<Rightarrow> 'z bmach_scheme \<Rightarrow> ('z bmach_scheme, unit) res" where
  "bpin b s =
     bnd (acquire BcacheLock s) (\<lambda>_ s.
       release BcacheLock (set_buf b (\<lambda>x. x\<lparr>b_refcnt := b_refcnt x + 1\<rparr>) s))"

definition bunpin :: "nat \<Rightarrow> 'z bmach_scheme \<Rightarrow> ('z bmach_scheme, unit) res" where
  "bunpin b s =
     bnd (acquire BcacheLock s) (\<lambda>_ s.
       release BcacheLock (set_buf b (\<lambda>x. x\<lparr>b_refcnt := b_refcnt x - 1\<rparr>) s))"

end
