(* ===== verification/Log.thy ===== *)
theory Log
  imports Bio
begin

text \<open>
  log.c: the write-ahead log. \<open>lh_block\<close> is the array of LOGSIZE block numbers. A header on disk is
  decoded from the bytes of its block. Indexing an array outside its bounds, which C leaves undefined,
  is the outcome \<open>Panic ''undefined''\<close>: recovery runs into it when the count in the header block is
  larger than LOGSIZE.
\<close>

record logheader =
  lh_n :: int
  lh_block :: "u32 list"

record log =
  log_start :: u32
  log_size :: int
  log_outstanding :: int
  log_committing :: bool
  log_dev :: u32
  log_lh :: logheader

record lmach = bmach +
  lg :: log

definition set_lg :: "(log \<Rightarrow> log) \<Rightarrow> 'z lmach_scheme \<Rightarrow> 'z lmach_scheme" where
  "set_lg f s = s\<lparr>lg := f (lg s)\<rparr>"

definition set_lh :: "(logheader \<Rightarrow> logheader) \<Rightarrow> 'z lmach_scheme \<Rightarrow> 'z lmach_scheme" where
  "set_lh f s = set_lg (\<lambda>l. l\<lparr>log_lh := f (log_lh l)\<rparr>) s"

definition set_data :: "nat \<Rightarrow> byte list \<Rightarrow> 'z bmach_scheme \<Rightarrow> 'z bmach_scheme" where
  "set_data b d s = set_buf b (\<lambda>x. x\<lparr>b_data := d\<rparr>) s"

text \<open>The fields of a header block: the count at offset 0, the block numbers from offset 4.\<close>

definition hb_n :: "byte list \<Rightarrow> int" where
  "hb_n d = sint (le_val (get_slot 4 0 d) :: u32)"

definition hb_block :: "byte list \<Rightarrow> nat \<Rightarrow> u32" where
  "hb_block d i = le_val (get_slot 4 (Suc i) d)"

section \<open>Installing and recovering\<close>

text \<open>\<open>n\<close> counts the log blocks that remain from \<open>tail\<close>.\<close>

fun install_trans_loop :: "nat \<Rightarrow> nat \<Rightarrow> 'z lmach_scheme \<Rightarrow> ('z lmach_scheme, unit) res" where
  "install_trans_loop tail 0 s = Ok () s"
| "install_trans_loop tail (Suc n) s =
     bnd (bread (log_dev (lg s)) (log_start (lg s) + of_nat tail + 1) s) (\<lambda>lbuf s.
     if tail \<ge> LOGSIZE then Panic ''undefined'' else
     bnd (bread (log_dev (lg s)) (lh_block (log_lh (lg s)) ! tail) s) (\<lambda>dbuf s.
     let s = set_data dbuf (b_data (bufs s lbuf)) s in
     bnd (bwrite dbuf s) (\<lambda>_ s.
     bnd (bunpin dbuf s) (\<lambda>_ s.
     bnd (brelse lbuf s) (\<lambda>_ s.
     bnd (brelse dbuf s) (\<lambda>_ s.
     install_trans_loop (Suc tail) n s))))))"

definition install_trans :: "'z lmach_scheme \<Rightarrow> ('z lmach_scheme, unit) res" where
  "install_trans s = install_trans_loop 0 (nat (lh_n (log_lh (lg s)))) s"

fun read_head_loop :: "nat \<Rightarrow> nat \<Rightarrow> nat \<Rightarrow> 'z lmach_scheme \<Rightarrow> ('z lmach_scheme, unit) res" where
  "read_head_loop buf i 0 s = Ok () s"
| "read_head_loop buf i (Suc n) s =
     (if i \<ge> LOGSIZE then Panic ''undefined''
      else read_head_loop buf (Suc i) n
             (set_lh (\<lambda>h. h\<lparr>lh_block := (lh_block h)[i := hb_block (b_data (bufs s buf)) i]\<rparr>) s))"

definition read_head :: "'z lmach_scheme \<Rightarrow> ('z lmach_scheme, unit) res" where
  "read_head s =
     bnd (bread (log_dev (lg s)) (log_start (lg s)) s) (\<lambda>buf s.
     let s = set_lh (\<lambda>h. h\<lparr>lh_n := hb_n (b_data (bufs s buf))\<rparr>) s in
     bnd (read_head_loop buf 0 (nat (lh_n (log_lh (lg s)))) s) (\<lambda>_ s.
     brelse buf s))"

fun write_head_loop :: "nat \<Rightarrow> nat \<Rightarrow> nat \<Rightarrow> 'z lmach_scheme \<Rightarrow> ('z lmach_scheme, unit) res" where
  "write_head_loop buf i 0 s = Ok () s"
| "write_head_loop buf i (Suc n) s =
     (if i \<ge> LOGSIZE then Panic ''undefined''
      else write_head_loop buf (Suc i) n
             (set_data buf (put_slot 4 (Suc i) (le_bytes 4 (lh_block (log_lh (lg s)) ! i)) (b_data (bufs s buf))) s))"

definition write_head :: "'z lmach_scheme \<Rightarrow> ('z lmach_scheme, unit) res" where
  "write_head s =
     bnd (bread (log_dev (lg s)) (log_start (lg s)) s) (\<lambda>buf s.
     let s = set_data buf (put_slot 4 0 (le_bytes 4 (of_int (lh_n (log_lh (lg s))) :: u32)) (b_data (bufs s buf))) s in
     bnd (write_head_loop buf 0 (nat (lh_n (log_lh (lg s)))) s) (\<lambda>_ s.
     bnd (bwrite buf s) (\<lambda>_ s.
     brelse buf s)))"

definition recover_from_log :: "'z lmach_scheme \<Rightarrow> ('z lmach_scheme, unit) res" where
  "recover_from_log s =
     bnd (read_head s) (\<lambda>_ s.
     bnd (install_trans s) (\<lambda>_ s.
     write_head (set_lh (\<lambda>h. h\<lparr>lh_n := 0\<rparr>) s)))"

text \<open>\<open>logstart\<close> and \<open>nlog\<close> are the fields of the superblock that initlog is given.\<close>

definition initlog :: "u32 \<Rightarrow> u32 \<Rightarrow> u32 \<Rightarrow> 'z lmach_scheme \<Rightarrow> ('z lmach_scheme, unit) res" where
  "initlog dev logstart nlog s =
     (if 4 + 4 * LOGSIZE \<ge> BSIZE then Panic ''initlog: too big logheader''
      else
        (let s = initlock LogLock ''log'' s;
             s = set_lg (\<lambda>l. l\<lparr>log_start := logstart, log_size := sint nlog, log_dev := dev\<rparr>) s
         in recover_from_log s))"

section \<open>Transactions\<close>

definition begin_op_loop :: "'z lmach_scheme \<Rightarrow> ('z lmach_scheme, unit) res" where
  "begin_op_loop s =
     (if log_committing (lg s) then sleep LogChan LogLock s
      else if lh_n (log_lh (lg s)) + (log_outstanding (lg s) + 1) * int MAXOPBLOCKS > int LOGSIZE
      then sleep LogChan LogLock s
      else release LogLock (set_lg (\<lambda>l. l\<lparr>log_outstanding := log_outstanding l + 1\<rparr>) s))"

definition begin_op :: "'z lmach_scheme \<Rightarrow> ('z lmach_scheme, unit) res" where
  "begin_op s = bnd (acquire LogLock s) (\<lambda>_ s. begin_op_loop s)"

definition begin_op_resume :: "nat \<Rightarrow> bool \<Rightarrow> 'z lmach_scheme \<Rightarrow> ('z lmach_scheme, unit) res" where
  "begin_op_resume p saved s = bnd (sleep_resume p LogLock saved s) (\<lambda>_ s. begin_op_loop s)"

fun write_log_loop :: "nat \<Rightarrow> nat \<Rightarrow> 'z lmach_scheme \<Rightarrow> ('z lmach_scheme, unit) res" where
  "write_log_loop tail 0 s = Ok () s"
| "write_log_loop tail (Suc n) s =
     bnd (bread (log_dev (lg s)) (log_start (lg s) + of_nat tail + 1) s) (\<lambda>to s.
     if tail \<ge> LOGSIZE then Panic ''undefined'' else
     bnd (bread (log_dev (lg s)) (lh_block (log_lh (lg s)) ! tail) s) (\<lambda>from s.
     let s = set_data to (b_data (bufs s from)) s in
     bnd (bwrite to s) (\<lambda>_ s.
     bnd (brelse from s) (\<lambda>_ s.
     bnd (brelse to s) (\<lambda>_ s.
     write_log_loop (Suc tail) n s)))))"

definition write_log :: "'z lmach_scheme \<Rightarrow> ('z lmach_scheme, unit) res" where
  "write_log s = write_log_loop 0 (nat (lh_n (log_lh (lg s)))) s"

definition commit :: "'z lmach_scheme \<Rightarrow> ('z lmach_scheme, unit) res" where
  "commit s =
     (if lh_n (log_lh (lg s)) > 0 then
        bnd (write_log s) (\<lambda>_ s.
        bnd (write_head s) (\<lambda>_ s.
        bnd (install_trans s) (\<lambda>_ s.
        write_head (set_lh (\<lambda>h. h\<lparr>lh_n := 0\<rparr>) s))))
      else Ok () s)"

definition end_op :: "'z lmach_scheme \<Rightarrow> ('z lmach_scheme, unit) res" where
  "end_op s =
     bnd (acquire LogLock s) (\<lambda>_ s.
     let s = set_lg (\<lambda>l. l\<lparr>log_outstanding := log_outstanding l - 1\<rparr>) s in
     if log_committing (lg s) then Panic ''log.committing''
     else if log_outstanding (lg s) = 0 then
       bnd (release LogLock (set_lg (\<lambda>l. l\<lparr>log_committing := True\<rparr>) s)) (\<lambda>_ s.
       bnd (commit s) (\<lambda>_ s.
       bnd (acquire LogLock s) (\<lambda>_ s.
       let s = set_lg (\<lambda>l. l\<lparr>log_committing := False\<rparr>) s in
       bnd (wakeup LogChan s) (\<lambda>_ s.
       release LogLock s))))
     else
       bnd (wakeup LogChan s) (\<lambda>_ s.
       release LogLock s))"

text \<open>The index at which the search for a logged block number ends.\<close>

fun absorb_index :: "nat \<Rightarrow> nat \<Rightarrow> u32 \<Rightarrow> u32 list \<Rightarrow> nat" where
  "absorb_index i 0 blockno bl = i"
| "absorb_index i (Suc n) blockno bl =
     (if bl ! i = blockno then i else absorb_index (Suc i) n blockno bl)"

definition log_write :: "nat \<Rightarrow> 'z lmach_scheme \<Rightarrow> ('z lmach_scheme, unit) res" where
  "log_write b s =
     (if lh_n (log_lh (lg s)) \<ge> int LOGSIZE \<or> lh_n (log_lh (lg s)) \<ge> log_size (lg s) - 1
      then Panic ''too big a transaction''
      else if log_outstanding (lg s) < 1 then Panic ''log_write outside of trans''
      else
        bnd (acquire LogLock s) (\<lambda>_ s.
        let n = nat (lh_n (log_lh (lg s)));
            i = absorb_index 0 n (b_blockno (bufs s b)) (lh_block (log_lh (lg s)));
            s = set_lh (\<lambda>h. h\<lparr>lh_block := (lh_block h)[i := b_blockno (bufs s b)]\<rparr>) s in
        if i = n then
          bnd (bpin b s) (\<lambda>_ s.
          release LogLock (set_lh (\<lambda>h. h\<lparr>lh_n := lh_n h + 1\<rparr>) s))
        else release LogLock s))"

end
