(* ===== verification/Fs_Layout.thy ===== *)
theory Fs_Layout
  imports Log
begin

text \<open>
  fs.h and stat.h: the structures on disk and their bytes. Every structure is a record with an encoding
  and a decoding that interpret the contract of a fixed-width encoding, so that reading slot j of
  a block after writing slot i is decided by comparing i and j.
\<close>

definition FSMAGIC :: u32 where "FSMAGIC = 0x10203040"
definition ROOTINO :: u32 where "ROOTINO = 1"
definition NDIRECT :: nat where "NDIRECT = 12"
definition NINDIRECT :: nat where "NINDIRECT = BSIZE div 4"
definition MAXFILE :: nat where "MAXFILE = NDIRECT + NINDIRECT"
definition DIRSIZ :: nat where "DIRSIZ = 14"
definition IPB :: nat where "IPB = BSIZE div 64"
definition BPB :: nat where "BPB = BSIZE * 8"
definition T_DIR :: u16 where "T_DIR = 1"
definition T_FILE :: u16 where "T_FILE = 2"
definition T_DEVICE :: u16 where "T_DEVICE = 3"

record superblock =
  sb_magic :: u32
  sb_size :: u32
  sb_nblocks :: u32
  sb_ninodes :: u32
  sb_nlog :: u32
  sb_logstart :: u32
  sb_inodestart :: u32
  sb_bmapstart :: u32

record dinode =
  di_type :: u16
  di_major :: u16
  di_minor :: u16
  di_nlink :: u16
  di_size :: u32
  di_addrs :: "u32 list"

record dirent =
  de_inum :: u16
  de_name :: "byte list"

record stat =
  st_dev :: u32
  st_ino :: u32
  st_type :: u16
  st_nlink :: u16
  st_size :: u64

definition IBLOCK :: "u32 \<Rightarrow> superblock \<Rightarrow> u32" where
  "IBLOCK i sb = i div of_nat IPB + sb_inodestart sb"

definition BBLOCK :: "u32 \<Rightarrow> superblock \<Rightarrow> u32" where
  "BBLOCK b sb = b div of_nat BPB + sb_bmapstart sb"

section \<open>Encodings\<close>

definition u32_at :: "byte list \<Rightarrow> nat \<Rightarrow> u32" where
  "u32_at d i = le_val (get_slot 4 i d)"

definition u16_at :: "byte list \<Rightarrow> nat \<Rightarrow> u16" where
  "u16_at d i = le_val (get_slot 2 i d)"

definition enc_u32s :: "u32 list \<Rightarrow> byte list" where
  "enc_u32s xs = concat (map (le_bytes 4) xs)"

definition enc_superblock :: "superblock \<Rightarrow> byte list" where
  "enc_superblock b = enc_u32s [sb_magic b, sb_size b, sb_nblocks b, sb_ninodes b, sb_nlog b, sb_logstart b,
     sb_inodestart b, sb_bmapstart b]"

definition dec_superblock :: "byte list \<Rightarrow> superblock" where
  "dec_superblock d = \<lparr>sb_magic = u32_at d 0, sb_size = u32_at d 1, sb_nblocks = u32_at d 2,
     sb_ninodes = u32_at d 3, sb_nlog = u32_at d 4, sb_logstart = u32_at d 5, sb_inodestart = u32_at d 6,
     sb_bmapstart = u32_at d 7\<rparr>"

definition enc_dinode :: "dinode \<Rightarrow> byte list" where
  "enc_dinode di = le_bytes 2 (di_type di) @ le_bytes 2 (di_major di) @ le_bytes 2 (di_minor di) @
     le_bytes 2 (di_nlink di) @ le_bytes 4 (di_size di) @ enc_u32s (di_addrs di)"

definition dec_dinode :: "byte list \<Rightarrow> dinode" where
  "dec_dinode d = \<lparr>di_type = u16_at d 0, di_major = u16_at d 1, di_minor = u16_at d 2, di_nlink = u16_at d 3,
     di_size = u32_at d 2, di_addrs = map (\<lambda>i. u32_at d (3 + i)) [0..<NDIRECT + 1]\<rparr>"

definition enc_dirent :: "dirent \<Rightarrow> byte list" where
  "enc_dirent e = le_bytes 2 (de_inum e) @ de_name e"

definition dec_dirent :: "byte list \<Rightarrow> dirent" where
  "dec_dirent d = \<lparr>de_inum = u16_at d 0, de_name = take DIRSIZ (drop 2 d)\<rparr>"

text \<open>The four bytes of padding before the size are whatever the stack held.\<close>

definition enc_stat :: "byte list \<Rightarrow> stat \<Rightarrow> byte list" where
  "enc_stat pad st = le_bytes 4 (st_dev st) @ le_bytes 4 (st_ino st) @ le_bytes 2 (st_type st) @
     le_bytes 2 (st_nlink st) @ take 4 pad @ le_bytes 8 (st_size st)"

definition dinode_ok :: "dinode \<Rightarrow> bool" where
  "dinode_ok di \<longleftrightarrow> length (di_addrs di) = NDIRECT + 1"

definition dirent_ok :: "dirent \<Rightarrow> bool" where
  "dirent_ok e \<longleftrightarrow> length (de_name e) = DIRSIZ"

lemma length_enc_u32s [simp]: "length (enc_u32s xs) = 4 * length xs"
  by (induction xs) (simp_all add: enc_u32s_def)

lemma get_slot_append_right:
  "length a = k * w \<Longrightarrow> get_slot w (k + i) (a @ b) = get_slot w i b"
  by (simp add: get_slot_def add_mult_distrib)

lemma get_slot_append_left:
  "i * w + w \<le> length a \<Longrightarrow> get_slot w i (a @ b) = get_slot w i a"
  by (simp add: get_slot_def)

lemma u32_at_enc_u32s:
  assumes "i < length xs"
  shows "u32_at (enc_u32s xs) i = xs ! i"
  using assms
proof (induction xs arbitrary: i)
  case (Cons x xs)
  show ?case
  proof (cases i)
    case 0
    then show ?thesis by (simp add: u32_at_def enc_u32s_def get_slot_def le_val_le_bytes)
  next
    case (Suc j)
    have "get_slot 4 (1 + j) (le_bytes 4 x @ enc_u32s xs) = get_slot 4 j (enc_u32s xs)"
      by (rule get_slot_append_right) simp
    then show ?thesis using Suc Cons by (simp add: u32_at_def enc_u32s_def)
  qed
qed simp

lemma dec_enc_superblock: "dec_superblock (enc_superblock b) = b"
  by (simp add: dec_superblock_def enc_superblock_def u32_at_enc_u32s)

lemma dec_enc_dirent: "dirent_ok e \<Longrightarrow> dec_dirent (enc_dirent e) = e"
  by (simp add: dec_dirent_def enc_dirent_def u16_at_def get_slot_def dirent_ok_def le_val_le_bytes)

lemma dec_enc_dinode:
  assumes "dinode_ok di"
  shows "dec_dinode (enc_dinode di) = di"
proof -
  let ?h = "le_bytes 2 (di_type di) @ le_bytes 2 (di_major di) @ le_bytes 2 (di_minor di) @
     le_bytes 2 (di_nlink di) @ le_bytes 4 (di_size di)"
  have "u32_at (enc_dinode di) (3 + i) = di_addrs di ! i" if "i < NDIRECT + 1" for i
  proof -
    have "get_slot 4 (3 + i) (?h @ enc_u32s (di_addrs di)) = get_slot 4 i (enc_u32s (di_addrs di))"
      by (rule get_slot_append_right) simp
    then have "u32_at (enc_dinode di) (3 + i) = u32_at (enc_u32s (di_addrs di)) i"
      by (simp add: u32_at_def enc_dinode_def)
    with that assms show ?thesis by (simp add: u32_at_enc_u32s dinode_ok_def)
  qed
  then have "map (\<lambda>i. u32_at (enc_dinode di) (3 + i)) [0..<NDIRECT + 1] = di_addrs di"
    using assms by (intro nth_equalityI) (simp_all add: dinode_ok_def del: upt_Suc)
  then show ?thesis
    by (simp add: dec_dinode_def) (simp add: enc_dinode_def u16_at_def u32_at_def get_slot_def le_val_le_bytes)
qed

lemma length_enc_dinode: "dinode_ok di \<Longrightarrow> length (enc_dinode di) = 64"
  by (simp add: enc_dinode_def dinode_ok_def NDIRECT_def)

lemma length_enc_dirent: "dirent_ok e \<Longrightarrow> length (enc_dirent e) = 16"
  by (simp add: enc_dirent_def dirent_ok_def DIRSIZ_def)

lemma length_enc_superblock: "length (enc_superblock b) = 32"
  by (simp add: enc_superblock_def)

interpretation dinode_c: codec enc_dinode dec_dinode 64 dinode_ok
  by unfold_locales (simp_all add: dec_enc_dinode length_enc_dinode)

interpretation dirent_c: codec enc_dirent dec_dirent 16 dirent_ok
  by unfold_locales (simp_all add: dec_enc_dirent length_enc_dirent)

interpretation superblock_c: codec enc_superblock dec_superblock 32 "\<lambda>_. True"
  by unfold_locales (simp_all add: dec_enc_superblock length_enc_superblock)

end
