(* ===== verification/Fs.thy ===== *)
theory Fs
  imports Fs_Layout Vm_User
begin

text \<open>
  fs.c: blocks, inodes, file contents, directories and path names. Inodes of the cache are
  numbered 0 to NINODE - 1; inode numbers, block numbers, offsets and sizes are 32-bit words, and the
  checks of readi and writei against overflow are made on words. Loops then run over natural numbers.

  A transfer to or from a variable on the kernel stack names no address: its destination is
  \<open>Local\<close>, and the bytes that readi has copied are returned besides the count. A path is the list
  of bytes before its NUL; a name is the string in a buffer of DIRSIZ bytes, up to its NUL if it has
  one.
\<close>

record inode =
  i_dev :: u32
  i_inum :: u32
  i_ref :: int
  i_valid :: bool
  i_type :: u16
  i_major :: u16
  i_minor :: u16
  i_nlink :: u16
  i_size :: u32
  i_addrs :: "u32 list"

record fmach = lmach +
  sb :: superblock
  icache :: "nat \<Rightarrow> inode"

definition set_inode :: "nat \<Rightarrow> (inode \<Rightarrow> inode) \<Rightarrow> 'z fmach_scheme \<Rightarrow> 'z fmach_scheme" where
  "set_inode ip f s = s\<lparr>icache := (icache s)(ip := f (icache s ip))\<rparr>"

text \<open>Writing bytes into a buffer from an offset on.\<close>

definition splice :: "nat \<Rightarrow> 'a list \<Rightarrow> 'a list \<Rightarrow> 'a list" where
  "splice o1 bs d = take o1 d @ bs @ drop (o1 + length bs) d"

section \<open>Blocks\<close>

definition readsb :: "u32 \<Rightarrow> 'z fmach_scheme \<Rightarrow> ('z fmach_scheme, unit) res" where
  "readsb dev s =
     bnd (bread dev 1 s) (\<lambda>bp s.
     brelse bp (s\<lparr>sb := dec_superblock (b_data (bufs s bp))\<rparr>))"

definition fsinit :: "u32 \<Rightarrow> 'z fmach_scheme \<Rightarrow> ('z fmach_scheme, unit) res" where
  "fsinit dev s =
     bnd (readsb dev s) (\<lambda>_ s.
       if sb_magic (sb s) \<noteq> FSMAGIC then Panic ''invalid file system''
       else initlog dev (sb_logstart (sb s)) (sb_nlog (sb s)) s)"

definition bzero :: "u32 \<Rightarrow> u32 \<Rightarrow> 'z fmach_scheme \<Rightarrow> ('z fmach_scheme, unit) res" where
  "bzero dev bno s =
     bnd (bread dev bno s) (\<lambda>bp s.
     bnd (log_write bp (set_data bp (replicate BSIZE 0) s)) (\<lambda>_ s.
     brelse bp s))"

text \<open>The inner loop of balloc: the first clear bit from \<open>bi\<close> on, among \<open>n\<close> bits.\<close>

fun balloc_scan :: "byte list \<Rightarrow> nat \<Rightarrow> nat \<Rightarrow> nat option" where
  "balloc_scan d bi 0 = None"
| "balloc_scan d bi (Suc n) =
     (if d ! (bi div 8) AND push_bit (bi mod 8) 1 = 0 then Some bi else balloc_scan d (Suc bi) n)"

text \<open>The outer loop; \<open>n\<close> counts the bitmap blocks that remain from block number \<open>b\<close> on.\<close>

fun balloc_loop :: "u32 \<Rightarrow> nat \<Rightarrow> nat \<Rightarrow> 'z fmach_scheme \<Rightarrow> ('z fmach_scheme, u32) res" where
  "balloc_loop dev b 0 s = Panic ''balloc: out of blocks''"
| "balloc_loop dev b (Suc n) s =
     bnd (bread dev (BBLOCK (of_nat b) (sb s)) s) (\<lambda>bp s.
     case balloc_scan (b_data (bufs s bp)) 0 (min BPB (unat (sb_size (sb s)) - b)) of
       Some bi \<Rightarrow>
         (let d = b_data (bufs s bp);
              d = d[bi div 8 := d ! (bi div 8) OR push_bit (bi mod 8) 1]
          in bnd (log_write bp (set_data bp d s)) (\<lambda>_ s.
             bnd (brelse bp s) (\<lambda>_ s.
             bnd (bzero dev (of_nat (b + bi)) s) (\<lambda>_ s.
             Ok (of_nat (b + bi)) s))))
     | None \<Rightarrow>
         bnd (brelse bp s) (\<lambda>_ s. balloc_loop dev (b + BPB) n s))"

definition balloc :: "u32 \<Rightarrow> 'z fmach_scheme \<Rightarrow> ('z fmach_scheme, u32) res" where
  "balloc dev s = balloc_loop dev 0 ((unat (sb_size (sb s)) + BPB - 1) div BPB) s"

definition bfree :: "u32 \<Rightarrow> u32 \<Rightarrow> 'z fmach_scheme \<Rightarrow> ('z fmach_scheme, unit) res" where
  "bfree dev b s =
     bnd (bread dev (BBLOCK b (sb s)) s) (\<lambda>bp s.
     let bi = unat b mod BPB;
         m = push_bit (bi mod 8) (1 :: byte);
         d = b_data (bufs s bp)
     in if d ! (bi div 8) AND m = 0 then Panic ''freeing free block''
        else
          bnd (log_write bp (set_data bp (d[bi div 8 := d ! (bi div 8) AND NOT m]) s)) (\<lambda>_ s.
          brelse bp s))"

section \<open>Inodes\<close>

fun iinit_loop :: "nat \<Rightarrow> nat \<Rightarrow> 'z fmach_scheme \<Rightarrow> 'z fmach_scheme" where
  "iinit_loop i 0 s = s"
| "iinit_loop i (Suc n) s = iinit_loop (Suc i) n (initsleeplock (InodeLock i) ''inode'' s)"

definition iinit :: "'z fmach_scheme \<Rightarrow> 'z fmach_scheme" where
  "iinit s = iinit_loop 0 NINODE (initlock IcacheLock ''icache'' s)"

text \<open>The scan of iget: \<open>Inl ip\<close> is a cached entry, \<open>Inr empty\<close> the remembered free slot.\<close>

fun iget_scan :: "u32 \<Rightarrow> u32 \<Rightarrow> nat \<Rightarrow> nat \<Rightarrow> nat option \<Rightarrow> (nat \<Rightarrow> inode) \<Rightarrow> nat + nat option" where
  "iget_scan dev inum ip 0 emp ic = Inr emp"
| "iget_scan dev inum ip (Suc n) emp ic =
     (if i_ref (ic ip) > 0 \<and> i_dev (ic ip) = dev \<and> i_inum (ic ip) = inum then Inl ip
      else iget_scan dev inum (Suc ip) n
             (if emp = None \<and> i_ref (ic ip) = 0 then Some ip else emp) ic)"

definition iget :: "u32 \<Rightarrow> u32 \<Rightarrow> 'z fmach_scheme \<Rightarrow> ('z fmach_scheme, nat) res" where
  "iget dev inum s =
     bnd (acquire IcacheLock s) (\<lambda>_ s.
     case iget_scan dev inum 0 NINODE None (icache s) of
       Inl ip \<Rightarrow>
         bnd (release IcacheLock (set_inode ip (\<lambda>i. i\<lparr>i_ref := i_ref i + 1\<rparr>) s)) (\<lambda>_ s. Ok ip s)
     | Inr None \<Rightarrow> Panic ''iget: no inodes''
     | Inr (Some ip) \<Rightarrow>
         bnd (release IcacheLock (set_inode ip
           (\<lambda>i. i\<lparr>i_dev := dev, i_inum := inum, i_ref := 1, i_valid := False\<rparr>) s)) (\<lambda>_ s. Ok ip s))"

definition dinode0 :: dinode where
  "dinode0 = \<lparr>di_type = 0, di_major = 0, di_minor = 0, di_nlink = 0, di_size = 0,
     di_addrs = replicate (NDIRECT + 1) 0\<rparr>"

fun ialloc_loop :: "u32 \<Rightarrow> u16 \<Rightarrow> nat \<Rightarrow> nat \<Rightarrow> 'z fmach_scheme \<Rightarrow> ('z fmach_scheme, nat) res" where
  "ialloc_loop dev type inum 0 s = Panic ''ialloc: no inodes''"
| "ialloc_loop dev type inum (Suc n) s =
     bnd (bread dev (IBLOCK (of_nat inum) (sb s)) s) (\<lambda>bp s.
     let d = b_data (bufs s bp)
     in if di_type (dec_dinode (get_slot 64 (inum mod IPB) d)) = 0 then
          bnd (log_write bp (set_data bp
                (put_slot 64 (inum mod IPB) (enc_dinode (dinode0\<lparr>di_type := type\<rparr>)) d) s)) (\<lambda>_ s.
          bnd (brelse bp s) (\<lambda>_ s.
          iget dev (of_nat inum) s))
        else bnd (brelse bp s) (\<lambda>_ s. ialloc_loop dev type (Suc inum) n s))"

definition ialloc :: "u32 \<Rightarrow> u16 \<Rightarrow> 'z fmach_scheme \<Rightarrow> ('z fmach_scheme, nat) res" where
  "ialloc dev type s = ialloc_loop dev type 1 (unat (sb_ninodes (sb s)) - 1) s"

definition inode_disk :: "inode \<Rightarrow> dinode" where
  "inode_disk i = \<lparr>di_type = i_type i, di_major = i_major i, di_minor = i_minor i, di_nlink = i_nlink i,
     di_size = i_size i, di_addrs = i_addrs i\<rparr>"

definition iupdate :: "nat \<Rightarrow> 'z fmach_scheme \<Rightarrow> ('z fmach_scheme, unit) res" where
  "iupdate ip s =
     bnd (bread (i_dev (icache s ip)) (IBLOCK (i_inum (icache s ip)) (sb s)) s) (\<lambda>bp s.
     bnd (log_write bp (set_data bp
           (put_slot 64 (unat (i_inum (icache s ip)) mod IPB) (enc_dinode (inode_disk (icache s ip)))
              (b_data (bufs s bp))) s)) (\<lambda>_ s.
     brelse bp s))"

definition idup :: "nat \<Rightarrow> 'z fmach_scheme \<Rightarrow> ('z fmach_scheme, nat) res" where
  "idup ip s =
     bnd (acquire IcacheLock s) (\<lambda>_ s.
     bnd (release IcacheLock (set_inode ip (\<lambda>i. i\<lparr>i_ref := i_ref i + 1\<rparr>) s)) (\<lambda>_ s. Ok ip s))"

definition inode_load :: "dinode \<Rightarrow> inode \<Rightarrow> inode" where
  "inode_load di i = i\<lparr>i_type := di_type di, i_major := di_major di, i_minor := di_minor di,
     i_nlink := di_nlink di, i_size := di_size di, i_addrs := di_addrs di\<rparr>"

definition ilock :: "nat \<Rightarrow> 'z fmach_scheme \<Rightarrow> ('z fmach_scheme, unit) res" where
  "ilock ip s =
     (if i_ref (icache s ip) < 1 then Panic ''ilock''
      else
        bnd (acquiresleep (InodeLock ip) s) (\<lambda>_ s.
        if \<not> i_valid (icache s ip) then
          bnd (bread (i_dev (icache s ip)) (IBLOCK (i_inum (icache s ip)) (sb s)) s) (\<lambda>bp s.
          let di = dec_dinode (get_slot 64 (unat (i_inum (icache s ip)) mod IPB) (b_data (bufs s bp)));
              s = set_inode ip (inode_load di) s
          in bnd (brelse bp s) (\<lambda>_ s.
             let s = set_inode ip (\<lambda>i. i\<lparr>i_valid := True\<rparr>) s
             in if i_type (icache s ip) = 0 then Panic ''ilock: no type'' else Ok () s))
        else Ok () s))"

definition iunlock :: "nat \<Rightarrow> 'z fmach_scheme \<Rightarrow> ('z fmach_scheme, unit) res" where
  "iunlock ip s =
     bnd (holdingsleep (InodeLock ip) s) (\<lambda>h s.
       if \<not> h \<or> i_ref (icache s ip) < 1 then Panic ''iunlock''
       else releasesleep (InodeLock ip) s)"

section \<open>Inode contents\<close>

definition bmap :: "nat \<Rightarrow> nat \<Rightarrow> 'z fmach_scheme \<Rightarrow> ('z fmach_scheme, u32) res" where
  "bmap ip bn s =
     (if bn < NDIRECT then
        (if i_addrs (icache s ip) ! bn = 0 then
           bnd (balloc (i_dev (icache s ip)) s) (\<lambda>addr s.
           Ok addr (set_inode ip (\<lambda>i. i\<lparr>i_addrs := (i_addrs i)[bn := addr]\<rparr>) s))
         else Ok (i_addrs (icache s ip) ! bn) s)
      else if bn - NDIRECT < NINDIRECT then
        (let bn = bn - NDIRECT
         in bnd (if i_addrs (icache s ip) ! NDIRECT = 0 then
                   bnd (balloc (i_dev (icache s ip)) s) (\<lambda>addr s.
                   Ok addr (set_inode ip (\<lambda>i. i\<lparr>i_addrs := (i_addrs i)[NDIRECT := addr]\<rparr>) s))
                 else Ok (i_addrs (icache s ip) ! NDIRECT) s) (\<lambda>addr s.
            bnd (bread (i_dev (icache s ip)) addr s) (\<lambda>bp s.
            if u32_at (b_data (bufs s bp)) bn = 0 then
              bnd (balloc (i_dev (icache s ip)) s) (\<lambda>addr s.
              bnd (log_write bp (set_data bp (put_slot 4 bn (le_bytes 4 addr) (b_data (bufs s bp))) s)) (\<lambda>_ s.
              bnd (brelse bp s) (\<lambda>_ s. Ok addr s)))
            else
              (let addr = u32_at (b_data (bufs s bp)) bn
               in bnd (brelse bp s) (\<lambda>_ s. Ok addr s)))))
      else Panic ''bmap: out of range'')"

fun itrunc_direct :: "nat \<Rightarrow> nat \<Rightarrow> nat \<Rightarrow> 'z fmach_scheme \<Rightarrow> ('z fmach_scheme, unit) res" where
  "itrunc_direct ip i 0 s = Ok () s"
| "itrunc_direct ip i (Suc n) s =
     bnd (if i_addrs (icache s ip) ! i \<noteq> 0 then
            bnd (bfree (i_dev (icache s ip)) (i_addrs (icache s ip) ! i) s) (\<lambda>_ s.
            Ok () (set_inode ip (\<lambda>x. x\<lparr>i_addrs := (i_addrs x)[i := 0]\<rparr>) s))
          else Ok () s) (\<lambda>_ s.
     itrunc_direct ip (Suc i) n s)"

fun itrunc_indirect :: "nat \<Rightarrow> nat \<Rightarrow> nat \<Rightarrow> nat \<Rightarrow> 'z fmach_scheme \<Rightarrow> ('z fmach_scheme, unit) res" where
  "itrunc_indirect ip bp j 0 s = Ok () s"
| "itrunc_indirect ip bp j (Suc n) s =
     bnd (if u32_at (b_data (bufs s bp)) j \<noteq> 0
          then bfree (i_dev (icache s ip)) (u32_at (b_data (bufs s bp)) j) s else Ok () s) (\<lambda>_ s.
     itrunc_indirect ip bp (Suc j) n s)"

definition itrunc :: "nat \<Rightarrow> 'z fmach_scheme \<Rightarrow> ('z fmach_scheme, unit) res" where
  "itrunc ip s =
     bnd (itrunc_direct ip 0 NDIRECT s) (\<lambda>_ s.
     bnd (if i_addrs (icache s ip) ! NDIRECT \<noteq> 0 then
            bnd (bread (i_dev (icache s ip)) (i_addrs (icache s ip) ! NDIRECT) s) (\<lambda>bp s.
            bnd (itrunc_indirect ip bp 0 NINDIRECT s) (\<lambda>_ s.
            bnd (brelse bp s) (\<lambda>_ s.
            bnd (bfree (i_dev (icache s ip)) (i_addrs (icache s ip) ! NDIRECT) s) (\<lambda>_ s.
            Ok () (set_inode ip (\<lambda>x. x\<lparr>i_addrs := (i_addrs x)[NDIRECT := 0]\<rparr>) s)))))
          else Ok () s) (\<lambda>_ s.
     iupdate ip (set_inode ip (\<lambda>x. x\<lparr>i_size := 0\<rparr>) s)))"

definition iput :: "nat \<Rightarrow> 'z fmach_scheme \<Rightarrow> ('z fmach_scheme, unit) res" where
  "iput ip s =
     bnd (acquire IcacheLock s) (\<lambda>_ s.
     bnd (if i_ref (icache s ip) = 1 \<and> i_valid (icache s ip) \<and> i_nlink (icache s ip) = 0 then
            bnd (acquiresleep (InodeLock ip) s) (\<lambda>_ s.
            bnd (release IcacheLock s) (\<lambda>_ s.
            bnd (itrunc ip s) (\<lambda>_ s.
            bnd (iupdate ip (set_inode ip (\<lambda>x. x\<lparr>i_type := 0\<rparr>) s)) (\<lambda>_ s.
            bnd (releasesleep (InodeLock ip) (set_inode ip (\<lambda>x. x\<lparr>i_valid := False\<rparr>) s)) (\<lambda>_ s.
            acquire IcacheLock s)))))
          else Ok () s) (\<lambda>_ s.
     release IcacheLock (set_inode ip (\<lambda>x. x\<lparr>i_ref := i_ref x - 1\<rparr>) s)))"

definition iunlockput :: "nat \<Rightarrow> 'z fmach_scheme \<Rightarrow> ('z fmach_scheme, unit) res" where
  "iunlockput ip s = bnd (iunlock ip s) (\<lambda>_ s. iput ip s)"

definition stati :: "nat \<Rightarrow> 'z fmach_scheme \<Rightarrow> stat" where
  "stati ip s =
     (let i = icache s ip
      in \<lparr>st_dev = i_dev i, st_ino = i_inum i, st_type = i_type i, st_nlink = i_nlink i,
          st_size = ucast (i_size i)\<rparr>)"

datatype kdst = User u64 | Kernel u64 | Local

datatype ksrc = FromUser u64 | FromKernel u64 | FromLocal "byte list"

fun copy_to :: "kdst \<Rightarrow> byte list \<Rightarrow> 'z mach_scheme \<Rightarrow> ('z mach_scheme, int) res" where
  "copy_to (User a) bs s = either_copyout True a bs s"
| "copy_to (Kernel a) bs s = either_copyout False a bs s"
| "copy_to Local bs s = bnd (myproc s) (\<lambda>_ s. Ok 0 s)"

fun dst_add :: "kdst \<Rightarrow> nat \<Rightarrow> kdst" where
  "dst_add (User a) m = User (a + of_nat m)"
| "dst_add (Kernel a) m = Kernel (a + of_nat m)"
| "dst_add Local m = Local"

fun copy_from :: "ksrc \<Rightarrow> nat \<Rightarrow> 'z mach_scheme \<Rightarrow> ('z mach_scheme, int \<times> byte list) res" where
  "copy_from (FromUser a) m s = either_copyin True a m s"
| "copy_from (FromKernel a) m s = either_copyin False a m s"
| "copy_from (FromLocal bs) m s = bnd (myproc s) (\<lambda>_ s. Ok (0, take m bs) s)"

fun src_add :: "ksrc \<Rightarrow> nat \<Rightarrow> ksrc" where
  "src_add (FromUser a) m = FromUser (a + of_nat m)"
| "src_add (FromKernel a) m = FromKernel (a + of_nat m)"
| "src_add (FromLocal bs) m = FromLocal (drop m bs)"

lemma chunk_pos: "tot < n \<Longrightarrow> 0 < min (n - tot) (BSIZE - off mod BSIZE)"
  by (simp add: BSIZE_def)

text \<open>The result is the number of bytes copied, and the bytes.\<close>

function readi_loop ::
    "nat \<Rightarrow> kdst \<Rightarrow> nat \<Rightarrow> nat \<Rightarrow> nat \<Rightarrow> byte list \<Rightarrow> 'z fmach_scheme \<Rightarrow> ('z fmach_scheme, nat \<times> byte list) res" where
  "readi_loop ip dst off tot n acc s =
     (if tot < n then
        bnd (bmap ip (off div BSIZE) s) (\<lambda>addr s.
        bnd (bread (i_dev (icache s ip)) addr s) (\<lambda>bp s.
        let m = min (n - tot) (BSIZE - off mod BSIZE);
            bs = take m (drop (off mod BSIZE) (b_data (bufs s bp)))
        in bnd (copy_to dst bs s) (\<lambda>r s.
           if r = -1 then bnd (brelse bp s) (\<lambda>_ s. Ok (tot, acc) s)
           else
             bnd (brelse bp s) (\<lambda>_ s.
             readi_loop ip (dst_add dst m) (off + m) (tot + m) n (acc @ bs) s))))
      else Ok (tot, acc) s)"
  by pat_completeness auto
termination
  by (relation "measure (\<lambda>(ip, dst, off, tot, n, acc, s). n - tot)") (auto simp: BSIZE_def)

declare readi_loop.simps [simp del]

definition readi ::
    "nat \<Rightarrow> kdst \<Rightarrow> u32 \<Rightarrow> u32 \<Rightarrow> 'z fmach_scheme \<Rightarrow> ('z fmach_scheme, nat \<times> byte list) res" where
  "readi ip dst off n s =
     (let size = i_size (icache s ip)
      in if off > size \<or> off + n < off then Ok (0, []) s
         else
           (let n = (if off + n > size then size - off else n)
            in readi_loop ip dst (unat off) 0 (unat n) [] s))"

text \<open>The loop of writei gives the offset at which it has stopped.\<close>

function writei_loop ::
    "nat \<Rightarrow> ksrc \<Rightarrow> nat \<Rightarrow> nat \<Rightarrow> nat \<Rightarrow> 'z fmach_scheme \<Rightarrow> ('z fmach_scheme, nat) res" where
  "writei_loop ip src off tot n s =
     (if tot < n then
        bnd (bmap ip (off div BSIZE) s) (\<lambda>addr s.
        bnd (bread (i_dev (icache s ip)) addr s) (\<lambda>bp s.
        let m = min (n - tot) (BSIZE - off mod BSIZE)
        in bnd (copy_from src m s) (\<lambda>(r, bs) s.
           let s = set_data bp (splice (off mod BSIZE) bs (b_data (bufs s bp))) s
           in if r = -1 then bnd (brelse bp s) (\<lambda>_ s. Ok off s)
              else
                bnd (log_write bp s) (\<lambda>_ s.
                bnd (brelse bp s) (\<lambda>_ s.
                writei_loop ip (src_add src m) (off + m) (tot + m) n s)))))
      else Ok off s)"
  by pat_completeness auto
termination
  by (relation "measure (\<lambda>(ip, src, off, tot, n, s). n - tot)") (auto simp: BSIZE_def)

declare writei_loop.simps [simp del]

definition writei ::
    "nat \<Rightarrow> ksrc \<Rightarrow> u32 \<Rightarrow> u32 \<Rightarrow> 'z fmach_scheme \<Rightarrow> ('z fmach_scheme, int) res" where
  "writei ip src off n s =
     (if off > i_size (icache s ip) \<or> off + n < off then Ok (-1) s
      else if off + n > of_nat (MAXFILE * BSIZE) then Ok (-1) s
      else
        bnd (writei_loop ip src (unat off) 0 (unat n) s) (\<lambda>off s.
        if n > 0 then
          (let s = (if of_nat off > i_size (icache s ip)
                    then set_inode ip (\<lambda>i. i\<lparr>i_size := of_nat off\<rparr>) s else s)
           in bnd (iupdate ip s) (\<lambda>_ s. Ok (sint n) s))
        else Ok (sint n) s))"

end
