(* ===== verification/Fs_Dir.thy ===== *)
theory Fs_Dir
  imports Fs
begin

text \<open>
  fs.c, directories and path names: dirlookup and dirlink on the entries of a directory file, skipelem
  on the text of a path, and namex, which walks a path from the root or from the current directory.
\<close>

definition slash :: byte where "slash = 0x2F"

text \<open>A string as the memory its pointer sees: its bytes, then NUL.\<close>

definition cbuf :: "byte list \<Rightarrow> nat \<Rightarrow> byte" where
  "cbuf bs = (\<lambda>i. if i < length bs then bs ! i else 0)"

section \<open>Directories\<close>

definition namecmp :: "byte list \<Rightarrow> byte list \<Rightarrow> int" where
  "namecmp s t = strncmp (cbuf s) (cbuf t) DIRSIZ"

text \<open>The number of entries of a directory, counting a partial one at the end.\<close>

definition dir_entries :: "u32 \<Rightarrow> nat" where
  "dir_entries sz = (unat sz + 15) div 16"

primrec dirlookup_loop ::
    "nat \<Rightarrow> byte list \<Rightarrow> nat \<Rightarrow> nat \<Rightarrow> 'z fmach_scheme \<Rightarrow> ('z fmach_scheme, (nat \<times> u32) option) res" where
  "dirlookup_loop dp name off 0 s = Ok None s"
| "dirlookup_loop dp name off (Suc n) s =
     bnd (readi dp Local (of_nat off) 16 s) (\<lambda>(r, bs) s.
     if r \<noteq> 16 then Panic ''dirlookup read''
     else
       (let de = dec_dirent bs
        in if de_inum de = 0 then dirlookup_loop dp name (off + 16) n s
           else if namecmp name (de_name de) = 0 then
             bnd (iget (i_dev (icache s dp)) (ucast (de_inum de)) s) (\<lambda>ip s. Ok (Some (ip, of_nat off)) s)
           else dirlookup_loop dp name (off + 16) n s))"

definition dirlookup ::
    "nat \<Rightarrow> byte list \<Rightarrow> 'z fmach_scheme \<Rightarrow> ('z fmach_scheme, (nat \<times> u32) option) res" where
  "dirlookup dp name s =
     (if i_type (icache s dp) \<noteq> T_DIR then Panic ''dirlookup not DIR''
      else dirlookup_loop dp name 0 (dir_entries (i_size (icache s dp))) s)"

primrec dirlink_scan :: "nat \<Rightarrow> nat \<Rightarrow> nat \<Rightarrow> 'z fmach_scheme \<Rightarrow> ('z fmach_scheme, nat) res" where
  "dirlink_scan dp off 0 s = Ok off s"
| "dirlink_scan dp off (Suc n) s =
     bnd (readi dp Local (of_nat off) 16 s) (\<lambda>(r, bs) s.
     if r \<noteq> 16 then Panic ''dirlink read''
     else if de_inum (dec_dirent bs) = 0 then Ok off s
     else dirlink_scan dp (off + 16) n s)"

definition dirent_name :: "byte list \<Rightarrow> byte list" where
  "dirent_name name = map (strncpy (\<lambda>_. 0) (cbuf name) (int DIRSIZ)) [0..<DIRSIZ]"

definition dirlink :: "nat \<Rightarrow> byte list \<Rightarrow> u32 \<Rightarrow> 'z fmach_scheme \<Rightarrow> ('z fmach_scheme, int) res" where
  "dirlink dp name inum s =
     bnd (dirlookup dp name s) (\<lambda>found s. case found of
       Some (ip, _) \<Rightarrow> bnd (iput ip s) (\<lambda>_ s. Ok (-1) s)
     | None \<Rightarrow>
         bnd (dirlink_scan dp 0 (dir_entries (i_size (icache s dp))) s) (\<lambda>off s.
         let de = \<lparr>de_inum = ucast inum, de_name = dirent_name name\<rparr>
         in bnd (writei dp (FromLocal (enc_dirent de)) (of_nat off) 16 s) (\<lambda>r s.
            if r \<noteq> 16 then Panic ''dirlink'' else Ok 0 s)))"

section \<open>Paths\<close>

definition skipelem :: "byte list \<Rightarrow> (byte list \<times> byte list) option" where
  "skipelem path =
     (let path = dropWhile (\<lambda>c. c = slash) path
      in if path = [] then None
         else
           (let elem = takeWhile (\<lambda>c. c \<noteq> slash) path;
                path = dropWhile (\<lambda>c. c \<noteq> slash) path;
                name = (if length elem \<ge> DIRSIZ then take DIRSIZ elem else elem)
            in Some (dropWhile (\<lambda>c. c = slash) path, name)))"

lemma skipelem_Some:
  assumes "skipelem path = Some (rest, name)"
  shows "dropWhile (\<lambda>c. c = slash) path \<noteq> [] \<and>
    rest = dropWhile (\<lambda>c. c = slash) (dropWhile (\<lambda>c. c \<noteq> slash) (dropWhile (\<lambda>c. c = slash) path))"
proof (cases "dropWhile (\<lambda>c. c = slash) path = []")
  case True
  then have "skipelem path = None" by (simp add: skipelem_def)
  with assms show ?thesis by simp
next
  case False
  then show ?thesis using assms by (simp only: skipelem_def Let_def if_False option.inject prod.inject simp_thms)
qed

lemma dropWhile_hd: "p \<noteq> [] \<Longrightarrow> P (hd p) \<Longrightarrow> length (dropWhile P p) < length p"
  by (cases p) (simp_all add: le_imp_less_Suc length_dropWhile_le)

lemma skipelem_shorter:
  assumes "skipelem path = Some (rest, name)"
  shows "length rest < length path"
proof -
  let ?p = "dropWhile (\<lambda>c. c = slash) path"
  note s = skipelem_Some [OF assms]
  have ne: "?p \<noteq> []" using s by (rule conjunct1)
  then have "hd ?p \<noteq> slash" by (rule hd_dropWhile)
  with ne have "length (dropWhile (\<lambda>c. c \<noteq> slash) ?p) < length ?p" by (rule dropWhile_hd)
  moreover have "length rest \<le> length (dropWhile (\<lambda>c. c \<noteq> slash) ?p)"
    unfolding conjunct2 [OF s] by (rule length_dropWhile_le)
  moreover have "length ?p \<le> length path" by (rule length_dropWhile_le)
  ultimately show ?thesis by linarith
qed

text \<open>The result is the inode, if any, and the last name that skipelem has stored.\<close>

function namex_loop ::
    "nat \<Rightarrow> byte list \<Rightarrow> bool \<Rightarrow> byte list \<Rightarrow> 'z fmach_scheme \<Rightarrow> ('z fmach_scheme, nat option \<times> byte list) res" where
  "namex_loop ip path nameiparent name s =
     (case skipelem path of
        None \<Rightarrow>
          if nameiparent then bnd (iput ip s) (\<lambda>_ s. Ok (None, name) s)
          else Ok (Some ip, name) s
      | Some (rest, name) \<Rightarrow>
          bnd (ilock ip s) (\<lambda>_ s.
          if i_type (icache s ip) \<noteq> T_DIR then bnd (iunlockput ip s) (\<lambda>_ s. Ok (None, name) s)
          else if nameiparent \<and> rest = [] then bnd (iunlock ip s) (\<lambda>_ s. Ok (Some ip, name) s)
          else
            bnd (dirlookup ip name s) (\<lambda>found s. case found of
              None \<Rightarrow> bnd (iunlockput ip s) (\<lambda>_ s. Ok (None, name) s)
            | Some (nx, _) \<Rightarrow>
                bnd (iunlockput ip s) (\<lambda>_ s. namex_loop nx rest nameiparent name s))))"
  by pat_completeness auto
termination
  by (relation "measure (\<lambda>(ip, path, np, name, s). length path)") (auto dest: skipelem_shorter)

declare namex_loop.simps [simp del]

definition namex ::
    "byte list \<Rightarrow> bool \<Rightarrow> 'z fmach_scheme \<Rightarrow> ('z fmach_scheme, nat option \<times> byte list) res" where
  "namex path nameiparent s =
     bnd (if path \<noteq> [] \<and> hd path = slash then iget (of_nat ROOTDEV) ROOTINO s
          else
            bnd (myproc s) (\<lambda>cur s. case cur of
              None \<Rightarrow> Panic ''kerneltrap''
            | Some p \<Rightarrow>
                (case p_cwd (procs s p) of
                   None \<Rightarrow> Panic ''kerneltrap''
                 | Some cwd \<Rightarrow> idup cwd s))) (\<lambda>ip s.
     namex_loop ip path nameiparent [] s)"

definition namei :: "byte list \<Rightarrow> 'z fmach_scheme \<Rightarrow> ('z fmach_scheme, nat option) res" where
  "namei path s = bnd (namex path False s) (\<lambda>(ip, _) s. Ok ip s)"

definition nameiparent ::
    "byte list \<Rightarrow> 'z fmach_scheme \<Rightarrow> ('z fmach_scheme, nat option \<times> byte list) res" where
  "nameiparent path s = namex path True s"

end
