(* ===== verification/Uart.thy ===== *)
theory Uart
  imports Fs_Dir
begin

text \<open>
  uart.c: the serial line, with its transmit ring of UART_TX_BUF_SIZE bytes, and consputc of
  console.c. The device is the environment: \<open>u_lsr\<close> lists the values that the next reads of the
  line status register will give, \<open>u_rx\<close> the bytes waiting in the receive register, and
  \<open>u_writes\<close> the register writes made so far, latest first. A run that reads the line status
  more often than \<open>u_lsr\<close> foresees, or that spins because another hart has panicked, ends in \<open>Fuel\<close>.
\<close>

definition UART_TX_BUF_SIZE :: nat where "UART_TX_BUF_SIZE = 32"
definition INPUT_BUF :: nat where "INPUT_BUF = 128"

definition RHR :: nat where "RHR = 0"
definition THR :: nat where "THR = 0"
definition IER :: nat where "IER = 1"
definition IER_TX_ENABLE :: byte where "IER_TX_ENABLE = 1"
definition IER_RX_ENABLE :: byte where "IER_RX_ENABLE = 2"
definition FCR :: nat where "FCR = 2"
definition FCR_FIFO_ENABLE :: byte where "FCR_FIFO_ENABLE = 1"
definition FCR_FIFO_CLEAR :: byte where "FCR_FIFO_CLEAR = 6"
definition LCR :: nat where "LCR = 3"
definition LCR_EIGHT_BITS :: byte where "LCR_EIGHT_BITS = 3"
definition LCR_BAUD_LATCH :: byte where "LCR_BAUD_LATCH = 0x80"
definition LSR_RX_READY :: byte where "LSR_RX_READY = 1"
definition LSR_TX_IDLE :: byte where "LSR_TX_IDLE = 0x20"

record cons =
  cons_buf :: "byte list"
  cons_r :: u32
  cons_w :: u32
  cons_e :: u32

datatype devfn = Consoleread | Consolewrite

record devsw =
  dev_read :: "devfn option"
  dev_write :: "devfn option"

record umach = fmach +
  panicked :: bool
  pr_locking :: bool
  uart_tx_buf :: "byte list"
  uart_tx_w :: nat
  uart_tx_r :: nat
  u_lsr :: "byte list"
  u_rx :: "byte list"
  u_writes :: "(nat \<times> byte) list"
  console :: cons
  devices :: "nat \<Rightarrow> devsw"

section \<open>Registers\<close>

definition WriteReg :: "nat \<Rightarrow> byte \<Rightarrow> 'z umach_scheme \<Rightarrow> 'z umach_scheme" where
  "WriteReg r v s = s\<lparr>u_writes := (r, v) # u_writes s\<rparr>"

definition ReadLSR :: "'z umach_scheme \<Rightarrow> ('z umach_scheme, byte) res" where
  "ReadLSR s = (case u_lsr s of [] \<Rightarrow> Fuel | v # vs \<Rightarrow> Ok v (s\<lparr>u_lsr := vs\<rparr>))"

definition ReadRHR :: "'z umach_scheme \<Rightarrow> byte \<times> 'z umach_scheme" where
  "ReadRHR s = (case u_rx s of [] \<Rightarrow> (0, s) | c # cs \<Rightarrow> (c, s\<lparr>u_rx := cs\<rparr>))"

definition uartinit :: "'z umach_scheme \<Rightarrow> 'z umach_scheme" where
  "uartinit s =
     (let s = WriteReg IER 0 s;
          s = WriteReg LCR LCR_BAUD_LATCH s;
          s = WriteReg 0 3 s;
          s = WriteReg 1 0 s;
          s = WriteReg LCR LCR_EIGHT_BITS s;
          s = WriteReg FCR (FCR_FIFO_ENABLE OR FCR_FIFO_CLEAR) s;
          s = WriteReg IER (IER_TX_ENABLE OR IER_RX_ENABLE) s
      in initlock UartTxLock ''uart'' s)"

section \<open>Output\<close>

text \<open>The accesses to the transmit ring.\<close>

definition uart_full :: "'z umach_scheme \<Rightarrow> bool" where
  "uart_full s \<longleftrightarrow> (uart_tx_w s + 1) mod UART_TX_BUF_SIZE = uart_tx_r s"

definition uart_empty :: "'z umach_scheme \<Rightarrow> bool" where
  "uart_empty s \<longleftrightarrow> uart_tx_w s = uart_tx_r s"

definition uart_put :: "byte \<Rightarrow> 'z umach_scheme \<Rightarrow> 'z umach_scheme" where
  "uart_put c s = s\<lparr>uart_tx_buf := (uart_tx_buf s)[uart_tx_w s := c],
                    uart_tx_w := (uart_tx_w s + 1) mod UART_TX_BUF_SIZE\<rparr>"

definition uart_front :: "'z umach_scheme \<Rightarrow> byte" where
  "uart_front s = uart_tx_buf s ! uart_tx_r s"

definition uart_get :: "'z umach_scheme \<Rightarrow> 'z umach_scheme" where
  "uart_get s = s\<lparr>uart_tx_r := (uart_tx_r s + 1) mod UART_TX_BUF_SIZE\<rparr>"

text \<open>
  Each turn of uartstart takes one byte from the ring, so UART_TX_BUF_SIZE turns are enough for a
  ring with indices in range.
\<close>

fun uartstart_loop :: "nat \<Rightarrow> 'z umach_scheme \<Rightarrow> ('z umach_scheme, unit) res" where
  "uartstart_loop n s =
     (if uart_empty s then Ok () s
      else
        bnd (ReadLSR s) (\<lambda>v s.
        if v AND LSR_TX_IDLE = 0 then Ok () s
        else
          (case n of
             0 \<Rightarrow> Fuel
           | Suc m \<Rightarrow>
               (let c = uart_front s;
                    s = uart_get s
                in bnd (wakeup UartChan s) (\<lambda>_ s.
                   uartstart_loop m (WriteReg THR c s))))))"

declare uartstart_loop.simps [simp del]

definition uartstart :: "'z umach_scheme \<Rightarrow> ('z umach_scheme, unit) res" where
  "uartstart s = uartstart_loop UART_TX_BUF_SIZE s"

definition uartputc_loop :: "byte \<Rightarrow> 'z umach_scheme \<Rightarrow> ('z umach_scheme, unit) res" where
  "uartputc_loop c s =
     (if uart_full s then sleep UartChan UartTxLock s
      else
        (let s = uart_put c s
         in bnd (uartstart s) (\<lambda>_ s. release UartTxLock s)))"

definition uartputc :: "byte \<Rightarrow> 'z umach_scheme \<Rightarrow> ('z umach_scheme, unit) res" where
  "uartputc c s =
     bnd (acquire UartTxLock s) (\<lambda>_ s.
       if panicked s then Fuel else uartputc_loop c s)"

definition uartputc_resume :: "nat \<Rightarrow> bool \<Rightarrow> byte \<Rightarrow> 'z umach_scheme \<Rightarrow> ('z umach_scheme, unit) res" where
  "uartputc_resume p saved c s =
     bnd (sleep_resume p UartTxLock saved s) (\<lambda>_ s. uartputc_loop c s)"

fun uartputc_sync_wait :: "byte list \<Rightarrow> byte list option" where
  "uartputc_sync_wait [] = None"
| "uartputc_sync_wait (v # vs) = (if v AND LSR_TX_IDLE = 0 then uartputc_sync_wait vs else Some vs)"

definition uartputc_sync :: "byte \<Rightarrow> 'z umach_scheme \<Rightarrow> ('z umach_scheme, unit) res" where
  "uartputc_sync c s =
     (let s = push_off s
      in if panicked s then Fuel
         else
           (case uartputc_sync_wait (u_lsr s) of
              None \<Rightarrow> Fuel
            | Some vs \<Rightarrow> pop_off (WriteReg THR c (s\<lparr>u_lsr := vs\<rparr>))))"

text \<open>consputc: \<open>None\<close> stands for BACKSPACE, the value outside the range of characters.\<close>

definition consputc :: "byte option \<Rightarrow> 'z umach_scheme \<Rightarrow> ('z umach_scheme, unit) res" where
  "consputc c s =
     (case c of
        None \<Rightarrow>
          bnd (uartputc_sync 8 s) (\<lambda>_ s.
          bnd (uartputc_sync 0x20 s) (\<lambda>_ s.
          uartputc_sync 8 s))
      | Some c \<Rightarrow> uartputc_sync c s)"

section \<open>Input\<close>

definition uartgetc :: "'z umach_scheme \<Rightarrow> ('z umach_scheme, int) res" where
  "uartgetc s =
     bnd (ReadLSR s) (\<lambda>v s.
       if v AND 1 \<noteq> 0 then (case ReadRHR s of (c, s) \<Rightarrow> Ok (uint c) s)
       else Ok (-1) s)"

end
