(* ===== verification/Printf.thy ===== *)
theory Printf
  imports Uart
begin

text \<open>
  printf.c: formatted output on the console, and procdump of proc.c, which uses it. The variable
  arguments are a list of values; an argument that is missing or of another type than its
  conversion expects, which C leaves undefined, is the outcome \<open>Panic ''undefined''\<close>.
\<close>

datatype parg = PInt u32 | PPtr u64 | PStr "byte list option"

definition chars :: "string \<Rightarrow> byte list" where
  "chars cs = map of_char cs"

definition digits :: "byte list" where
  "digits = chars ''0123456789abcdef''"

fun putchars :: "byte list \<Rightarrow> 'z umach_scheme \<Rightarrow> ('z umach_scheme, unit) res" where
  "putchars [] s = Ok () s"
| "putchars (c # cs) s = bnd (consputc (Some c) s) (\<lambda>_ s. putchars cs s)"

text \<open>The digits of the do-while loop, least significant first.\<close>

function printint_digits :: "u32 \<Rightarrow> u32 \<Rightarrow> byte list" where
  "printint_digits x base =
     (if base < 2 then [] else
      digits ! unat (x mod base) #
        (if x div base \<noteq> 0 then printint_digits (x div base) base else []))"
  by pat_completeness auto
termination
proof (relation "measure (\<lambda>(x, base). unat x)", simp, clarsimp)
  fix x base :: u32
  assume "\<not> base < 2" and nz: "x div base \<noteq> 0"
  then have b: "2 \<le> unat base" by (simp add: word_less_nat_alt)
  have "x \<noteq> 0" using nz by auto
  then have "0 < unat x" by (simp add: unat_gt_0)
  then show "unat (x div base) < unat x"
    using b by (simp add: unat_div)
qed

declare printint_digits.simps [simp del]

text \<open>The characters of printint in the order in which they are put.\<close>

definition printint_chars :: "u32 \<Rightarrow> u32 \<Rightarrow> bool \<Rightarrow> byte list" where
  "printint_chars xx base sign =
     (let neg = (sign \<and> sint xx < 0);
          x = (if neg then - xx else xx)
      in rev (printint_digits x base @ (if neg then chars ''-'' else [])))"

definition printint :: "u32 \<Rightarrow> u32 \<Rightarrow> bool \<Rightarrow> 'z umach_scheme \<Rightarrow> ('z umach_scheme, unit) res" where
  "printint xx base sign s = putchars (printint_chars xx base sign) s"

fun printptr_loop :: "nat \<Rightarrow> u64 \<Rightarrow> byte list" where
  "printptr_loop 0 x = []"
| "printptr_loop (Suc n) x = digits ! unat (drop_bit (64 - 4) x) # printptr_loop n (push_bit 4 x)"

definition printptr :: "u64 \<Rightarrow> 'z umach_scheme \<Rightarrow> ('z umach_scheme, unit) res" where
  "printptr x s = putchars (chars ''0x'' @ printptr_loop 16 x) s"

text \<open>The format without its NUL, from the position of the loop on.\<close>

fun printf_loop :: "byte list \<Rightarrow> parg list \<Rightarrow> 'z umach_scheme \<Rightarrow> ('z umach_scheme, unit) res" where
  "printf_loop [] args s = Ok () s"
| "printf_loop [c] args s = (if c = 0x25 then Ok () s else consputc (Some c) s)"
| "printf_loop (c # d # fmt) args s =
     (if c \<noteq> 0x25 then bnd (consputc (Some c) s) (\<lambda>_ s. printf_loop (d # fmt) args s)
      else if d = of_char CHR ''d'' then
        (case args of PInt x # args \<Rightarrow> bnd (printint x 10 True s) (\<lambda>_ s. printf_loop fmt args s)
                    | _ \<Rightarrow> Panic ''undefined'')
      else if d = of_char CHR ''x'' then
        (case args of PInt x # args \<Rightarrow> bnd (printint x 16 True s) (\<lambda>_ s. printf_loop fmt args s)
                    | _ \<Rightarrow> Panic ''undefined'')
      else if d = of_char CHR ''p'' then
        (case args of PPtr x # args \<Rightarrow> bnd (printptr x s) (\<lambda>_ s. printf_loop fmt args s)
                    | _ \<Rightarrow> Panic ''undefined'')
      else if d = of_char CHR ''s'' then
        (case args of
           PStr str # args \<Rightarrow>
             bnd (putchars (case str of None \<Rightarrow> chars ''(null)'' | Some cs \<Rightarrow> cs) s) (\<lambda>_ s.
             printf_loop fmt args s)
         | _ \<Rightarrow> Panic ''undefined'')
      else if d = 0x25 then bnd (consputc (Some 0x25) s) (\<lambda>_ s. printf_loop fmt args s)
      else
        bnd (consputc (Some 0x25) s) (\<lambda>_ s.
        bnd (consputc (Some d) s) (\<lambda>_ s. printf_loop fmt args s)))"

definition printf :: "byte list \<Rightarrow> parg list \<Rightarrow> 'z umach_scheme \<Rightarrow> ('z umach_scheme, unit) res" where
  "printf fmt args s =
     (let locking = pr_locking s
      in bnd (if locking then acquire PrLock s else Ok () s) (\<lambda>_ s.
         bnd (printf_loop fmt args s) (\<lambda>_ s.
         if locking then release PrLock s else Ok () s)))"

text \<open>panic prints its message, freezes the output of other harts and never returns.\<close>

definition panic_print :: "byte list \<Rightarrow> 'z umach_scheme \<Rightarrow> ('z umach_scheme, unit) res" where
  "panic_print m s =
     bnd (printf (chars ''panic: '') [] (s\<lparr>pr_locking := False\<rparr>)) (\<lambda>_ s.
     bnd (printf m [] s) (\<lambda>_ s.
     bnd (printf [10] [] s) (\<lambda>_ s.
     Ok () (s\<lparr>panicked := True\<rparr>))))"

definition printfinit :: "'z umach_scheme \<Rightarrow> 'z umach_scheme" where
  "printfinit s = (initlock PrLock ''pr'' s)\<lparr>pr_locking := True\<rparr>"

section \<open>procdump\<close>

fun state_name :: "procstate \<Rightarrow> byte list" where
  "state_name UNUSED = chars ''unused''"
| "state_name SLEEPING = chars ''sleep ''"
| "state_name RUNNABLE = chars ''runble''"
| "state_name RUNNING = chars ''run   ''"
| "state_name ZOMBIE = chars ''zombie''"

fun procdump_loop :: "nat \<Rightarrow> nat \<Rightarrow> 'z umach_scheme \<Rightarrow> ('z umach_scheme, unit) res" where
  "procdump_loop p 0 s = Ok () s"
| "procdump_loop p (Suc n) s =
     (if p_state (procs s p) = UNUSED then procdump_loop (Suc p) n s
      else
        bnd (printf (chars ''%d %s %s'')
               [PInt (of_int (p_pid (procs s p))), PStr (Some (state_name (p_state (procs s p)))),
                PStr (Some (takeWhile (\<lambda>c. c \<noteq> 0) (p_name (procs s p))))] s) (\<lambda>_ s.
        bnd (printf [10] [] s) (\<lambda>_ s.
        procdump_loop (Suc p) n s)))"

definition procdump :: "'z umach_scheme \<Rightarrow> ('z umach_scheme, unit) res" where
  "procdump s = bnd (printf [10] [] s) (\<lambda>_ s. procdump_loop 0 NPROC s)"

end
