(* ===== verification/Console.thy ===== *)
theory Console
  imports Printf
begin

text \<open>
  console.c: line-buffered console input and console output. The input ring of INPUT_BUF bytes has
  three 32-bit indices: r, where consoleread takes bytes, w, the end of the last complete line,
  and e, where the interrupt handler puts them.
\<close>

definition set_cons :: "(cons \<Rightarrow> cons) \<Rightarrow> 'z umach_scheme \<Rightarrow> 'z umach_scheme" where
  "set_cons f s = s\<lparr>console := f (console s)\<rparr>"

definition C_D :: byte where "C_D = 0x04"
definition C_H :: byte where "C_H = 0x08"
definition C_P :: byte where "C_P = 0x10"
definition C_U :: byte where "C_U = 0x15"
definition CONSOLE :: nat where "CONSOLE = 1"

section \<open>System calls on the console\<close>

fun consolewrite_loop :: "bool \<Rightarrow> u64 \<Rightarrow> nat \<Rightarrow> nat \<Rightarrow> 'z umach_scheme \<Rightarrow> ('z umach_scheme, nat) res" where
  "consolewrite_loop user_src src i 0 s = Ok i s"
| "consolewrite_loop user_src src i (Suc n) s =
     bnd (either_copyin user_src (src + of_nat i) 1 s) (\<lambda>(r, bs) s.
       if r = -1 then Ok i s
       else bnd (uartputc (hd bs) s) (\<lambda>_ s. consolewrite_loop user_src src (Suc i) n s))"

definition consolewrite :: "bool \<Rightarrow> u64 \<Rightarrow> int \<Rightarrow> 'z umach_scheme \<Rightarrow> ('z umach_scheme, int) res" where
  "consolewrite user_src src n s =
     bnd (acquire ConsLock s) (\<lambda>_ s.
     bnd (consolewrite_loop user_src src 0 (nat n) s) (\<lambda>i s.
     bnd (release ConsLock s) (\<lambda>_ s. Ok (int i) s)))"

text \<open>
  The outer loop of consoleread, with \<open>n\<close> bytes still wanted of the \<open>target\<close>. It is entered at the
  call and again after each wake-up.
\<close>

fun consoleread_loop ::
    "bool \<Rightarrow> u64 \<Rightarrow> nat \<Rightarrow> nat \<Rightarrow> 'z umach_scheme \<Rightarrow> ('z umach_scheme, int) res" where
  "consoleread_loop user_dst dst target 0 s = bnd (release ConsLock s) (\<lambda>_ s. Ok (int target) s)"
| "consoleread_loop user_dst dst target (Suc n) s =
     (if cons_r (console s) = cons_w (console s) then
        bnd (myproc s) (\<lambda>cur s. case cur of
          None \<Rightarrow> Panic ''kerneltrap''
        | Some p \<Rightarrow>
            if p_killed (procs s p) then bnd (release ConsLock s) (\<lambda>_ s. Ok (-1) s)
            else bnd (sleep ConsChan ConsLock s) (\<lambda>_ s. Ok 0 s))
      else
        (let c = cons_buf (console s) ! (unat (cons_r (console s)) mod INPUT_BUF);
             s = set_cons (\<lambda>k. k\<lparr>cons_r := cons_r k + 1\<rparr>) s
         in if c = C_D then
              (let s = (if Suc n < target then set_cons (\<lambda>k. k\<lparr>cons_r := cons_r k - 1\<rparr>) s else s)
               in bnd (release ConsLock s) (\<lambda>_ s. Ok (int target - int (Suc n)) s))
            else
              bnd (either_copyout user_dst dst [c] s) (\<lambda>r s.
              if r = -1 then bnd (release ConsLock s) (\<lambda>_ s. Ok (int target - int (Suc n)) s)
              else if c = 10 then bnd (release ConsLock s) (\<lambda>_ s. Ok (int target - int n) s)
              else consoleread_loop user_dst (dst + 1) target n s)))"

definition consoleread :: "bool \<Rightarrow> u64 \<Rightarrow> int \<Rightarrow> 'z umach_scheme \<Rightarrow> ('z umach_scheme, int) res" where
  "consoleread user_dst dst n s =
     bnd (acquire ConsLock s) (\<lambda>_ s. consoleread_loop user_dst dst (nat n) (nat n) s)"

definition consoleread_resume ::
    "nat \<Rightarrow> bool \<Rightarrow> bool \<Rightarrow> u64 \<Rightarrow> nat \<Rightarrow> nat \<Rightarrow> 'z umach_scheme \<Rightarrow> ('z umach_scheme, int) res" where
  "consoleread_resume p saved user_dst dst target n s =
     bnd (sleep_resume p ConsLock saved s) (\<lambda>_ s. consoleread_loop user_dst dst target n s)"

section \<open>Input from the line\<close>

text \<open>Control-U; \<open>n\<close> bounds the bytes between w and e.\<close>

fun kill_line :: "nat \<Rightarrow> 'z umach_scheme \<Rightarrow> ('z umach_scheme, unit) res" where
  "kill_line 0 s = Ok () s"
| "kill_line (Suc n) s =
     (let k = console s
      in if cons_e k \<noteq> cons_w k \<and> cons_buf k ! (unat (cons_e k - 1) mod INPUT_BUF) \<noteq> 10 then
           bnd (consputc None (set_cons (\<lambda>k. k\<lparr>cons_e := cons_e k - 1\<rparr>) s)) (\<lambda>_ s. kill_line n s)
         else Ok () s)"

definition cons_store :: "byte \<Rightarrow> 'z umach_scheme \<Rightarrow> ('z umach_scheme, unit) res" where
  "cons_store c s =
     (let s = set_cons (\<lambda>k. k\<lparr>cons_buf := (cons_buf k)[unat (cons_e k) mod INPUT_BUF := c],
                            cons_e := cons_e k + 1\<rparr>) s
      in if c = 10 \<or> c = C_D \<or> cons_e (console s) = cons_r (console s) + of_nat INPUT_BUF
         then wakeup ConsChan (set_cons (\<lambda>k. k\<lparr>cons_w := cons_e k\<rparr>) s)
         else Ok () s)"

definition consoleintr :: "byte \<Rightarrow> 'z umach_scheme \<Rightarrow> ('z umach_scheme, unit) res" where
  "consoleintr c s =
     bnd (acquire ConsLock s) (\<lambda>_ s.
     bnd (if c = C_P then procdump s
          else if c = C_U then kill_line (unat (cons_e (console s) - cons_w (console s))) s
          else if c = C_H \<or> c = 0x7f then
            (if cons_e (console s) \<noteq> cons_w (console s)
             then consputc None (set_cons (\<lambda>k. k\<lparr>cons_e := cons_e k - 1\<rparr>) s)
             else Ok () s)
          else if c \<noteq> 0 \<and> cons_e (console s) - cons_r (console s) < of_nat INPUT_BUF then
            (let c = (if c = 13 then 10 else c)
             in bnd (consputc (Some c) s) (\<lambda>_ s. cons_store c s))
          else Ok () s) (\<lambda>_ s.
     release ConsLock s))"

text \<open>Each turn of uartintr reads the line status once; the bound is one more than the reads foreseen.\<close>

fun uartintr_loop :: "nat \<Rightarrow> 'z umach_scheme \<Rightarrow> ('z umach_scheme, unit) res" where
  "uartintr_loop 0 s = Fuel"
| "uartintr_loop (Suc n) s =
     bnd (uartgetc s) (\<lambda>c s.
       if c = -1 then Ok () s
       else bnd (consoleintr (of_int c) s) (\<lambda>_ s. uartintr_loop n s))"

definition uartintr :: "'z umach_scheme \<Rightarrow> ('z umach_scheme, unit) res" where
  "uartintr s =
     bnd (uartintr_loop (Suc (length (u_lsr s))) s) (\<lambda>_ s.
     bnd (acquire UartTxLock s) (\<lambda>_ s.
     bnd (uartstart s) (\<lambda>_ s.
     release UartTxLock s)))"

definition consoleinit :: "'z umach_scheme \<Rightarrow> 'z umach_scheme" where
  "consoleinit s =
     (let s = uartinit (initlock ConsLock ''cons'' s)
      in s\<lparr>devices := (devices s)(CONSOLE := \<lparr>dev_read = Some Consoleread, dev_write = Some Consolewrite\<rparr>)\<rparr>)"

end
