(* ===== verification/File.thy ===== *)
theory File
  imports Console
begin

text \<open>
  file.c and pipe.c: the table of open files and pipes. A pipe lives in a page of its own; its fields
  are kept under the address of the page. \<open>pipe_nread\<close> and \<open>pipe_nwrite\<close> are 32-bit counters that wrap
  around.
\<close>

definition PIPESIZE :: nat where "PIPESIZE = 512"

datatype ftype = FD_NONE | FD_PIPE | FD_INODE | FD_DEVICE

record kfile =
  f_type :: ftype
  f_ref :: int
  f_readable :: bool
  f_writable :: bool
  f_pipe :: u64
  f_ip :: nat
  f_off :: u32
  f_major :: u16

record pipe =
  pipe_data :: "byte list"
  pipe_nread :: u32
  pipe_nwrite :: u32
  pipe_readopen :: bool
  pipe_writeopen :: bool

record kmach = umach +
  ftable :: "nat \<Rightarrow> kfile"
  pipes :: "u64 \<Rightarrow> pipe"

definition set_file :: "nat \<Rightarrow> (kfile \<Rightarrow> kfile) \<Rightarrow> 'z kmach_scheme \<Rightarrow> 'z kmach_scheme" where
  "set_file f g s = s\<lparr>ftable := (ftable s)(f := g (ftable s f))\<rparr>"

definition set_pipe :: "u64 \<Rightarrow> (pipe \<Rightarrow> pipe) \<Rightarrow> 'z kmach_scheme \<Rightarrow> 'z kmach_scheme" where
  "set_pipe pi g s = s\<lparr>pipes := (pipes s)(pi := g (pipes s pi))\<rparr>"

section \<open>Pipes\<close>

text \<open>The accesses to the ring: \<open>pi->data[pi->nwrite++ % PIPESIZE] = ch\<close> and
  \<open>ch = pi->data[pi->nread++ % PIPESIZE]\<close>, and the tests for full and empty.\<close>

definition pipe_full :: "pipe \<Rightarrow> bool" where
  "pipe_full x \<longleftrightarrow> pipe_nwrite x = pipe_nread x + of_nat PIPESIZE"

definition pipe_empty :: "pipe \<Rightarrow> bool" where
  "pipe_empty x \<longleftrightarrow> pipe_nread x = pipe_nwrite x"

definition pipe_put :: "byte \<Rightarrow> pipe \<Rightarrow> pipe" where
  "pipe_put ch x = x\<lparr>pipe_data := (pipe_data x)[unat (pipe_nwrite x) mod PIPESIZE := ch], pipe_nwrite := pipe_nwrite x + 1\<rparr>"

definition pipe_front :: "pipe \<Rightarrow> byte" where
  "pipe_front x = pipe_data x ! (unat (pipe_nread x) mod PIPESIZE)"

definition pipe_get :: "pipe \<Rightarrow> pipe" where
  "pipe_get x = x\<lparr>pipe_nread := pipe_nread x + 1\<rparr>"

definition pipeclose :: "u64 \<Rightarrow> u64 \<Rightarrow> bool \<Rightarrow> 'z kmach_scheme \<Rightarrow> ('z kmach_scheme, unit) res" where
  "pipeclose kend pi writable s =
     bnd (acquire (PipeLock pi) s) (\<lambda>_ s.
     bnd (if writable
          then wakeup (PipeReadChan pi) (set_pipe pi (\<lambda>x. x\<lparr>pipe_writeopen := False\<rparr>) s)
          else wakeup (PipeWriteChan pi) (set_pipe pi (\<lambda>x. x\<lparr>pipe_readopen := False\<rparr>) s)) (\<lambda>_ s.
     if \<not> pipe_readopen (pipes s pi) \<and> \<not> pipe_writeopen (pipes s pi) then
       bnd (release (PipeLock pi) s) (\<lambda>_ s. kfree kend pi s)
     else release (PipeLock pi) s))"

text \<open>The writing loop at byte \<open>i\<close> with \<open>n\<close> bytes to go, for process \<open>p\<close>; the lock is held.\<close>

fun pipewrite_loop ::
    "nat \<Rightarrow> u64 \<Rightarrow> u64 \<Rightarrow> nat \<Rightarrow> nat \<Rightarrow> 'z kmach_scheme \<Rightarrow> ('z kmach_scheme, int) res" where
  "pipewrite_loop p pi addr i 0 s =
     bnd (wakeup (PipeReadChan pi) s) (\<lambda>_ s.
     bnd (release (PipeLock pi) s) (\<lambda>_ s. Ok (int i) s))"
| "pipewrite_loop p pi addr i (Suc n) s =
     (if pipe_full (pipes s pi) then
        (if \<not> pipe_readopen (pipes s pi) \<or> p_killed (procs s p)
         then bnd (release (PipeLock pi) s) (\<lambda>_ s. Ok (-1) s)
         else
           bnd (wakeup (PipeReadChan pi) s) (\<lambda>_ s.
           bnd (sleep (PipeWriteChan pi) (PipeLock pi) s) (\<lambda>_ s. Ok 0 s)))
      else
        bnd (copyin (p_pagetable (procs s p)) (addr + of_nat i) 1 s) (\<lambda>(r, bs) s.
        if r = -1 then
          bnd (wakeup (PipeReadChan pi) s) (\<lambda>_ s.
          bnd (release (PipeLock pi) s) (\<lambda>_ s. Ok (int i) s))
        else
          pipewrite_loop p pi addr (Suc i) n (set_pipe pi (pipe_put (hd bs)) s)))"

definition pipewrite :: "u64 \<Rightarrow> u64 \<Rightarrow> int \<Rightarrow> 'z kmach_scheme \<Rightarrow> ('z kmach_scheme, int) res" where
  "pipewrite pi addr n s =
     bnd (myproc s) (\<lambda>cur s. case cur of
       None \<Rightarrow> Panic ''kerneltrap''
     | Some p \<Rightarrow> bnd (acquire (PipeLock pi) s) (\<lambda>_ s. pipewrite_loop p pi addr 0 (nat n) s))"

definition pipewrite_resume ::
    "nat \<Rightarrow> bool \<Rightarrow> u64 \<Rightarrow> u64 \<Rightarrow> nat \<Rightarrow> nat \<Rightarrow> 'z kmach_scheme \<Rightarrow> ('z kmach_scheme, int) res" where
  "pipewrite_resume p saved pi addr i n s =
     bnd (sleep_resume p (PipeLock pi) saved s) (\<lambda>_ s. pipewrite_loop p pi addr i n s)"

fun piperead_copy ::
    "nat \<Rightarrow> u64 \<Rightarrow> u64 \<Rightarrow> nat \<Rightarrow> nat \<Rightarrow> 'z kmach_scheme \<Rightarrow> ('z kmach_scheme, nat) res" where
  "piperead_copy p pi addr i 0 s = Ok i s"
| "piperead_copy p pi addr i (Suc n) s =
     (if pipe_empty (pipes s pi) then Ok i s
      else
        (let ch = pipe_front (pipes s pi);
             s = set_pipe pi pipe_get s
         in bnd (copyout (p_pagetable (procs s p)) (addr + of_nat i) [ch] s) (\<lambda>r s.
            if r = -1 then Ok i s else piperead_copy p pi addr (Suc i) n s)))"

definition piperead_loop :: "nat \<Rightarrow> u64 \<Rightarrow> u64 \<Rightarrow> int \<Rightarrow> 'z kmach_scheme \<Rightarrow> ('z kmach_scheme, int) res" where
  "piperead_loop p pi addr n s =
     (if pipe_empty (pipes s pi) \<and> pipe_writeopen (pipes s pi) then
        (if p_killed (procs s p) then bnd (release (PipeLock pi) s) (\<lambda>_ s. Ok (-1) s)
         else bnd (sleep (PipeReadChan pi) (PipeLock pi) s) (\<lambda>_ s. Ok 0 s))
      else
        bnd (piperead_copy p pi addr 0 (nat n) s) (\<lambda>i s.
        bnd (wakeup (PipeWriteChan pi) s) (\<lambda>_ s.
        bnd (release (PipeLock pi) s) (\<lambda>_ s. Ok (int i) s))))"

definition piperead :: "u64 \<Rightarrow> u64 \<Rightarrow> int \<Rightarrow> 'z kmach_scheme \<Rightarrow> ('z kmach_scheme, int) res" where
  "piperead pi addr n s =
     bnd (myproc s) (\<lambda>cur s. case cur of
       None \<Rightarrow> Panic ''kerneltrap''
     | Some p \<Rightarrow> bnd (acquire (PipeLock pi) s) (\<lambda>_ s. piperead_loop p pi addr n s))"

definition piperead_resume ::
    "nat \<Rightarrow> bool \<Rightarrow> u64 \<Rightarrow> u64 \<Rightarrow> int \<Rightarrow> 'z kmach_scheme \<Rightarrow> ('z kmach_scheme, int) res" where
  "piperead_resume p saved pi addr n s =
     bnd (sleep_resume p (PipeLock pi) saved s) (\<lambda>_ s. piperead_loop p pi addr n s)"

section \<open>Open files\<close>

definition fileinit :: "'z kmach_scheme \<Rightarrow> 'z kmach_scheme" where
  "fileinit s = initlock FtableLock ''ftable'' s"

fun filealloc_scan :: "nat \<Rightarrow> nat \<Rightarrow> (nat \<Rightarrow> kfile) \<Rightarrow> nat option" where
  "filealloc_scan f 0 ft = None"
| "filealloc_scan f (Suc n) ft = (if f_ref (ft f) = 0 then Some f else filealloc_scan (Suc f) n ft)"

definition filealloc :: "'z kmach_scheme \<Rightarrow> ('z kmach_scheme, nat option) res" where
  "filealloc s =
     bnd (acquire FtableLock s) (\<lambda>_ s.
     case filealloc_scan 0 NFILE (ftable s) of
       Some f \<Rightarrow> bnd (release FtableLock (set_file f (\<lambda>x. x\<lparr>f_ref := 1\<rparr>) s)) (\<lambda>_ s. Ok (Some f) s)
     | None \<Rightarrow> bnd (release FtableLock s) (\<lambda>_ s. Ok None s))"

definition filedup :: "nat \<Rightarrow> 'z kmach_scheme \<Rightarrow> ('z kmach_scheme, nat) res" where
  "filedup f s =
     bnd (acquire FtableLock s) (\<lambda>_ s.
       if f_ref (ftable s f) < 1 then Panic ''filedup''
       else bnd (release FtableLock (set_file f (\<lambda>x. x\<lparr>f_ref := f_ref x + 1\<rparr>) s)) (\<lambda>_ s. Ok f s))"

definition fileclose :: "u64 \<Rightarrow> nat \<Rightarrow> 'z kmach_scheme \<Rightarrow> ('z kmach_scheme, unit) res" where
  "fileclose kend f s =
     bnd (acquire FtableLock s) (\<lambda>_ s.
       if f_ref (ftable s f) < 1 then Panic ''fileclose''
       else
         (let s = set_file f (\<lambda>x. x\<lparr>f_ref := f_ref x - 1\<rparr>) s
          in if f_ref (ftable s f) > 0 then release FtableLock s
             else
               (let ff = ftable s f;
                    s = set_file f (\<lambda>x. x\<lparr>f_ref := 0, f_type := FD_NONE\<rparr>) s
                in bnd (release FtableLock s) (\<lambda>_ s.
                   if f_type ff = FD_PIPE then pipeclose kend (f_pipe ff) (f_writable ff) s
                   else if f_type ff = FD_INODE \<or> f_type ff = FD_DEVICE then
                     bnd (begin_op s) (\<lambda>_ s.
                     bnd (iput (f_ip ff) s) (\<lambda>_ s.
                     end_op s))
                   else Ok () s))))"

text \<open>\<open>pad\<close>: the padding bytes of the stat structure on the kernel stack.\<close>

definition filestat :: "byte list \<Rightarrow> nat \<Rightarrow> u64 \<Rightarrow> 'z kmach_scheme \<Rightarrow> ('z kmach_scheme, int) res" where
  "filestat pad f addr s =
     bnd (myproc s) (\<lambda>cur s.
       if f_type (ftable s f) = FD_INODE \<or> f_type (ftable s f) = FD_DEVICE then
         (let ip = f_ip (ftable s f)
          in bnd (ilock ip s) (\<lambda>_ s.
             let st = stati ip s
             in bnd (iunlock ip s) (\<lambda>_ s.
                case cur of
                  None \<Rightarrow> Panic ''kerneltrap''
                | Some p \<Rightarrow>
                    bnd (copyout (p_pagetable (procs s p)) addr (enc_stat pad st) s) (\<lambda>r s.
                    if r < 0 then Ok (-1) s else Ok 0 s))))
       else Ok (-1) s)"

definition device_ok :: "u16 \<Rightarrow> bool" where
  "device_ok major \<longleftrightarrow> 0 \<le> sint major \<and> sint major < int NDEV"

definition fileread :: "nat \<Rightarrow> u64 \<Rightarrow> int \<Rightarrow> 'z kmach_scheme \<Rightarrow> ('z kmach_scheme, int) res" where
  "fileread f addr n s =
     (let ff = ftable s f
      in if \<not> f_readable ff then Ok (-1) s
         else (case f_type ff of
           FD_PIPE \<Rightarrow> piperead (f_pipe ff) addr n s
         | FD_DEVICE \<Rightarrow>
             if \<not> device_ok (f_major ff) then Ok (-1) s
             else (case dev_read (devices s (unat (f_major ff))) of
               None \<Rightarrow> Ok (-1) s
             | Some Consoleread \<Rightarrow> consoleread True addr n s
             | Some Consolewrite \<Rightarrow> consolewrite True addr n s)
         | FD_INODE \<Rightarrow>
             bnd (ilock (f_ip ff) s) (\<lambda>_ s.
             bnd (readi (f_ip ff) (User addr) (f_off (ftable s f)) (of_int n) s) (\<lambda>(r, _) s.
             let s = (if r > 0 then set_file f (\<lambda>x. x\<lparr>f_off := f_off x + of_nat r\<rparr>) s else s)
             in bnd (iunlock (f_ip ff) s) (\<lambda>_ s. Ok (int r) s)))
         | FD_NONE \<Rightarrow> Panic ''fileread''))"

text \<open>
  The writing loop at byte \<open>i\<close> of \<open>n\<close>; the largest chunk keeps the blocks of one transaction within
  MAXOPBLOCKS.
\<close>

definition filewrite_max :: int where
  "filewrite_max = int ((MAXOPBLOCKS - 1 - 1 - 2) div 2 * BSIZE)"

definition filewrite_chunk :: "nat \<Rightarrow> u64 \<Rightarrow> int \<Rightarrow> int \<Rightarrow> 'z kmach_scheme \<Rightarrow> ('z kmach_scheme, int) res" where
  "filewrite_chunk f addr i n1 s =
     bnd (begin_op s) (\<lambda>_ s.
     bnd (ilock (f_ip (ftable s f)) s) (\<lambda>_ s.
     bnd (writei (f_ip (ftable s f)) (FromUser (addr + of_int i)) (f_off (ftable s f)) (of_int n1) s) (\<lambda>r s.
     let s = (if r > 0 then set_file f (\<lambda>x. x\<lparr>f_off := f_off x + of_int r\<rparr>) s else s)
     in bnd (iunlock (f_ip (ftable s f)) s) (\<lambda>_ s.
        bnd (end_op s) (\<lambda>_ s. Ok r s)))))"

function filewrite_loop :: "nat \<Rightarrow> u64 \<Rightarrow> int \<Rightarrow> int \<Rightarrow> 'z kmach_scheme \<Rightarrow> ('z kmach_scheme, int) res" where
  "filewrite_loop f addr i n s =
     (if i < n then
        (let n1 = (if n - i > filewrite_max then filewrite_max else n - i)
         in bnd (filewrite_chunk f addr i n1 s) (\<lambda>r s.
            if r < 0 then Ok i s
            else if r \<noteq> n1 then Panic ''short filewrite''
            else filewrite_loop f addr (i + r) n s))
      else Ok i s)"
  by pat_completeness auto
termination
  by (relation "measure (\<lambda>(f, addr, i, n, s). nat (n - i))")
    (auto simp: filewrite_max_def MAXOPBLOCKS_def BSIZE_def)

declare filewrite_loop.simps [simp del]

definition filewrite :: "nat \<Rightarrow> u64 \<Rightarrow> int \<Rightarrow> 'z kmach_scheme \<Rightarrow> ('z kmach_scheme, int) res" where
  "filewrite f addr n s =
     (let ff = ftable s f
      in if \<not> f_writable ff then Ok (-1) s
         else (case f_type ff of
           FD_PIPE \<Rightarrow> pipewrite (f_pipe ff) addr n s
         | FD_DEVICE \<Rightarrow>
             if \<not> device_ok (f_major ff) then Ok (-1) s
             else (case dev_write (devices s (unat (f_major ff))) of
               None \<Rightarrow> Ok (-1) s
             | Some Consoleread \<Rightarrow> consoleread True addr n s
             | Some Consolewrite \<Rightarrow> consolewrite True addr n s)
         | FD_INODE \<Rightarrow>
             bnd (filewrite_loop f addr 0 n s) (\<lambda>i s. Ok (if i = n then n else -1) s)
         | FD_NONE \<Rightarrow> Panic ''filewrite''))"

definition pipealloc_bad ::
    "u64 \<Rightarrow> nat option \<Rightarrow> nat option \<Rightarrow> 'z kmach_scheme \<Rightarrow> ('z kmach_scheme, (nat \<times> nat) option) res" where
  "pipealloc_bad kend f0 f1 s =
     bnd (case f0 of Some f \<Rightarrow> fileclose kend f s | None \<Rightarrow> Ok () s) (\<lambda>_ s.
     bnd (case f1 of Some f \<Rightarrow> fileclose kend f s | None \<Rightarrow> Ok () s) (\<lambda>_ s.
     Ok None s))"

text \<open>\<open>None\<close> is the result -1. The bytes of the new pipe's buffer are what the page held.\<close>

definition pipealloc :: "u64 \<Rightarrow> 'z kmach_scheme \<Rightarrow> ('z kmach_scheme, (nat \<times> nat) option) res" where
  "pipealloc kend s =
     bnd (filealloc s) (\<lambda>f0 s. case f0 of
       None \<Rightarrow> pipealloc_bad kend None None s
     | Some f0 \<Rightarrow>
         bnd (filealloc s) (\<lambda>f1 s. case f1 of
           None \<Rightarrow> pipealloc_bad kend (Some f0) None s
         | Some f1 \<Rightarrow>
             bnd (kalloc s) (\<lambda>pi s.
             if pi = 0 then pipealloc_bad kend (Some f0) (Some f1) s
             else
               (let s = s\<lparr>pipes := (pipes s)(pi := \<lparr>pipe_data = load_bytes (pmem s) (pi + 24) PIPESIZE,
                          pipe_nread = 0, pipe_nwrite = 0, pipe_readopen = True, pipe_writeopen = True\<rparr>)\<rparr>;
                    s = initlock (PipeLock pi) ''pipe'' s;
                    s = set_file f0 (\<lambda>x. x\<lparr>f_type := FD_PIPE, f_readable := True, f_writable := False,
                          f_pipe := pi\<rparr>) s;
                    s = set_file f1 (\<lambda>x. x\<lparr>f_type := FD_PIPE, f_readable := False, f_writable := True,
                          f_pipe := pi\<rparr>) s
                in Ok (Some (f0, f1)) s))))"

end
