(* ===== verification/Sysarg.thy ===== *)
theory Sysarg
  imports File
begin

text \<open>
  syscall.c, the first half: fetching the arguments of a system call from the trapframe and from
  user memory. A trapframe is a page of physical memory; its fields are read and written at
  the offsets that proc.h gives them. A string that fetchstr has copied is returned besides its result,
  without its NUL.
\<close>

definition TF_kernel_satp :: u64 where "TF_kernel_satp = 0"
definition TF_kernel_sp :: u64 where "TF_kernel_sp = 8"
definition TF_kernel_trap :: u64 where "TF_kernel_trap = 16"
definition TF_epc :: u64 where "TF_epc = 24"
definition TF_kernel_hartid :: u64 where "TF_kernel_hartid = 32"
definition TF_sp :: u64 where "TF_sp = 48"
definition TF_a0 :: u64 where "TF_a0 = 112"
definition TF_a1 :: u64 where "TF_a1 = 120"
definition TF_a2 :: u64 where "TF_a2 = 128"
definition TF_a3 :: u64 where "TF_a3 = 136"
definition TF_a4 :: u64 where "TF_a4 = 144"
definition TF_a5 :: u64 where "TF_a5 = 152"
definition TF_a7 :: u64 where "TF_a7 = 168"
definition TF_size :: nat where "TF_size = 288"

definition tf_get :: "nat \<Rightarrow> u64 \<Rightarrow> 'z mach_scheme \<Rightarrow> u64" where
  "tf_get p off s = load64 (pmem s) (p_trapframe (procs s p) + off)"

definition tf_set :: "nat \<Rightarrow> u64 \<Rightarrow> u64 \<Rightarrow> 'z mach_scheme \<Rightarrow> 'z mach_scheme" where
  "tf_set p off v s = s\<lparr>pmem := store64 (pmem s) (p_trapframe (procs s p) + off) v\<rparr>"

text \<open>The current process, where the code dereferences the pointer.\<close>

definition curproc :: "'z mach_scheme \<Rightarrow> ('z mach_scheme, nat) res" where
  "curproc s = bnd (myproc s) (\<lambda>cur s. case cur of None \<Rightarrow> Panic ''kerneltrap'' | Some p \<Rightarrow> Ok p s)"

definition fetchaddr :: "u64 \<Rightarrow> 'z mach_scheme \<Rightarrow> ('z mach_scheme, int \<times> u64) res" where
  "fetchaddr addr s =
     bnd (curproc s) (\<lambda>p s.
       if addr \<ge> p_sz (procs s p) \<or> addr + 8 > p_sz (procs s p) then Ok (-1, 0) s
       else
         bnd (copyin (p_pagetable (procs s p)) addr 8 s) (\<lambda>(r, bs) s.
         if r \<noteq> 0 then Ok (-1, 0) s else Ok (0, le_val bs) s))"

definition fetchstr :: "u64 \<Rightarrow> nat \<Rightarrow> 'z mach_scheme \<Rightarrow> ('z mach_scheme, int \<times> byte list) res" where
  "fetchstr addr mx s =
     bnd (curproc s) (\<lambda>p s.
     bnd (copyinstr (p_pagetable (procs s p)) addr mx s) (\<lambda>(err, bs) s.
       let str = takeWhile (\<lambda>c. c \<noteq> 0) bs
       in if err < 0 then Ok (err, str) s else Ok (int (length str), str) s))"

definition argraw :: "nat \<Rightarrow> 'z mach_scheme \<Rightarrow> ('z mach_scheme, u64) res" where
  "argraw n s =
     bnd (curproc s) (\<lambda>p s.
       if n = 0 then Ok (tf_get p TF_a0 s) s
       else if n = 1 then Ok (tf_get p TF_a1 s) s
       else if n = 2 then Ok (tf_get p TF_a2 s) s
       else if n = 3 then Ok (tf_get p TF_a3 s) s
       else if n = 4 then Ok (tf_get p TF_a4 s) s
       else if n = 5 then Ok (tf_get p TF_a5 s) s
       else Panic ''argraw'')"

definition argint :: "nat \<Rightarrow> 'z mach_scheme \<Rightarrow> ('z mach_scheme, int) res" where
  "argint n s = bnd (argraw n s) (\<lambda>v s. Ok (sint (ucast v :: u32)) s)"

definition argaddr :: "nat \<Rightarrow> 'z mach_scheme \<Rightarrow> ('z mach_scheme, u64) res" where
  "argaddr n s = argraw n s"

definition argstr :: "nat \<Rightarrow> nat \<Rightarrow> 'z mach_scheme \<Rightarrow> ('z mach_scheme, int \<times> byte list) res" where
  "argstr n mx s = bnd (argaddr n s) (\<lambda>addr s. fetchstr addr mx s)"

end
