(* ===== verification/Exec.thy ===== *)
theory Exec
  imports Sysarg
begin

text \<open>
  exec.c and elf.h: loading a program. The header and the program headers are decoded from the bytes
  that readi has copied. \<open>argv\<close> is the array of non-null pointers to strings in kernel pages. A
  failure is the label \<open>bad\<close>, here \<open>exec_bad\<close>, with the page table, the size reached and whether
  the inode is still locked.
\<close>

definition ELF_MAGIC :: u32 where "ELF_MAGIC = 0x464C457F"
definition ELF_PROG_LOAD :: u32 where "ELF_PROG_LOAD = 1"

record elfhdr =
  eh_magic :: u32
  eh_type :: u16
  eh_machine :: u16
  eh_version :: u32
  eh_entry :: u64
  eh_phoff :: u64
  eh_shoff :: u64
  eh_flags :: u32
  eh_ehsize :: u16
  eh_phentsize :: u16
  eh_phnum :: u16

record proghdr =
  ph_type :: u32
  ph_flags :: u32
  ph_off :: u64
  ph_vaddr :: u64
  ph_paddr :: u64
  ph_filesz :: u64
  ph_memsz :: u64
  ph_align :: u64

definition u64_at :: "byte list \<Rightarrow> nat \<Rightarrow> u64" where
  "u64_at d i = le_val (get_slot 8 i d)"

definition dec_elfhdr :: "byte list \<Rightarrow> elfhdr" where
  "dec_elfhdr d = \<lparr>eh_magic = u32_at d 0, eh_type = u16_at d 8, eh_machine = u16_at d 9, eh_version = u32_at d 5,
     eh_entry = u64_at d 3, eh_phoff = u64_at d 4, eh_shoff = u64_at d 5, eh_flags = u32_at d 12,
     eh_ehsize = u16_at d 26, eh_phentsize = u16_at d 27, eh_phnum = u16_at d 28\<rparr>"

definition dec_proghdr :: "byte list \<Rightarrow> proghdr" where
  "dec_proghdr d = \<lparr>ph_type = u32_at d 0, ph_flags = u32_at d 1, ph_off = u64_at d 1, ph_vaddr = u64_at d 2,
     ph_paddr = u64_at d 3, ph_filesz = u64_at d 4, ph_memsz = u64_at d 5, ph_align = u64_at d 6\<rparr>"

text \<open>\<open>n\<close> counts the pages that remain from offset \<open>i\<close> on.\<close>

primrec loadseg_loop ::
    "u64 \<Rightarrow> u64 \<Rightarrow> nat \<Rightarrow> u32 \<Rightarrow> u32 \<Rightarrow> nat \<Rightarrow> nat \<Rightarrow> 'z fmach_scheme \<Rightarrow> ('z fmach_scheme, int) res" where
  "loadseg_loop pagetable va ip offset sz i 0 s = Ok 0 s"
| "loadseg_loop pagetable va ip offset sz i (Suc k) s =
     bnd (walkaddr pagetable (va + of_nat i) s) (\<lambda>pa s.
       if pa = 0 then Panic ''loadseg: address should exist''
       else
         (let n = (if unat sz - i < unat PGSIZE then unat sz - i else unat PGSIZE)
          in bnd (readi ip (Kernel pa) (offset + of_nat i) (of_nat n) s) (\<lambda>(r, _) s.
             if r \<noteq> n then Ok (-1) s
             else loadseg_loop pagetable va ip offset sz (i + unat PGSIZE) k s)))"

definition loadseg ::
    "u64 \<Rightarrow> u64 \<Rightarrow> nat \<Rightarrow> u32 \<Rightarrow> u32 \<Rightarrow> 'z fmach_scheme \<Rightarrow> ('z fmach_scheme, int) res" where
  "loadseg pagetable va ip offset sz s =
     (if va mod PGSIZE \<noteq> 0 then Panic ''loadseg: va must be page aligned''
      else loadseg_loop pagetable va ip offset sz 0 ((unat sz + unat PGSIZE - 1) div unat PGSIZE) s)"

text \<open>The loop over the program headers: whether it has succeeded, and the size reached.\<close>

primrec exec_load ::
    "u64 \<Rightarrow> u64 \<Rightarrow> nat \<Rightarrow> u32 \<Rightarrow> u64 \<Rightarrow> nat \<Rightarrow> 'z fmach_scheme \<Rightarrow> ('z fmach_scheme, bool \<times> u64) res" where
  "exec_load kend pagetable ip off sz 0 s = Ok (True, sz) s"
| "exec_load kend pagetable ip off sz (Suc n) s =
     bnd (readi ip Local off 56 s) (\<lambda>(r, bs) s.
       let ph = dec_proghdr bs
       in if r \<noteq> 56 then Ok (False, sz) s
          else if ph_type ph \<noteq> ELF_PROG_LOAD then exec_load kend pagetable ip (off + 56) sz n s
          else if ph_memsz ph < ph_filesz ph then Ok (False, sz) s
          else if ph_vaddr ph + ph_memsz ph < ph_vaddr ph then Ok (False, sz) s
          else
            bnd (uvmalloc kend pagetable sz (ph_vaddr ph + ph_memsz ph) s) (\<lambda>sz1 s.
              if sz1 = 0 then Ok (False, sz) s
              else if ph_vaddr ph mod PGSIZE \<noteq> 0 then Ok (False, sz1) s
              else
                bnd (loadseg pagetable (ph_vaddr ph) ip (ucast (ph_off ph)) (ucast (ph_filesz ph)) s) (\<lambda>r s.
                if r < 0 then Ok (False, sz1) s
                else exec_load kend pagetable ip (off + 56) sz1 n s)))"

definition kstrlen :: "u64 \<Rightarrow> 'z mach_scheme \<Rightarrow> ('z mach_scheme, nat) res" where
  "kstrlen a s = (case strlen (\<lambda>i. pmem s (a + of_nat i)) of None \<Rightarrow> Fuel | Some n \<Rightarrow> Ok n s)"

text \<open>Pushing the argument strings: \<open>None\<close> on failure, otherwise the stack pointer and the addresses.\<close>

fun exec_push ::
    "u64 \<Rightarrow> u64 \<Rightarrow> u64 list \<Rightarrow> u64 \<Rightarrow> u64 list \<Rightarrow> 'z mach_scheme \<Rightarrow> ('z mach_scheme, (u64 \<times> u64 list) option) res" where
  "exec_push pagetable stackbase [] sp ustack s = Ok (Some (sp, ustack)) s"
| "exec_push pagetable stackbase (a # argv) sp ustack s =
     (if length ustack \<ge> MAXARG then Ok None s
      else
        bnd (kstrlen a s) (\<lambda>len s.
        let sp = sp - (of_nat len + 1);
            sp = sp - sp mod 16
        in if sp < stackbase then Ok None s
           else
             bnd (copyout pagetable sp (load_bytes (pmem s) a (Suc len)) s) (\<lambda>r s.
             if r < 0 then Ok None s
             else exec_push pagetable stackbase argv sp (ustack @ [sp]) s)))"

definition exec_bad ::
    "u64 \<Rightarrow> u64 \<Rightarrow> u64 \<Rightarrow> nat option \<Rightarrow> 'z fmach_scheme \<Rightarrow> ('z fmach_scheme, int) res" where
  "exec_bad kend pagetable sz ip s =
     bnd (if pagetable \<noteq> 0 then proc_freepagetable kend pagetable sz s else Ok () s) (\<lambda>_ s.
     case ip of
       None \<Rightarrow> Ok (-1) s
     | Some ip \<Rightarrow>
         bnd (iunlockput ip s) (\<lambda>_ s.
         bnd (end_op s) (\<lambda>_ s. Ok (-1) s)))"

text \<open>The program name: the path after its last slash.\<close>

definition last_elem :: "byte list \<Rightarrow> byte list" where
  "last_elem path = rev (takeWhile (\<lambda>c. c \<noteq> slash) (rev path))"

definition set_name :: "byte list \<Rightarrow> byte list \<Rightarrow> byte list" where
  "set_name old str = map (safestrcpy (cbuf old) (cbuf str) 16) [0..<16]"

text \<open>From the copied image to the end: the new stack, and the switch to the new image.\<close>

definition exec_commit ::
    "u64 \<Rightarrow> byte list \<Rightarrow> u64 \<Rightarrow> u64 \<Rightarrow> u64 \<Rightarrow> u64 list \<Rightarrow> u64 \<Rightarrow> nat \<Rightarrow> 'z fmach_scheme \<Rightarrow> ('z fmach_scheme, int) res" where
  "exec_commit kend path pagetable sz sp ustack entry p s =
     (let oldsz = p_sz (procs s p);
          s = tf_set p TF_a1 sp s;
          s = set_proc p (\<lambda>q. q\<lparr>p_name := set_name (p_name q) (last_elem path)\<rparr>) s;
          oldpagetable = p_pagetable (procs s p);
          s = set_proc p (\<lambda>q. q\<lparr>p_pagetable := pagetable, p_sz := sz\<rparr>) s;
          s = tf_set p TF_epc entry s;
          s = tf_set p TF_sp sp s
      in bnd (proc_freepagetable kend oldpagetable oldsz s) (\<lambda>_ s.
         Ok (int (length ustack)) s))"

definition exec_stack ::
    "u64 \<Rightarrow> byte list \<Rightarrow> u64 list \<Rightarrow> u64 \<Rightarrow> u64 \<Rightarrow> u64 \<Rightarrow> nat \<Rightarrow> 'z fmach_scheme \<Rightarrow> ('z fmach_scheme, int) res" where
  "exec_stack kend path argv pagetable sz entry p s =
     (let sz = PGROUNDUP sz
      in bnd (uvmalloc kend pagetable sz (sz + 2 * PGSIZE) s) (\<lambda>sz1 s.
         if sz1 = 0 then exec_bad kend pagetable sz None s
         else
           bnd (uvmclear pagetable (sz1 - 2 * PGSIZE) s) (\<lambda>_ s.
           let stackbase = sz1 - PGSIZE
           in bnd (exec_push pagetable stackbase argv sz1 [] s) (\<lambda>pushed s. case pushed of
                None \<Rightarrow> exec_bad kend pagetable sz1 None s
              | Some (sp, ustack) \<Rightarrow>
                  (let sp = sp - of_nat (length ustack + 1) * 8;
                       sp = sp - sp mod 16
                   in if sp < stackbase then exec_bad kend pagetable sz1 None s
                      else
                        bnd (copyout pagetable sp (concat (map (le_bytes 8) (ustack @ [0]))) s) (\<lambda>r s.
                        if r < 0 then exec_bad kend pagetable sz1 None s
                        else exec_commit kend path pagetable sz1 sp ustack entry p s))))))"

definition exec ::
    "u64 \<Rightarrow> u64 \<Rightarrow> byte list \<Rightarrow> u64 list \<Rightarrow> 'z fmach_scheme \<Rightarrow> ('z fmach_scheme, int) res" where
  "exec kend trampoline path argv s =
     bnd (curproc s) (\<lambda>p s.
     bnd (begin_op s) (\<lambda>_ s.
     bnd (namei path s) (\<lambda>ip s. case ip of
       None \<Rightarrow> bnd (end_op s) (\<lambda>_ s. Ok (-1) s)
     | Some ip \<Rightarrow>
         bnd (ilock ip s) (\<lambda>_ s.
         bnd (readi ip Local 0 64 s) (\<lambda>(r, bs) s.
         let elf = dec_elfhdr bs
         in if r \<noteq> 64 then exec_bad kend 0 0 (Some ip) s
            else if eh_magic elf \<noteq> ELF_MAGIC then exec_bad kend 0 0 (Some ip) s
            else
              bnd (proc_pagetable kend trampoline p s) (\<lambda>pagetable s.
              if pagetable = 0 then exec_bad kend 0 0 (Some ip) s
              else
                bnd (exec_load kend pagetable ip (ucast (eh_phoff elf)) 0 (unat (eh_phnum elf)) s) (\<lambda>(ok, sz) s.
                if \<not> ok then exec_bad kend pagetable sz (Some ip) s
                else
                  bnd (iunlockput ip s) (\<lambda>_ s.
                  bnd (end_op s) (\<lambda>_ s.
                  exec_stack kend path argv pagetable sz (eh_entry elf) p s)))))))))"

end
