(* ===== verification/Process.thy ===== *)
theory Process
  imports Exec
begin

text \<open>
  proc.c, the operations that call the file system: userinit, fork and exit. \<open>forkret_addr\<close> and
  \<open>trampoline\<close> are linker symbols.
\<close>

definition initcode :: "byte list" where
  "initcode = [
     0x17, 0x05, 0x00, 0x00, 0x13, 0x05, 0x45, 0x02,
     0x97, 0x05, 0x00, 0x00, 0x93, 0x85, 0x35, 0x02,
     0x93, 0x08, 0x70, 0x00, 0x73, 0x00, 0x00, 0x00,
     0x93, 0x08, 0x20, 0x00, 0x73, 0x00, 0x00, 0x00,
     0xef, 0xf0, 0x9f, 0xff, 0x2f, 0x69, 0x6e, 0x69,
     0x74, 0x00, 0x00, 0x24, 0x00, 0x00, 0x00, 0x00,
     0x00, 0x00, 0x00, 0x00]"

definition userinit :: "u64 \<Rightarrow> u64 \<Rightarrow> u64 \<Rightarrow> 'z kmach_scheme \<Rightarrow> ('z kmach_scheme, unit) res" where
  "userinit kend trampoline forkret_addr s =
     bnd (allocproc kend trampoline forkret_addr s) (\<lambda>r s.
     let s = s\<lparr>initproc := r\<rparr>
     in case r of
       None \<Rightarrow> Panic ''kerneltrap''
     | Some p \<Rightarrow>
         bnd (uvminit (p_pagetable (procs s p)) initcode s) (\<lambda>_ s.
         let s = set_proc p (\<lambda>q. q\<lparr>p_sz := PGSIZE\<rparr>) s;
             s = tf_set p TF_epc 0 s;
             s = tf_set p TF_sp PGSIZE s;
             s = set_proc p (\<lambda>q. q\<lparr>p_name := set_name (p_name q) (chars ''initcode'')\<rparr>) s
         in bnd (namei (chars ''/'') s) (\<lambda>ip s.
            let s = set_proc p (\<lambda>q. q\<lparr>p_cwd := ip\<rparr>) s;
                s = set_proc p (\<lambda>q. q\<lparr>p_state := RUNNABLE\<rparr>) s
            in release (ProcLock p) s)))"

primrec fork_files :: "nat \<Rightarrow> nat \<Rightarrow> nat \<Rightarrow> nat \<Rightarrow> 'z kmach_scheme \<Rightarrow> ('z kmach_scheme, unit) res" where
  "fork_files p np i 0 s = Ok () s"
| "fork_files p np i (Suc n) s =
     bnd (case p_ofile (procs s p) ! i of
            None \<Rightarrow> Ok () s
          | Some f \<Rightarrow>
              bnd (filedup f s) (\<lambda>f s.
              Ok () (set_proc np (\<lambda>q. q\<lparr>p_ofile := (p_ofile q)[i := Some f]\<rparr>) s))) (\<lambda>_ s.
     fork_files p np (Suc i) n s)"

definition fork_child :: "nat \<Rightarrow> nat \<Rightarrow> 'z kmach_scheme \<Rightarrow> ('z kmach_scheme, int) res" where
  "fork_child p np s =
     (let s = set_proc np (\<lambda>q. q\<lparr>p_sz := p_sz (procs s p), p_parent := Some p\<rparr>) s;
          s = s\<lparr>pmem := store_bytes (pmem s) (p_trapframe (procs s np))
                  (load_bytes (pmem s) (p_trapframe (procs s p)) TF_size)\<rparr>;
          s = tf_set np TF_a0 0 s
      in bnd (fork_files p np 0 NOFILE s) (\<lambda>_ s.
         case p_cwd (procs s p) of
           None \<Rightarrow> Panic ''kerneltrap''
         | Some cwd \<Rightarrow>
             bnd (idup cwd s) (\<lambda>cwd s.
             let s = set_proc np (\<lambda>q. q\<lparr>p_cwd := Some cwd\<rparr>) s;
                 s = set_proc np (\<lambda>q. q\<lparr>p_name := set_name (p_name q) (p_name (procs s p))\<rparr>) s;
                 pid = p_pid (procs s np);
                 s = set_proc np (\<lambda>q. q\<lparr>p_state := RUNNABLE\<rparr>) s
             in bnd (release (ProcLock np) s) (\<lambda>_ s. Ok pid s))))"

definition fork :: "u64 \<Rightarrow> u64 \<Rightarrow> u64 \<Rightarrow> 'z kmach_scheme \<Rightarrow> ('z kmach_scheme, int) res" where
  "fork kend trampoline forkret_addr s =
     bnd (curproc s) (\<lambda>p s.
     bnd (allocproc kend trampoline forkret_addr s) (\<lambda>r s. case r of
       None \<Rightarrow> Ok (-1) s
     | Some np \<Rightarrow>
         bnd (uvmcopy kend (p_pagetable (procs s p)) (p_pagetable (procs s np)) (p_sz (procs s p)) s) (\<lambda>r s.
         if r < 0 then
           bnd (freeproc kend np s) (\<lambda>_ s.
           bnd (release (ProcLock np) s) (\<lambda>_ s. Ok (-1) s))
         else fork_child p np s)))"

primrec exit_files :: "u64 \<Rightarrow> nat \<Rightarrow> nat \<Rightarrow> nat \<Rightarrow> 'z kmach_scheme \<Rightarrow> ('z kmach_scheme, unit) res" where
  "exit_files kend p fd 0 s = Ok () s"
| "exit_files kend p fd (Suc n) s =
     bnd (case p_ofile (procs s p) ! fd of
            None \<Rightarrow> Ok () s
          | Some f \<Rightarrow>
              bnd (fileclose kend f s) (\<lambda>_ s.
              Ok () (set_proc p (\<lambda>q. q\<lparr>p_ofile := (p_ofile q)[fd := None]\<rparr>) s))) (\<lambda>_ s.
     exit_files kend p (Suc fd) n s)"

text \<open>The last part of exit, from the lock of the parent to the switch to the scheduler.\<close>

definition exit_zombie :: "nat \<Rightarrow> int \<Rightarrow> nat \<Rightarrow> 'z mach_scheme \<Rightarrow> ('z mach_scheme, unit) res" where
  "exit_zombie p status original_parent s =
     bnd (acquire (ProcLock original_parent) s) (\<lambda>_ s.
     bnd (acquire (ProcLock p) s) (\<lambda>_ s.
     bnd (reparent p s) (\<lambda>_ s.
     bnd (wakeup1 original_parent s) (\<lambda>_ s.
     let s = set_proc p (\<lambda>q. q\<lparr>p_xstate := status, p_state := ZOMBIE\<rparr>) s
     in bnd (release (ProcLock original_parent) s) (\<lambda>_ s.
        bnd (sched s) (\<lambda>_ s. Panic ''zombie exit''))))))"

definition exit_proc :: "u64 \<Rightarrow> int \<Rightarrow> 'z kmach_scheme \<Rightarrow> ('z kmach_scheme, unit) res" where
  "exit_proc kend status s =
     bnd (curproc s) (\<lambda>p s.
     if initproc s = Some p then Panic ''init exiting''
     else
       bnd (exit_files kend p 0 NOFILE s) (\<lambda>_ s.
       bnd (begin_op s) (\<lambda>_ s.
       bnd (case p_cwd (procs s p) of None \<Rightarrow> Panic ''kerneltrap'' | Some cwd \<Rightarrow> iput cwd s) (\<lambda>_ s.
       bnd (end_op s) (\<lambda>_ s.
       let s = set_proc p (\<lambda>q. q\<lparr>p_cwd := None\<rparr>) s
       in case initproc s of
         None \<Rightarrow> Panic ''kerneltrap''
       | Some ini \<Rightarrow>
           bnd (acquire (ProcLock ini) s) (\<lambda>_ s.
           bnd (wakeup1 ini s) (\<lambda>_ s.
           bnd (release (ProcLock ini) s) (\<lambda>_ s.
           bnd (acquire (ProcLock p) s) (\<lambda>_ s.
           let parent = p_parent (procs s p)
           in bnd (release (ProcLock p) s) (\<lambda>_ s.
              case parent of
                None \<Rightarrow> Panic ''kerneltrap''
              | Some original_parent \<Rightarrow> exit_zombie p status original_parent s))))))))))"

end
