(* ===== verification/Sysfile.thy ===== *)
theory Sysfile
  imports Process
begin

text \<open>
  sysfile.c: the system calls on files. Each returns the value that the code returns, as an integer;
  syscall stores it in a0 as a 64-bit word. Where the code tests \<open>argint(...) < 0\<close> the test is never
  true and is left out.
\<close>

definition O_RDONLY :: u32 where "O_RDONLY = 0x000"
definition O_WRONLY :: u32 where "O_WRONLY = 0x001"
definition O_RDWR :: u32 where "O_RDWR = 0x002"
definition O_CREATE :: u32 where "O_CREATE = 0x200"
definition O_TRUNC :: u32 where "O_TRUNC = 0x400"

section \<open>File descriptors\<close>

definition argfd :: "nat \<Rightarrow> 'z kmach_scheme \<Rightarrow> ('z kmach_scheme, (nat \<times> nat) option) res" where
  "argfd n s =
     bnd (argint n s) (\<lambda>fd s.
       if fd < 0 \<or> fd \<ge> int NOFILE then Ok None s
       else
         bnd (curproc s) (\<lambda>p s.
         case p_ofile (procs s p) ! nat fd of
           None \<Rightarrow> Ok None s
         | Some f \<Rightarrow> Ok (Some (nat fd, f)) s))"

fun fdalloc_scan :: "nat \<Rightarrow> nat \<Rightarrow> nat option list \<Rightarrow> nat option" where
  "fdalloc_scan fd 0 ofile = None"
| "fdalloc_scan fd (Suc n) ofile = (if ofile ! fd = None then Some fd else fdalloc_scan (Suc fd) n ofile)"

definition fdalloc :: "nat \<Rightarrow> 'z mach_scheme \<Rightarrow> ('z mach_scheme, nat option) res" where
  "fdalloc f s =
     bnd (curproc s) (\<lambda>p s.
     case fdalloc_scan 0 NOFILE (p_ofile (procs s p)) of
       None \<Rightarrow> Ok None s
     | Some fd \<Rightarrow> Ok (Some fd) (set_proc p (\<lambda>q. q\<lparr>p_ofile := (p_ofile q)[fd := Some f]\<rparr>) s))"

definition sys_dup :: "'z kmach_scheme \<Rightarrow> ('z kmach_scheme, int) res" where
  "sys_dup s =
     bnd (argfd 0 s) (\<lambda>r s. case r of
       None \<Rightarrow> Ok (-1) s
     | Some (_, f) \<Rightarrow>
         bnd (fdalloc f s) (\<lambda>r s. case r of
           None \<Rightarrow> Ok (-1) s
         | Some fd \<Rightarrow> bnd (filedup f s) (\<lambda>_ s. Ok (int fd) s)))"

definition sys_read :: "'z kmach_scheme \<Rightarrow> ('z kmach_scheme, int) res" where
  "sys_read s =
     bnd (argfd 0 s) (\<lambda>r s. case r of
       None \<Rightarrow> Ok (-1) s
     | Some (_, f) \<Rightarrow>
         bnd (argint 2 s) (\<lambda>n s.
         bnd (argaddr 1 s) (\<lambda>p s. fileread f p n s)))"

definition sys_write :: "'z kmach_scheme \<Rightarrow> ('z kmach_scheme, int) res" where
  "sys_write s =
     bnd (argfd 0 s) (\<lambda>r s. case r of
       None \<Rightarrow> Ok (-1) s
     | Some (_, f) \<Rightarrow>
         bnd (argint 2 s) (\<lambda>n s.
         bnd (argaddr 1 s) (\<lambda>p s. filewrite f p n s)))"

definition sys_close :: "u64 \<Rightarrow> 'z kmach_scheme \<Rightarrow> ('z kmach_scheme, int) res" where
  "sys_close kend s =
     bnd (argfd 0 s) (\<lambda>r s. case r of
       None \<Rightarrow> Ok (-1) s
     | Some (fd, f) \<Rightarrow>
         bnd (curproc s) (\<lambda>p s.
         bnd (fileclose kend f (set_proc p (\<lambda>q. q\<lparr>p_ofile := (p_ofile q)[fd := None]\<rparr>) s)) (\<lambda>_ s.
         Ok 0 s)))"

definition sys_fstat :: "byte list \<Rightarrow> 'z kmach_scheme \<Rightarrow> ('z kmach_scheme, int) res" where
  "sys_fstat pad s =
     bnd (argfd 0 s) (\<lambda>r s. case r of
       None \<Rightarrow> Ok (-1) s
     | Some (_, f) \<Rightarrow> bnd (argaddr 1 s) (\<lambda>st s. filestat pad f st s))"

section \<open>Links\<close>

definition sys_link_bad :: "nat \<Rightarrow> 'z fmach_scheme \<Rightarrow> ('z fmach_scheme, int) res" where
  "sys_link_bad ip s =
     bnd (ilock ip s) (\<lambda>_ s.
     bnd (iupdate ip (set_inode ip (\<lambda>i. i\<lparr>i_nlink := i_nlink i - 1\<rparr>) s)) (\<lambda>_ s.
     bnd (iunlockput ip s) (\<lambda>_ s.
     bnd (end_op s) (\<lambda>_ s. Ok (-1) s))))"

definition sys_link_body :: "byte list \<Rightarrow> byte list \<Rightarrow> 'z fmach_scheme \<Rightarrow> ('z fmach_scheme, int) res" where
  "sys_link_body old new s =
     bnd (begin_op s) (\<lambda>_ s.
     bnd (namei old s) (\<lambda>ip s. case ip of
       None \<Rightarrow> bnd (end_op s) (\<lambda>_ s. Ok (-1) s)
     | Some ip \<Rightarrow>
         bnd (ilock ip s) (\<lambda>_ s.
         if i_type (icache s ip) = T_DIR then
           bnd (iunlockput ip s) (\<lambda>_ s.
           bnd (end_op s) (\<lambda>_ s. Ok (-1) s))
         else
           bnd (iupdate ip (set_inode ip (\<lambda>i. i\<lparr>i_nlink := i_nlink i + 1\<rparr>) s)) (\<lambda>_ s.
           bnd (iunlock ip s) (\<lambda>_ s.
           bnd (nameiparent new s) (\<lambda>(dp, name) s. case dp of
             None \<Rightarrow> sys_link_bad ip s
           | Some dp \<Rightarrow>
               bnd (ilock dp s) (\<lambda>_ s.
               bnd (if i_dev (icache s dp) \<noteq> i_dev (icache s ip) then Ok (-1) s
                    else dirlink dp name (i_inum (icache s ip)) s) (\<lambda>r s.
               if r < 0 then bnd (iunlockput dp s) (\<lambda>_ s. sys_link_bad ip s)
               else
                 bnd (iunlockput dp s) (\<lambda>_ s.
                 bnd (iput ip s) (\<lambda>_ s.
                 bnd (end_op s) (\<lambda>_ s. Ok 0 s)))))))))))"

definition sys_link :: "'z fmach_scheme \<Rightarrow> ('z fmach_scheme, int) res" where
  "sys_link s =
     bnd (argstr 0 MAXPATH s) (\<lambda>(r, old) s.
     if r < 0 then Ok (-1) s
     else
       bnd (argstr 1 MAXPATH s) (\<lambda>(r, new) s.
       if r < 0 then Ok (-1) s else sys_link_body old new s))"

text \<open>\<open>n\<close> counts the entries that remain from offset \<open>off\<close> on.\<close>

primrec isdirempty_loop :: "nat \<Rightarrow> nat \<Rightarrow> nat \<Rightarrow> 'z fmach_scheme \<Rightarrow> ('z fmach_scheme, bool) res" where
  "isdirempty_loop dp off 0 s = Ok True s"
| "isdirempty_loop dp off (Suc n) s =
     bnd (readi dp Local (of_nat off) 16 s) (\<lambda>(r, bs) s.
       if r \<noteq> 16 then Panic ''isdirempty: readi''
       else if de_inum (dec_dirent bs) \<noteq> 0 then Ok False s
       else isdirempty_loop dp (off + 16) n s)"

definition isdirempty :: "nat \<Rightarrow> 'z fmach_scheme \<Rightarrow> ('z fmach_scheme, bool) res" where
  "isdirempty dp s = isdirempty_loop dp 32 (dir_entries (i_size (icache s dp)) - 2) s"

definition sys_unlink_bad :: "nat \<Rightarrow> 'z fmach_scheme \<Rightarrow> ('z fmach_scheme, int) res" where
  "sys_unlink_bad dp s =
     bnd (iunlockput dp s) (\<lambda>_ s.
     bnd (end_op s) (\<lambda>_ s. Ok (-1) s))"

definition sys_unlink_entry :: "nat \<Rightarrow> nat \<Rightarrow> u32 \<Rightarrow> 'z fmach_scheme \<Rightarrow> ('z fmach_scheme, int) res" where
  "sys_unlink_entry dp ip off s =
     bnd (writei dp (FromLocal (replicate 16 0)) off 16 s) (\<lambda>r s.
     if r \<noteq> 16 then Panic ''unlink: writei''
     else
       bnd (if i_type (icache s ip) = T_DIR
            then iupdate dp (set_inode dp (\<lambda>i. i\<lparr>i_nlink := i_nlink i - 1\<rparr>) s) else Ok () s) (\<lambda>_ s.
       bnd (iunlockput dp s) (\<lambda>_ s.
       bnd (iupdate ip (set_inode ip (\<lambda>i. i\<lparr>i_nlink := i_nlink i - 1\<rparr>) s)) (\<lambda>_ s.
       bnd (iunlockput ip s) (\<lambda>_ s.
       bnd (end_op s) (\<lambda>_ s. Ok 0 s))))))"

definition sys_unlink_body :: "byte list \<Rightarrow> 'z fmach_scheme \<Rightarrow> ('z fmach_scheme, int) res" where
  "sys_unlink_body path s =
     bnd (begin_op s) (\<lambda>_ s.
     bnd (nameiparent path s) (\<lambda>(dp, name) s. case dp of
       None \<Rightarrow> bnd (end_op s) (\<lambda>_ s. Ok (-1) s)
     | Some dp \<Rightarrow>
         bnd (ilock dp s) (\<lambda>_ s.
         if namecmp name (chars ''.'') = 0 \<or> namecmp name (chars ''..'') = 0 then sys_unlink_bad dp s
         else
           bnd (dirlookup dp name s) (\<lambda>found s. case found of
             None \<Rightarrow> sys_unlink_bad dp s
           | Some (ip, off) \<Rightarrow>
               bnd (ilock ip s) (\<lambda>_ s.
               if sint (i_nlink (icache s ip)) < 1 then Panic ''unlink: nlink < 1''
               else
                 bnd (if i_type (icache s ip) = T_DIR then isdirempty ip s else Ok True s) (\<lambda>ok s.
                 if \<not> ok then bnd (iunlockput ip s) (\<lambda>_ s. sys_unlink_bad dp s)
                 else sys_unlink_entry dp ip off s))))))"

definition sys_unlink :: "'z fmach_scheme \<Rightarrow> ('z fmach_scheme, int) res" where
  "sys_unlink s =
     bnd (argstr 0 MAXPATH s) (\<lambda>(r, path) s.
     if r < 0 then Ok (-1) s else sys_unlink_body path s)"

section \<open>Creating and opening\<close>

definition create_new ::
    "nat \<Rightarrow> byte list \<Rightarrow> u16 \<Rightarrow> u16 \<Rightarrow> u16 \<Rightarrow> 'z fmach_scheme \<Rightarrow> ('z fmach_scheme, nat option) res" where
  "create_new dp name type major minor s =
     bnd (ialloc (i_dev (icache s dp)) type s) (\<lambda>ip s.
     bnd (ilock ip s) (\<lambda>_ s.
     bnd (iupdate ip (set_inode ip (\<lambda>i. i\<lparr>i_major := major, i_minor := minor, i_nlink := 1\<rparr>) s)) (\<lambda>_ s.
     bnd (if type = T_DIR then
            bnd (iupdate dp (set_inode dp (\<lambda>i. i\<lparr>i_nlink := i_nlink i + 1\<rparr>) s)) (\<lambda>_ s.
            bnd (dirlink ip (chars ''.'') (i_inum (icache s ip)) s) (\<lambda>r s.
            if r < 0 then Panic ''create dots''
            else
              bnd (dirlink ip (chars ''..'') (i_inum (icache s dp)) s) (\<lambda>r s.
              if r < 0 then Panic ''create dots'' else Ok () s)))
          else Ok () s) (\<lambda>_ s.
     bnd (dirlink dp name (i_inum (icache s ip)) s) (\<lambda>r s.
     if r < 0 then Panic ''create: dirlink''
     else bnd (iunlockput dp s) (\<lambda>_ s. Ok (Some ip) s))))))"

definition create ::
    "byte list \<Rightarrow> u16 \<Rightarrow> u16 \<Rightarrow> u16 \<Rightarrow> 'z fmach_scheme \<Rightarrow> ('z fmach_scheme, nat option) res" where
  "create path type major minor s =
     bnd (nameiparent path s) (\<lambda>(dp, name) s. case dp of
       None \<Rightarrow> Ok None s
     | Some dp \<Rightarrow>
         bnd (ilock dp s) (\<lambda>_ s.
         bnd (dirlookup dp name s) (\<lambda>found s. case found of
           Some (ip, _) \<Rightarrow>
             bnd (iunlockput dp s) (\<lambda>_ s.
             bnd (ilock ip s) (\<lambda>_ s.
             if type = T_FILE \<and> (i_type (icache s ip) = T_FILE \<or> i_type (icache s ip) = T_DEVICE)
             then Ok (Some ip) s
             else bnd (iunlockput ip s) (\<lambda>_ s. Ok None s)))
         | None \<Rightarrow> create_new dp name type major minor s)))"

definition sys_open_inode :: "byte list \<Rightarrow> u32 \<Rightarrow> 'z fmach_scheme \<Rightarrow> ('z fmach_scheme, nat option) res" where
  "sys_open_inode path omode s =
     (if omode AND O_CREATE \<noteq> 0 then create path T_FILE 0 0 s
      else
        bnd (namei path s) (\<lambda>ip s. case ip of
          None \<Rightarrow> Ok None s
        | Some ip \<Rightarrow>
            bnd (ilock ip s) (\<lambda>_ s.
            if i_type (icache s ip) = T_DIR \<and> omode \<noteq> O_RDONLY
            then bnd (iunlockput ip s) (\<lambda>_ s. Ok None s)
            else Ok (Some ip) s)))"

definition sys_open_fail :: "nat \<Rightarrow> 'z fmach_scheme \<Rightarrow> ('z fmach_scheme, int) res" where
  "sys_open_fail ip s =
     bnd (iunlockput ip s) (\<lambda>_ s.
     bnd (end_op s) (\<lambda>_ s. Ok (-1) s))"

definition sys_open_file ::
    "u64 \<Rightarrow> nat \<Rightarrow> u32 \<Rightarrow> 'z kmach_scheme \<Rightarrow> ('z kmach_scheme, int) res" where
  "sys_open_file kend ip omode s =
     bnd (filealloc s) (\<lambda>f s. case f of
       None \<Rightarrow> sys_open_fail ip s
     | Some f \<Rightarrow>
         bnd (fdalloc f s) (\<lambda>fd s. case fd of
           None \<Rightarrow> bnd (fileclose kend f s) (\<lambda>_ s. sys_open_fail ip s)
         | Some fd \<Rightarrow>
             (let s = (if i_type (icache s ip) = T_DEVICE
                       then set_file f (\<lambda>x. x\<lparr>f_type := FD_DEVICE, f_major := i_major (icache s ip)\<rparr>) s
                       else set_file f (\<lambda>x. x\<lparr>f_type := FD_INODE, f_off := 0\<rparr>) s);
                  s = set_file f (\<lambda>x. x\<lparr>f_ip := ip, f_readable := (omode AND O_WRONLY = 0),
                        f_writable := (omode AND O_WRONLY \<noteq> 0 \<or> omode AND O_RDWR \<noteq> 0)\<rparr>) s
              in bnd (if omode AND O_TRUNC \<noteq> 0 \<and> i_type (icache s ip) = T_FILE then itrunc ip s else Ok () s) (\<lambda>_ s.
                 bnd (iunlock ip s) (\<lambda>_ s.
                 bnd (end_op s) (\<lambda>_ s. Ok (int fd) s))))))"

definition sys_open :: "u64 \<Rightarrow> 'z kmach_scheme \<Rightarrow> ('z kmach_scheme, int) res" where
  "sys_open kend s =
     bnd (argstr 0 MAXPATH s) (\<lambda>(r, path) s.
     if r < 0 then Ok (-1) s
     else
       bnd (argint 1 s) (\<lambda>om s.
       let omode = of_int om
       in bnd (begin_op s) (\<lambda>_ s.
          bnd (sys_open_inode path omode s) (\<lambda>ip s. case ip of
            None \<Rightarrow> bnd (end_op s) (\<lambda>_ s. Ok (-1) s)
          | Some ip \<Rightarrow>
              if i_type (icache s ip) = T_DEVICE \<and> \<not> device_ok (i_major (icache s ip))
              then sys_open_fail ip s
              else sys_open_file kend ip omode s))))"

definition sys_mkdir :: "'z fmach_scheme \<Rightarrow> ('z fmach_scheme, int) res" where
  "sys_mkdir s =
     bnd (begin_op s) (\<lambda>_ s.
     bnd (argstr 0 MAXPATH s) (\<lambda>(r, path) s.
     bnd (if r < 0 then Ok None s else create path T_DIR 0 0 s) (\<lambda>ip s. case ip of
       None \<Rightarrow> bnd (end_op s) (\<lambda>_ s. Ok (-1) s)
     | Some ip \<Rightarrow>
         bnd (iunlockput ip s) (\<lambda>_ s.
         bnd (end_op s) (\<lambda>_ s. Ok 0 s)))))"

definition sys_mknod :: "'z fmach_scheme \<Rightarrow> ('z fmach_scheme, int) res" where
  "sys_mknod s =
     bnd (begin_op s) (\<lambda>_ s.
     bnd (argstr 0 MAXPATH s) (\<lambda>(r, path) s.
     bnd (if r < 0 then Ok None s
          else
            bnd (argint 1 s) (\<lambda>major s.
            bnd (argint 2 s) (\<lambda>minor s.
            create path T_DEVICE (of_int major) (of_int minor) s))) (\<lambda>ip s. case ip of
       None \<Rightarrow> bnd (end_op s) (\<lambda>_ s. Ok (-1) s)
     | Some ip \<Rightarrow>
         bnd (iunlockput ip s) (\<lambda>_ s.
         bnd (end_op s) (\<lambda>_ s. Ok 0 s)))))"

definition sys_chdir :: "'z fmach_scheme \<Rightarrow> ('z fmach_scheme, int) res" where
  "sys_chdir s =
     bnd (curproc s) (\<lambda>p s.
     bnd (begin_op s) (\<lambda>_ s.
     bnd (argstr 0 MAXPATH s) (\<lambda>(r, path) s.
     bnd (if r < 0 then Ok None s else namei path s) (\<lambda>ip s. case ip of
       None \<Rightarrow> bnd (end_op s) (\<lambda>_ s. Ok (-1) s)
     | Some ip \<Rightarrow>
         bnd (ilock ip s) (\<lambda>_ s.
         if i_type (icache s ip) \<noteq> T_DIR then
           bnd (iunlockput ip s) (\<lambda>_ s.
           bnd (end_op s) (\<lambda>_ s. Ok (-1) s))
         else
           bnd (iunlock ip s) (\<lambda>_ s.
           bnd (case p_cwd (procs s p) of None \<Rightarrow> Panic ''kerneltrap'' | Some cwd \<Rightarrow> iput cwd s) (\<lambda>_ s.
           bnd (end_op s) (\<lambda>_ s.
           Ok 0 (set_proc p (\<lambda>q. q\<lparr>p_cwd := Some ip\<rparr>) s)))))))))"

section \<open>exec and pipe\<close>

text \<open>
  Fetching the argument vector, with \<open>n\<close> slots of the array left: whether it has succeeded, and the
  pages allocated so far.
\<close>

primrec sys_exec_args ::
    "u64 \<Rightarrow> nat \<Rightarrow> nat \<Rightarrow> u64 list \<Rightarrow> 'z kmach_scheme \<Rightarrow> ('z kmach_scheme, bool \<times> u64 list) res" where
  "sys_exec_args uargv i 0 argv s = Ok (False, argv) s"
| "sys_exec_args uargv i (Suc n) argv s =
     bnd (fetchaddr (uargv + 8 * of_nat i) s) (\<lambda>(r, uarg) s.
       if r < 0 then Ok (False, argv) s
       else if uarg = 0 then Ok (True, argv) s
       else
         bnd (kalloc s) (\<lambda>pa s.
         if pa = 0 then Ok (False, argv) s
         else
           bnd (fetchstr uarg (unat PGSIZE) s) (\<lambda>(r, str) s.
           let s = s\<lparr>pmem := store_bytes (pmem s) pa (if r < 0 then str else str @ [0])\<rparr>
           in if r < 0 then Ok (False, argv @ [pa]) s
              else sys_exec_args uargv (Suc i) n (argv @ [pa]) s)))"

fun sys_exec_free :: "u64 \<Rightarrow> u64 list \<Rightarrow> 'z kmach_scheme \<Rightarrow> ('z kmach_scheme, unit) res" where
  "sys_exec_free kend [] s = Ok () s"
| "sys_exec_free kend (a # argv) s = bnd (kfree kend a s) (\<lambda>_ s. sys_exec_free kend argv s)"

definition sys_exec :: "u64 \<Rightarrow> u64 \<Rightarrow> 'z kmach_scheme \<Rightarrow> ('z kmach_scheme, int) res" where
  "sys_exec kend trampoline s =
     bnd (argstr 0 MAXPATH s) (\<lambda>(r, path) s.
     if r < 0 then Ok (-1) s
     else
       bnd (argaddr 1 s) (\<lambda>uargv s.
       bnd (sys_exec_args uargv 0 MAXARG [] s) (\<lambda>(ok, argv) s.
       bnd (if ok then exec kend trampoline path argv s else Ok (-1) s) (\<lambda>ret s.
       bnd (sys_exec_free kend argv s) (\<lambda>_ s. Ok ret s)))))"

definition sys_pipe_undo :: "u64 \<Rightarrow> nat \<Rightarrow> nat list \<Rightarrow> nat \<Rightarrow> nat \<Rightarrow> 'z kmach_scheme \<Rightarrow> ('z kmach_scheme, int) res" where
  "sys_pipe_undo kend p fds rfile wfile s =
     (let s = foldl (\<lambda>s fd. set_proc p (\<lambda>q. q\<lparr>p_ofile := (p_ofile q)[fd := None]\<rparr>) s) s fds
      in bnd (fileclose kend rfile s) (\<lambda>_ s.
         bnd (fileclose kend wfile s) (\<lambda>_ s. Ok (-1) s)))"

definition sys_pipe :: "u64 \<Rightarrow> 'z kmach_scheme \<Rightarrow> ('z kmach_scheme, int) res" where
  "sys_pipe kend s =
     bnd (curproc s) (\<lambda>p s.
     bnd (argaddr 0 s) (\<lambda>fdarray s.
     bnd (pipealloc kend s) (\<lambda>r s. case r of
       None \<Rightarrow> Ok (-1) s
     | Some (rfile, wfile) \<Rightarrow>
         bnd (fdalloc rfile s) (\<lambda>fd0 s. case fd0 of
           None \<Rightarrow> sys_pipe_undo kend p [] rfile wfile s
         | Some fd0 \<Rightarrow>
             bnd (fdalloc wfile s) (\<lambda>fd1 s. case fd1 of
               None \<Rightarrow> sys_pipe_undo kend p [fd0] rfile wfile s
             | Some fd1 \<Rightarrow>
                 bnd (copyout (p_pagetable (procs s p)) fdarray (le_bytes 4 (of_nat fd0 :: u32)) s) (\<lambda>r s.
                 if r < 0 then sys_pipe_undo kend p [fd0, fd1] rfile wfile s
                 else
                   bnd (copyout (p_pagetable (procs s p)) (fdarray + 4) (le_bytes 4 (of_nat fd1 :: u32)) s) (\<lambda>r s.
                   if r < 0 then sys_pipe_undo kend p [fd0, fd1] rfile wfile s
                   else Ok 0 s)))))))"

end
