(* ===== verification/Virtio.thy ===== *)
theory Virtio
  imports Bio
begin

text \<open>
  virtio_disk.c: the disk driver. \<open>d_avail_idx\<close> is avail[1] and \<open>d_avail_ring i\<close> is avail[2 + i];
  \<open>d_writes\<close> lists the writes to the device's registers, latest first. The device is not part of the
  kernel: \<open>mmio\<close> gives the values its registers have when the driver starts, and \<open>device_step\<close> is
  what it may do with a request, as the virtio specification has it for a legacy block device. A
  process that waits for a descriptor or for its request ends in \<open>Sched\<close> and goes on in one of the
  two \<open>_resume\<close> functions.
\<close>

definition NUM :: nat where "NUM = 8"
definition VIRTIO_MMIO_MAGIC_VALUE :: nat where "VIRTIO_MMIO_MAGIC_VALUE = 0x000"
definition VIRTIO_MMIO_VERSION :: nat where "VIRTIO_MMIO_VERSION = 0x004"
definition VIRTIO_MMIO_DEVICE_ID :: nat where "VIRTIO_MMIO_DEVICE_ID = 0x008"
definition VIRTIO_MMIO_VENDOR_ID :: nat where "VIRTIO_MMIO_VENDOR_ID = 0x00c"
definition VIRTIO_MMIO_DEVICE_FEATURES :: nat where "VIRTIO_MMIO_DEVICE_FEATURES = 0x010"
definition VIRTIO_MMIO_DRIVER_FEATURES :: nat where "VIRTIO_MMIO_DRIVER_FEATURES = 0x020"
definition VIRTIO_MMIO_GUEST_PAGE_SIZE :: nat where "VIRTIO_MMIO_GUEST_PAGE_SIZE = 0x028"
definition VIRTIO_MMIO_QUEUE_SEL :: nat where "VIRTIO_MMIO_QUEUE_SEL = 0x030"
definition VIRTIO_MMIO_QUEUE_NUM_MAX :: nat where "VIRTIO_MMIO_QUEUE_NUM_MAX = 0x034"
definition VIRTIO_MMIO_QUEUE_NUM :: nat where "VIRTIO_MMIO_QUEUE_NUM = 0x038"
definition VIRTIO_MMIO_QUEUE_PFN :: nat where "VIRTIO_MMIO_QUEUE_PFN = 0x040"
definition VIRTIO_MMIO_QUEUE_NOTIFY :: nat where "VIRTIO_MMIO_QUEUE_NOTIFY = 0x050"
definition VIRTIO_MMIO_INTERRUPT_ACK :: nat where "VIRTIO_MMIO_INTERRUPT_ACK = 0x064"
definition VIRTIO_MMIO_STATUS :: nat where "VIRTIO_MMIO_STATUS = 0x070"
definition VIRTIO_CONFIG_S_ACKNOWLEDGE :: u32 where "VIRTIO_CONFIG_S_ACKNOWLEDGE = 1"
definition VIRTIO_CONFIG_S_DRIVER :: u32 where "VIRTIO_CONFIG_S_DRIVER = 2"
definition VIRTIO_CONFIG_S_DRIVER_OK :: u32 where "VIRTIO_CONFIG_S_DRIVER_OK = 4"
definition VIRTIO_CONFIG_S_FEATURES_OK :: u32 where "VIRTIO_CONFIG_S_FEATURES_OK = 8"
definition VIRTIO_BLK_F_RO :: nat where "VIRTIO_BLK_F_RO = 5"
definition VIRTIO_BLK_F_SCSI :: nat where "VIRTIO_BLK_F_SCSI = 7"
definition VIRTIO_BLK_F_CONFIG_WCE :: nat where "VIRTIO_BLK_F_CONFIG_WCE = 11"
definition VIRTIO_BLK_F_MQ :: nat where "VIRTIO_BLK_F_MQ = 12"
definition VIRTIO_F_ANY_LAYOUT :: nat where "VIRTIO_F_ANY_LAYOUT = 27"
definition VIRTIO_RING_F_INDIRECT_DESC :: nat where "VIRTIO_RING_F_INDIRECT_DESC = 28"
definition VIRTIO_RING_F_EVENT_IDX :: nat where "VIRTIO_RING_F_EVENT_IDX = 29"
definition VRING_DESC_F_NEXT :: u16 where "VRING_DESC_F_NEXT = 1"
definition VRING_DESC_F_WRITE :: u16 where "VRING_DESC_F_WRITE = 2"
definition VIRTIO_BLK_T_IN :: u32 where "VIRTIO_BLK_T_IN = 0"
definition VIRTIO_BLK_T_OUT :: u32 where "VIRTIO_BLK_T_OUT = 1"

definition set_vd :: "(vdisk \<Rightarrow> vdisk) \<Rightarrow> 'z bmach_scheme \<Rightarrow> 'z bmach_scheme" where
  "set_vd f s = s\<lparr>vd := f (vd s)\<rparr>"

definition set_desc :: "nat \<Rightarrow> (VRingDesc \<Rightarrow> VRingDesc) \<Rightarrow> 'z bmach_scheme \<Rightarrow> 'z bmach_scheme" where
  "set_desc i f s = set_vd (\<lambda>d. d\<lparr>d_desc := (d_desc d)(i := f (d_desc d i))\<rparr>) s"

definition write_R :: "nat \<Rightarrow> u32 \<Rightarrow> 'z bmach_scheme \<Rightarrow> 'z bmach_scheme" where
  "write_R r v s = set_vd (\<lambda>d. d\<lparr>d_writes := (r, v) # d_writes d\<rparr>) s"

section \<open>Starting the device\<close>

definition clear_features :: "u32 \<Rightarrow> u32" where
  "clear_features features =
     foldl (\<lambda>f b. f AND NOT (push_bit b 1)) features
       [VIRTIO_BLK_F_RO, VIRTIO_BLK_F_SCSI, VIRTIO_BLK_F_CONFIG_WCE, VIRTIO_BLK_F_MQ,
        VIRTIO_F_ANY_LAYOUT, VIRTIO_RING_F_EVENT_IDX, VIRTIO_RING_F_INDIRECT_DESC]"

definition desc0 :: VRingDesc where
  "desc0 = \<lparr>vd_addr = DNull, vd_len = 0, vd_flags = 0, vd_next = 0\<rparr>"

text \<open>\<open>pages\<close>: the address of the two pages that hold the rings.\<close>

definition virtio_disk_init :: "(nat \<Rightarrow> u32) \<Rightarrow> u64 \<Rightarrow> 'z bmach_scheme \<Rightarrow> ('z bmach_scheme, unit) res" where
  "virtio_disk_init mmio pages s =
     (let s = initlock VdiskLock ''virtio_disk'' s
      in if mmio VIRTIO_MMIO_MAGIC_VALUE \<noteq> 0x74726976 \<or> mmio VIRTIO_MMIO_VERSION \<noteq> 1 \<or>
            mmio VIRTIO_MMIO_DEVICE_ID \<noteq> 2 \<or> mmio VIRTIO_MMIO_VENDOR_ID \<noteq> 0x554d4551
         then Panic ''could not find virtio disk''
         else
           (let status = VIRTIO_CONFIG_S_ACKNOWLEDGE;
                s = write_R VIRTIO_MMIO_STATUS status s;
                status = status OR VIRTIO_CONFIG_S_DRIVER;
                s = write_R VIRTIO_MMIO_STATUS status s;
                s = write_R VIRTIO_MMIO_DRIVER_FEATURES (clear_features (mmio VIRTIO_MMIO_DEVICE_FEATURES)) s;
                status = status OR VIRTIO_CONFIG_S_FEATURES_OK;
                s = write_R VIRTIO_MMIO_STATUS status s;
                status = status OR VIRTIO_CONFIG_S_DRIVER_OK;
                s = write_R VIRTIO_MMIO_STATUS status s;
                s = write_R VIRTIO_MMIO_GUEST_PAGE_SIZE (ucast PGSIZE) s;
                s = write_R VIRTIO_MMIO_QUEUE_SEL 0 s
            in if mmio VIRTIO_MMIO_QUEUE_NUM_MAX = 0 then Panic ''virtio disk has no queue 0''
               else if mmio VIRTIO_MMIO_QUEUE_NUM_MAX < of_nat NUM then Panic ''virtio disk max queue too short''
               else
                 (let s = write_R VIRTIO_MMIO_QUEUE_NUM (of_nat NUM) s;
                      s = set_vd (\<lambda>d. d\<lparr>d_desc := (\<lambda>_. desc0), d_avail_idx := 0, d_avail_ring := (\<lambda>_. 0),
                            d_used_id := 0, d_used_elems := (\<lambda>_. 0)\<rparr>) s;
                      s = write_R VIRTIO_MMIO_QUEUE_PFN (ucast (drop_bit 12 pages)) s
                  in Ok () (set_vd (\<lambda>d. d\<lparr>d_free := (\<lambda>i. i < NUM \<or> d_free d i)\<rparr>) s))))"

section \<open>Descriptors\<close>

fun alloc_desc_loop :: "nat \<Rightarrow> nat \<Rightarrow> (nat \<Rightarrow> bool) \<Rightarrow> nat option" where
  "alloc_desc_loop i 0 free = None"
| "alloc_desc_loop i (Suc n) free = (if free i then Some i else alloc_desc_loop (Suc i) n free)"

definition alloc_desc :: "'z bmach_scheme \<Rightarrow> nat option \<times> 'z bmach_scheme" where
  "alloc_desc s =
     (case alloc_desc_loop 0 NUM (d_free (vd s)) of
        None \<Rightarrow> (None, s)
      | Some i \<Rightarrow> (Some i, set_vd (\<lambda>d. d\<lparr>d_free := (d_free d)(i := False)\<rparr>) s))"

definition free_desc :: "nat \<Rightarrow> 'z bmach_scheme \<Rightarrow> ('z bmach_scheme, unit) res" where
  "free_desc i s =
     (if i \<ge> NUM then Panic ''virtio_disk_intr 1''
      else if d_free (vd s) i then Panic ''virtio_disk_intr 2''
      else
        (let s = set_desc i (\<lambda>x. x\<lparr>vd_addr := DNull\<rparr>) s;
             s = set_vd (\<lambda>d. d\<lparr>d_free := (d_free d)(i := True)\<rparr>) s
         in wakeup DiskFreeChan s))"

text \<open>Freeing a descriptor twice panics, so a chain is at most NUM long.\<close>

fun free_chain_loop :: "nat \<Rightarrow> nat \<Rightarrow> 'z bmach_scheme \<Rightarrow> ('z bmach_scheme, unit) res" where
  "free_chain_loop 0 i s = Fuel"
| "free_chain_loop (Suc n) i s =
     bnd (free_desc i s) (\<lambda>_ s.
       if vd_flags (d_desc (vd s) i) AND VRING_DESC_F_NEXT \<noteq> 0
       then free_chain_loop n (vd_next (d_desc (vd s) i)) s
       else Ok () s)"

definition free_chain :: "nat \<Rightarrow> 'z bmach_scheme \<Rightarrow> ('z bmach_scheme, unit) res" where
  "free_chain i s = free_chain_loop (Suc NUM) i s"

definition alloc3_desc :: "'z bmach_scheme \<Rightarrow> ('z bmach_scheme, (nat \<times> nat \<times> nat) option) res" where
  "alloc3_desc s =
     (case alloc_desc s of
        (None, s) \<Rightarrow> Ok None s
      | (Some i0, s) \<Rightarrow>
          (case alloc_desc s of
             (None, s) \<Rightarrow> bnd (free_desc i0 s) (\<lambda>_ s. Ok None s)
           | (Some i1, s) \<Rightarrow>
               (case alloc_desc s of
                  (None, s) \<Rightarrow>
                    bnd (free_desc i0 s) (\<lambda>_ s.
                    bnd (free_desc i1 s) (\<lambda>_ s. Ok None s))
                | (Some i2, s) \<Rightarrow> Ok (Some (i0, i1, i2)) s)))"

section \<open>Requests\<close>

text \<open>From the formatting of the three descriptors to the notification of the device.\<close>

definition virtio_submit :: "nat \<Rightarrow> bool \<Rightarrow> nat \<times> nat \<times> nat \<Rightarrow> 'z bmach_scheme \<Rightarrow> 'z bmach_scheme" where
  "virtio_submit b write idx s =
     (case idx of (i0, i1, i2) \<Rightarrow>
        (let sector = ucast (b_blockno (bufs s b) * of_nat (BSIZE div 512));
             type = (if write then VIRTIO_BLK_T_OUT else VIRTIO_BLK_T_IN);
             s = set_desc i0 (\<lambda>x. x\<lparr>vd_addr := DHeader type sector, vd_len := 16,
                   vd_flags := VRING_DESC_F_NEXT, vd_next := i1\<rparr>) s;
             s = set_desc i1 (\<lambda>x. x\<lparr>vd_addr := DData b, vd_len := of_nat BSIZE,
                   vd_flags := (if write then 0 else VRING_DESC_F_WRITE) OR VRING_DESC_F_NEXT, vd_next := i2\<rparr>) s;
             s = set_vd (\<lambda>d. d\<lparr>d_info_status := (d_info_status d)(i0 := 0)\<rparr>) s;
             s = set_desc i2 (\<lambda>x. x\<lparr>vd_addr := DStatus i0, vd_len := 1,
                   vd_flags := VRING_DESC_F_WRITE, vd_next := 0\<rparr>) s;
             s = set_buf b (\<lambda>x. x\<lparr>b_disk := True\<rparr>) s;
             s = set_vd (\<lambda>d. d\<lparr>d_info_b := (d_info_b d)(i0 := Some b)\<rparr>) s;
             s = set_vd (\<lambda>d. d\<lparr>d_avail_ring := (d_avail_ring d)(unat (d_avail_idx d) mod NUM := i0)\<rparr>) s;
             s = set_vd (\<lambda>d. d\<lparr>d_avail_idx := d_avail_idx d + 1\<rparr>) s
         in write_R VIRTIO_MMIO_QUEUE_NOTIFY 0 s))"

text \<open>The wait for the interrupt handler and the end of virtio_disk_rw, with the lock held.\<close>

definition virtio_disk_rw_wait :: "nat \<Rightarrow> nat \<Rightarrow> 'z bmach_scheme \<Rightarrow> ('z bmach_scheme, unit) res" where
  "virtio_disk_rw_wait b i0 s =
     (if b_disk (bufs s b) then sleep (DiskBufChan b) VdiskLock s
      else
        (let s = set_vd (\<lambda>d. d\<lparr>d_info_b := (d_info_b d)(i0 := None)\<rparr>) s
         in bnd (free_chain i0 s) (\<lambda>_ s. release VdiskLock s)))"

definition virtio_disk_rw_loop :: "nat \<Rightarrow> bool \<Rightarrow> 'z bmach_scheme \<Rightarrow> ('z bmach_scheme, unit) res" where
  "virtio_disk_rw_loop b write s =
     bnd (alloc3_desc s) (\<lambda>idx s. case idx of
       None \<Rightarrow> sleep DiskFreeChan VdiskLock s
     | Some (i0, i1, i2) \<Rightarrow> virtio_disk_rw_wait b i0 (virtio_submit b write (i0, i1, i2) s))"

definition virtio_disk_rw :: "nat \<Rightarrow> bool \<Rightarrow> 'z bmach_scheme \<Rightarrow> ('z bmach_scheme, unit) res" where
  "virtio_disk_rw b write s = bnd (acquire VdiskLock s) (\<lambda>_ s. virtio_disk_rw_loop b write s)"

definition virtio_disk_rw_alloc_resume ::
    "nat \<Rightarrow> bool \<Rightarrow> nat \<Rightarrow> bool \<Rightarrow> 'z bmach_scheme \<Rightarrow> ('z bmach_scheme, unit) res" where
  "virtio_disk_rw_alloc_resume p saved b write s =
     bnd (sleep_resume p VdiskLock saved s) (\<lambda>_ s. virtio_disk_rw_loop b write s)"

definition virtio_disk_rw_resume ::
    "nat \<Rightarrow> bool \<Rightarrow> nat \<Rightarrow> nat \<Rightarrow> 'z bmach_scheme \<Rightarrow> ('z bmach_scheme, unit) res" where
  "virtio_disk_rw_resume p saved b i0 s =
     bnd (sleep_resume p VdiskLock saved s) (\<lambda>_ s. virtio_disk_rw_wait b i0 s)"

text \<open>At most NUM - 1 entries of the used ring are new.\<close>

fun virtio_disk_intr_loop :: "nat \<Rightarrow> 'z bmach_scheme \<Rightarrow> ('z bmach_scheme, unit) res" where
  "virtio_disk_intr_loop 0 s = Fuel"
| "virtio_disk_intr_loop (Suc n) s =
     (if unat (d_used_idx (vd s)) mod NUM \<noteq> unat (d_used_id (vd s)) mod NUM then
        (let i = d_used_elems (vd s) (unat (d_used_idx (vd s)))
         in if d_info_status (vd s) i \<noteq> 0 then Panic ''virtio_disk_intr status''
            else (case d_info_b (vd s) i of
              None \<Rightarrow> Panic ''kerneltrap''
            | Some b \<Rightarrow>
                bnd (wakeup (DiskBufChan b) (set_buf b (\<lambda>x. x\<lparr>b_disk := False\<rparr>) s)) (\<lambda>_ s.
                virtio_disk_intr_loop n
                  (set_vd (\<lambda>d. d\<lparr>d_used_idx := (d_used_idx d + 1) mod of_nat NUM\<rparr>) s))))
      else Ok () s)"

text \<open>\<open>status\<close>: what the interrupt status register reads.\<close>

definition virtio_disk_intr :: "u32 \<Rightarrow> 'z bmach_scheme \<Rightarrow> ('z bmach_scheme, unit) res" where
  "virtio_disk_intr status s =
     bnd (acquire VdiskLock s) (\<lambda>_ s.
     bnd (virtio_disk_intr_loop NUM s) (\<lambda>_ s.
     release VdiskLock (write_R VIRTIO_MMIO_INTERRUPT_ACK (status AND 3) s)))"

section \<open>The device\<close>

text \<open>
  The device takes the chain whose head is in the available ring at its own position \<open>k\<close>: a header, a
  data buffer of one block that it may write exactly when the request is a read, and a status byte. It
  transfers the two sectors, clears the status byte and puts the head on the used ring.
\<close>

definition device_transfer :: "u32 \<Rightarrow> u64 \<Rightarrow> nat \<Rightarrow> 'z bmach_scheme \<Rightarrow> 'z bmach_scheme" where
  "device_transfer type sector b s =
     (let n = unat sector div (BSIZE div 512)
      in if type = VIRTIO_BLK_T_OUT
         then s\<lparr>disk := (disk s)(n := b_data (bufs s b)), dhist := (n, b_data (bufs s b)) # dhist s\<rparr>
         else set_buf b (\<lambda>x. x\<lparr>b_data := disk s n\<rparr>) s)"

definition device_complete :: "nat \<Rightarrow> nat \<Rightarrow> 'z bmach_scheme \<Rightarrow> 'z bmach_scheme" where
  "device_complete i st s =
     set_vd (\<lambda>d. d\<lparr>d_info_status := (d_info_status d)(st := 0),
                  d_used_elems := (d_used_elems d)(unat (d_used_id d) mod NUM := i),
                  d_used_id := d_used_id d + 1\<rparr>) s"

inductive device_step :: "u16 \<Rightarrow> 'z bmach_scheme \<Rightarrow> 'z bmach_scheme \<Rightarrow> bool" where
  device_request:
  "k \<noteq> d_avail_idx (vd s) \<Longrightarrow>
   i0 = d_avail_ring (vd s) (unat k mod NUM) \<Longrightarrow>
   d_desc (vd s) i0 = \<lparr>vd_addr = DHeader type sector, vd_len = 16, vd_flags = VRING_DESC_F_NEXT, vd_next = i1\<rparr> \<Longrightarrow>
   d_desc (vd s) i1 = \<lparr>vd_addr = DData b, vd_len = of_nat BSIZE,
     vd_flags = (if type = VIRTIO_BLK_T_OUT then 0 else VRING_DESC_F_WRITE) OR VRING_DESC_F_NEXT, vd_next = i2\<rparr> \<Longrightarrow>
   d_desc (vd s) i2 = \<lparr>vd_addr = DStatus st, vd_len = 1, vd_flags = VRING_DESC_F_WRITE, vd_next = x\<rparr> \<Longrightarrow>
   device_step k s (device_complete i0 st (device_transfer type sector b s))"

end
