(* ===== verification/Syscall.thy ===== *)
theory Syscall
  imports Sysfile Virtio
begin

text \<open>
  sysproc.c, the dispatch of syscall.c, plic.c and trap.c. The addresses that the linker provides are
  collected in a record. The state gets its last fields: the answers the interrupt controller will give
  to the next claims and the writes made to it, latest first, and the static variable \<open>first\<close> of
  forkret. A system call that blocks ends in \<open>Sched\<close>, as does one that exits.
\<close>

record ksyms =
  sym_end :: u64
  sym_trampoline :: u64
  sym_forkret :: u64
  sym_kernelvec :: u64
  sym_uservec :: u64
  sym_userret :: u64
  sym_usertrap :: u64

record xmach = kmach +
  plic_claims :: "u32 list"
  plic_writes :: "(u64 \<times> u32) list"
  vdisk_irq_status :: u32
  forkret_first :: bool

section \<open>System calls on processes\<close>

definition sys_exit :: "ksyms \<Rightarrow> 'z kmach_scheme \<Rightarrow> ('z kmach_scheme, int) res" where
  "sys_exit k s =
     bnd (argint 0 s) (\<lambda>n s.
     bnd (exit_proc (sym_end k) n s) (\<lambda>_ s. Ok 0 s))"

definition sys_getpid :: "'z mach_scheme \<Rightarrow> ('z mach_scheme, int) res" where
  "sys_getpid s = bnd (curproc s) (\<lambda>p s. Ok (p_pid (procs s p)) s)"

definition sys_fork :: "ksyms \<Rightarrow> 'z kmach_scheme \<Rightarrow> ('z kmach_scheme, int) res" where
  "sys_fork k s = fork (sym_end k) (sym_trampoline k) (sym_forkret k) s"

definition sys_wait :: "ksyms \<Rightarrow> 'z mach_scheme \<Rightarrow> ('z mach_scheme, int) res" where
  "sys_wait k s = bnd (argaddr 0 s) (\<lambda>p s. wait (sym_end k) p s)"

definition sys_sbrk :: "ksyms \<Rightarrow> 'z mach_scheme \<Rightarrow> ('z mach_scheme, int) res" where
  "sys_sbrk k s =
     bnd (argint 0 s) (\<lambda>n s.
     bnd (curproc s) (\<lambda>p s.
     let addr = sint (ucast (p_sz (procs s p)) :: u32)
     in bnd (growproc (sym_end k) n s) (\<lambda>r s.
        if r < 0 then Ok (-1) s else Ok addr s)))"

text \<open>The waiting loop of sys_sleep; the comparison is one of unsigned numbers.\<close>

definition sys_sleep_loop :: "u32 \<Rightarrow> int \<Rightarrow> 'z mach_scheme \<Rightarrow> ('z mach_scheme, int) res" where
  "sys_sleep_loop ticks0 n s =
     (if ticks s - ticks0 < of_int n then
        bnd (curproc s) (\<lambda>p s.
        if p_killed (procs s p) then bnd (release TicksLock s) (\<lambda>_ s. Ok (-1) s)
        else bnd (sleep TicksChan TicksLock s) (\<lambda>_ s. Ok 0 s))
      else bnd (release TicksLock s) (\<lambda>_ s. Ok 0 s))"

definition sys_sleep :: "'z mach_scheme \<Rightarrow> ('z mach_scheme, int) res" where
  "sys_sleep s =
     bnd (argint 0 s) (\<lambda>n s.
     bnd (acquire TicksLock s) (\<lambda>_ s. sys_sleep_loop (ticks s) n s))"

definition sys_sleep_resume ::
    "nat \<Rightarrow> bool \<Rightarrow> u32 \<Rightarrow> int \<Rightarrow> 'z mach_scheme \<Rightarrow> ('z mach_scheme, int) res" where
  "sys_sleep_resume p saved ticks0 n s =
     bnd (sleep_resume p TicksLock saved s) (\<lambda>_ s. sys_sleep_loop ticks0 n s)"

definition sys_kill :: "'z mach_scheme \<Rightarrow> ('z mach_scheme, int) res" where
  "sys_kill s = bnd (argint 0 s) (\<lambda>pid s. kill pid s)"

definition sys_uptime :: "'z mach_scheme \<Rightarrow> ('z mach_scheme, int) res" where
  "sys_uptime s =
     bnd (acquire TicksLock s) (\<lambda>_ s.
     let xticks = ticks s
     in bnd (release TicksLock s) (\<lambda>_ s. Ok (uint xticks) s))"

section \<open>Dispatch\<close>

datatype sysno =
    SYS_fork | SYS_exit | SYS_wait | SYS_pipe | SYS_read | SYS_kill | SYS_exec | SYS_fstat | SYS_chdir
  | SYS_dup | SYS_getpid | SYS_sbrk | SYS_sleep | SYS_uptime | SYS_open | SYS_write | SYS_mknod
  | SYS_unlink | SYS_link | SYS_mkdir | SYS_close

definition sysno_of :: "int \<Rightarrow> sysno option" where
  "sysno_of num =
     (let table = [SYS_fork, SYS_exit, SYS_wait, SYS_pipe, SYS_read, SYS_kill, SYS_exec, SYS_fstat,
            SYS_chdir, SYS_dup, SYS_getpid, SYS_sbrk, SYS_sleep, SYS_uptime, SYS_open, SYS_write, SYS_mknod,
            SYS_unlink, SYS_link, SYS_mkdir, SYS_close]
      in if num > 0 \<and> num \<le> int (length table) then Some (table ! nat (num - 1)) else None)"

text \<open>\<open>pad\<close>: the padding of the stat structure that sys_fstat leaves uninitialised.\<close>

fun syscalls :: "ksyms \<Rightarrow> byte list \<Rightarrow> sysno \<Rightarrow> 'z kmach_scheme \<Rightarrow> ('z kmach_scheme, int) res" where
  "syscalls k pad SYS_fork s = sys_fork k s"
| "syscalls k pad SYS_exit s = sys_exit k s"
| "syscalls k pad SYS_wait s = sys_wait k s"
| "syscalls k pad SYS_pipe s = sys_pipe (sym_end k) s"
| "syscalls k pad SYS_read s = sys_read s"
| "syscalls k pad SYS_kill s = sys_kill s"
| "syscalls k pad SYS_exec s = sys_exec (sym_end k) (sym_trampoline k) s"
| "syscalls k pad SYS_fstat s = sys_fstat pad s"
| "syscalls k pad SYS_chdir s = sys_chdir s"
| "syscalls k pad SYS_dup s = sys_dup s"
| "syscalls k pad SYS_getpid s = sys_getpid s"
| "syscalls k pad SYS_sbrk s = sys_sbrk k s"
| "syscalls k pad SYS_sleep s = sys_sleep s"
| "syscalls k pad SYS_uptime s = sys_uptime s"
| "syscalls k pad SYS_open s = sys_open (sym_end k) s"
| "syscalls k pad SYS_write s = sys_write s"
| "syscalls k pad SYS_mknod s = sys_mknod s"
| "syscalls k pad SYS_unlink s = sys_unlink s"
| "syscalls k pad SYS_link s = sys_link s"
| "syscalls k pad SYS_mkdir s = sys_mkdir s"
| "syscalls k pad SYS_close s = sys_close (sym_end k) s"

definition syscall :: "ksyms \<Rightarrow> byte list \<Rightarrow> 'z kmach_scheme \<Rightarrow> ('z kmach_scheme, unit) res" where
  "syscall k pad s =
     bnd (curproc s) (\<lambda>p s.
     let num = sint (ucast (tf_get p TF_a7 s) :: u32)
     in case sysno_of num of
          Some f \<Rightarrow> bnd (syscalls k pad f s) (\<lambda>r s. Ok () (tf_set p TF_a0 (of_int r) s))
        | None \<Rightarrow>
            bnd (printf (chars ''%d %s: unknown sys call %d'' @ [10])
                   [PInt (of_int (p_pid (procs s p))),
                    PStr (Some (takeWhile (\<lambda>c. c \<noteq> 0) (p_name (procs s p)))), PInt (of_int num)] s) (\<lambda>_ s.
            Ok () (tf_set p TF_a0 (-1) s)))"

section \<open>The interrupt controller\<close>

definition UART0_IRQ :: nat where "UART0_IRQ = 10"
definition VIRTIO0_IRQ :: nat where "VIRTIO0_IRQ = 1"
definition PLIC_SENABLE :: "nat \<Rightarrow> u64" where "PLIC_SENABLE hart = PLIC + 0x2080 + of_nat hart * 0x100"
definition PLIC_SPRIORITY :: "nat \<Rightarrow> u64" where "PLIC_SPRIORITY hart = PLIC + 0x201000 + of_nat hart * 0x2000"
definition PLIC_SCLAIM :: "nat \<Rightarrow> u64" where "PLIC_SCLAIM hart = PLIC + 0x201004 + of_nat hart * 0x2000"

definition plic_write :: "u64 \<Rightarrow> u32 \<Rightarrow> 'z xmach_scheme \<Rightarrow> 'z xmach_scheme" where
  "plic_write a v s = s\<lparr>plic_writes := (a, v) # plic_writes s\<rparr>"

definition plicinit :: "'z xmach_scheme \<Rightarrow> 'z xmach_scheme" where
  "plicinit s = plic_write (PLIC + of_nat VIRTIO0_IRQ * 4) 1 (plic_write (PLIC + of_nat UART0_IRQ * 4) 1 s)"

definition plicinithart :: "'z xmach_scheme \<Rightarrow> 'z xmach_scheme" where
  "plicinithart s =
     (let hart = cpuid s;
          s = plic_write (PLIC_SENABLE hart) (push_bit UART0_IRQ 1 OR push_bit VIRTIO0_IRQ 1) s
      in plic_write (PLIC_SPRIORITY hart) 0 s)"

text \<open>A claim with no answer foreseen finds no pending interrupt.\<close>

definition plic_claim :: "'z xmach_scheme \<Rightarrow> nat \<times> 'z xmach_scheme" where
  "plic_claim s = (case plic_claims s of [] \<Rightarrow> (0, s) | v # vs \<Rightarrow> (unat v, s\<lparr>plic_claims := vs\<rparr>))"

definition plic_complete :: "nat \<Rightarrow> 'z xmach_scheme \<Rightarrow> 'z xmach_scheme" where
  "plic_complete irq s = plic_write (PLIC_SCLAIM (cpuid s)) (of_nat irq) s"

section \<open>Traps\<close>

definition set_csr :: "(csrs \<Rightarrow> csrs) \<Rightarrow> 'z mach_scheme \<Rightarrow> 'z mach_scheme" where
  "set_csr f s = s\<lparr>csr := f (csr s)\<rparr>"

definition trapinit :: "'z mach_scheme \<Rightarrow> 'z mach_scheme" where
  "trapinit s = initlock TicksLock ''time'' s"

definition trapinithart :: "ksyms \<Rightarrow> 'z mach_scheme \<Rightarrow> 'z mach_scheme" where
  "trapinithart k s = set_csr (\<lambda>c. c\<lparr>csr_stvec := sym_kernelvec k\<rparr>) s"

text \<open>
  usertrapret ends in the jump to the trampoline; the result is the address jumped to and the page
  table register it passes.
\<close>

definition usertrapret :: "ksyms \<Rightarrow> 'z mach_scheme \<Rightarrow> ('z mach_scheme, u64 \<times> u64) res" where
  "usertrapret k s =
     bnd (curproc s) (\<lambda>p s.
     let s = intr_off s;
         s = set_csr (\<lambda>c. c\<lparr>csr_stvec := TRAMPOLINE + (sym_uservec k - sym_trampoline k)\<rparr>) s;
         s = tf_set p TF_kernel_satp (csr_satp (csr s)) s;
         s = tf_set p TF_kernel_sp (p_kstack (procs s p) + PGSIZE) s;
         s = tf_set p TF_kernel_trap (sym_usertrap k) s;
         s = tf_set p TF_kernel_hartid (of_nat (tp s)) s;
         s = set_csr (\<lambda>c. c\<lparr>csr_spp := False, csr_spie := True\<rparr>) s;
         s = set_csr (\<lambda>c. c\<lparr>csr_sepc := tf_get p TF_epc s\<rparr>) s;
         satp = MAKE_SATP (p_pagetable (procs s p));
         fn = TRAMPOLINE + (sym_userret k - sym_trampoline k)
     in Ok (fn, satp) s)"

definition clockintr :: "'z mach_scheme \<Rightarrow> ('z mach_scheme, unit) res" where
  "clockintr s =
     bnd (acquire TicksLock s) (\<lambda>_ s.
     bnd (wakeup TicksChan (s\<lparr>ticks := ticks s + 1\<rparr>)) (\<lambda>_ s.
     release TicksLock s))"

definition devintr :: "'z xmach_scheme \<Rightarrow> ('z xmach_scheme, nat) res" where
  "devintr s =
     (let scause = csr_scause (csr s)
      in if scause AND 0x8000000000000000 \<noteq> 0 \<and> scause AND 0xff = 9 then
           (case plic_claim s of (irq, s) \<Rightarrow>
              bnd (if irq = UART0_IRQ then uartintr s
                   else if irq = VIRTIO0_IRQ then virtio_disk_intr (vdisk_irq_status s) s
                   else if irq \<noteq> 0 then printf (chars ''unexpected interrupt irq=%d'' @ [10]) [PInt (of_nat irq)] s
                   else Ok () s) (\<lambda>_ s.
              Ok 1 (if irq \<noteq> 0 then plic_complete irq s else s)))
         else if scause = 0x8000000000000001 then
           bnd (if cpuid s = 0 then clockintr s else Ok () s) (\<lambda>_ s.
           Ok 2 (set_csr (\<lambda>c. c\<lparr>csr_sip := csr_sip c AND NOT 2\<rparr>) s))
         else Ok 0 s)"

text \<open>The end of usertrap, after the cause has been handled.\<close>

definition usertrap_finish :: "ksyms \<Rightarrow> nat \<Rightarrow> nat \<Rightarrow> 'z xmach_scheme \<Rightarrow> ('z xmach_scheme, u64 \<times> u64) res" where
  "usertrap_finish k p which_dev s =
     bnd (if p_killed (procs s p) then exit_proc (sym_end k) (-1) s else Ok () s) (\<lambda>_ s.
     bnd (if which_dev = 2 then yield s else Ok () s) (\<lambda>_ s.
     usertrapret k s))"

definition usertrap :: "ksyms \<Rightarrow> byte list \<Rightarrow> 'z xmach_scheme \<Rightarrow> ('z xmach_scheme, u64 \<times> u64) res" where
  "usertrap k pad s =
     (if csr_spp (csr s) then Panic ''usertrap: not from user mode''
      else
        (let s = trapinithart k s
         in bnd (curproc s) (\<lambda>p s.
            let s = tf_set p TF_epc (csr_sepc (csr s)) s
            in if csr_scause (csr s) = 8 then
                 bnd (if p_killed (procs s p) then exit_proc (sym_end k) (-1) s else Ok () s) (\<lambda>_ s.
                 let s = tf_set p TF_epc (tf_get p TF_epc s + 4) s
                 in bnd (syscall k pad (intr_on s)) (\<lambda>_ s.
                    usertrap_finish k p 0 s))
               else
                 bnd (devintr s) (\<lambda>which_dev s.
                 if which_dev \<noteq> 0 then usertrap_finish k p which_dev s
                 else
                   bnd (printf (chars ''usertrap(): unexpected scause %p pid=%d'' @ [10])
                          [PPtr (csr_scause (csr s)), PInt (of_int (p_pid (procs s p)))] s) (\<lambda>_ s.
                   bnd (printf (chars ''            sepc=%p stval=%p'' @ [10])
                          [PPtr (csr_sepc (csr s)), PPtr (csr_stval (csr s))] s) (\<lambda>_ s.
                   usertrap_finish k p 0 (set_proc p (\<lambda>q. q\<lparr>p_killed := True\<rparr>) s)))))))"

text \<open>sstatus as kerneltrap saves and restores it: SPP, SPIE and SIE.\<close>

definition kerneltrap_restore :: "u64 \<Rightarrow> bool \<times> bool \<times> bool \<Rightarrow> 'z mach_scheme \<Rightarrow> 'z mach_scheme" where
  "kerneltrap_restore sepc sstatus s =
     (case sstatus of (spp, spie, ie) \<Rightarrow>
        (set_csr (\<lambda>c. c\<lparr>csr_sepc := sepc, csr_spp := spp, csr_spie := spie\<rparr>) s)\<lparr>sie := ie\<rparr>)"

definition kerneltrap :: "'z xmach_scheme \<Rightarrow> ('z xmach_scheme, unit) res" where
  "kerneltrap s =
     (let sepc = csr_sepc (csr s);
          sstatus = (csr_spp (csr s), csr_spie (csr s), sie s);
          scause = csr_scause (csr s)
      in if \<not> csr_spp (csr s) then Panic ''kerneltrap: not from supervisor mode''
         else if intr_get s then Panic ''kerneltrap: interrupts enabled''
         else
           bnd (devintr s) (\<lambda>which_dev s.
           if which_dev = 0 then
             bnd (printf (chars ''scause %p'' @ [10]) [PPtr scause] s) (\<lambda>_ s.
             bnd (printf (chars ''sepc=%p stval=%p'' @ [10])
                    [PPtr (csr_sepc (csr s)), PPtr (csr_stval (csr s))] s) (\<lambda>_ s.
             Panic ''kerneltrap''))
           else
             bnd (if which_dev = 2 then
                    bnd (myproc s) (\<lambda>cur s. case cur of
                      None \<Rightarrow> Ok () s
                    | Some p \<Rightarrow>
                        bnd (curproc s) (\<lambda>p s.
                        if p_state (procs s p) = RUNNING then yield s else Ok () s))
                  else Ok () s) (\<lambda>_ s.
             Ok () (kerneltrap_restore sepc sstatus s))))"

definition kerneltrap_resume ::
    "nat \<Rightarrow> bool \<Rightarrow> u64 \<Rightarrow> bool \<times> bool \<times> bool \<Rightarrow> 'z mach_scheme \<Rightarrow> ('z mach_scheme, unit) res" where
  "kerneltrap_resume p saved sepc sstatus s =
     bnd (yield_resume p saved s) (\<lambda>_ s. Ok () (kerneltrap_restore sepc sstatus s))"

definition forkret :: "ksyms \<Rightarrow> 'z xmach_scheme \<Rightarrow> ('z xmach_scheme, u64 \<times> u64) res" where
  "forkret k s =
     bnd (curproc s) (\<lambda>p s.
     bnd (release (ProcLock p) s) (\<lambda>_ s.
     bnd (if forkret_first s then fsinit (of_nat ROOTDEV) (s\<lparr>forkret_first := False\<rparr>) else Ok () s) (\<lambda>_ s.
     usertrapret k s)))"

end
