(* ===== verification/Outcome_Frame.thy ===== *)
theory Outcome_Frame
  imports Sleeplock
begin

text \<open>
  Properties of the state in which a kernel function stops, whether it returns, has switched to
  the scheduler or spins on a lock. The locking primitives, sleep and wakeup leave the state of the
  higher layers alone in each of these cases, so an invariant of a component can be
  followed through its functions without regard to who holds which lock.
\<close>

fun every :: "('s \<Rightarrow> bool) \<Rightarrow> ('s, 'a) res \<Rightarrow> bool" where
  "every P (Ok a t) = P t"
| "every P (Sched t) = P t"
| "every P (Spin l t) = P t"
| "every P (Panic m) = True"
| "every P Fuel = True"

named_theorems every_intros \<open>following a property through a function\<close>

lemma every_bnd [every_intros]:
  "every P r \<Longrightarrow> (\<And>a t. P t \<Longrightarrow> every P (k a t)) \<Longrightarrow> every P (bnd r k)"
  by (cases r) auto

lemma every_if [every_intros]:
  "(b \<Longrightarrow> every P r) \<Longrightarrow> (\<not> b \<Longrightarrow> every P r') \<Longrightarrow> every P (if b then r else r')"
  by simp

lemma every_option [every_intros]:
  "(x = None \<Longrightarrow> every P r) \<Longrightarrow> (\<And>a. x = Some a \<Longrightarrow> every P (k a)) \<Longrightarrow>
   every P (case x of None \<Rightarrow> r | Some a \<Rightarrow> k a)"
  by (cases x) auto

lemma every_mono: "every P r \<Longrightarrow> (\<And>t. P t \<Longrightarrow> Q t) \<Longrightarrow> every Q r"
  by (cases r) auto

lemma every_OkD: "every P r \<Longrightarrow> r = Ok a t \<Longrightarrow> P t"
  by auto

section \<open>The machine layer\<close>

lemma more_cpu [simp]:
  "mach.more (set_mycpu c s) = mach.more s" "mach.more (intr_on s) = mach.more s"
  by (simp_all add: set_mycpu_def intr_on_def)

lemma every_pop_off [every_intros]: "mach.more s = m \<Longrightarrow> every (\<lambda>t. mach.more t = m) (pop_off s)"
  by (simp add: pop_off_def Let_def)

lemma every_acquire [every_intros]: "mach.more s = m \<Longrightarrow> every (\<lambda>t. mach.more t = m) (acquire lk s)"
  by (simp add: acquire_def Let_def)

lemma every_release [every_intros]: "mach.more s = m \<Longrightarrow> every (\<lambda>t. mach.more t = m) (release lk s)"
  unfolding release_def by (intro every_intros) simp_all

lemma every_myproc [every_intros]: "mach.more s = m \<Longrightarrow> every (\<lambda>t. mach.more t = m) (myproc s)"
  unfolding myproc_def Let_def by (intro every_intros) simp_all

lemma every_sched [every_intros]: "mach.more s = m \<Longrightarrow> every (\<lambda>t. mach.more t = m) (sched s)"
  unfolding sched_def by (intro every_intros) simp_all

lemma every_sleep [every_intros]: "mach.more s = m \<Longrightarrow> every (\<lambda>t. mach.more t = m) (sleep ch lk s)"
  unfolding sleep_def by (intro every_intros) simp_all

lemma every_yield [every_intros]: "mach.more s = m \<Longrightarrow> every (\<lambda>t. mach.more t = m) (yield s)"
  unfolding yield_def by (intro every_intros) simp_all

lemma every_sleep_resume [every_intros]:
  "mach.more s = m \<Longrightarrow> every (\<lambda>t. mach.more t = m) (sleep_resume p lk saved s)"
  unfolding sleep_resume_def Let_def sched_resume_def by (intro every_intros) simp_all

lemma every_wakeup_loop: "mach.more s = m \<Longrightarrow> every (\<lambda>t. mach.more t = m) (wakeup_loop ch p n s)"
proof (induction n arbitrary: p s)
  case (Suc n)
  show ?case
    unfolding wakeup_loop.simps Let_def by (intro every_intros Suc.IH) (use Suc.prems in simp_all)
qed simp

lemma every_wakeup [every_intros]: "mach.more s = m \<Longrightarrow> every (\<lambda>t. mach.more t = m) (wakeup ch s)"
  by (simp add: wakeup_def every_wakeup_loop)

section \<open>Sleep locks\<close>

lemma smach_of_more:
  fixes s :: "'z smach_scheme"
  assumes "every (\<lambda>t. mach.more t = mach.more s) r" and "smach.more s = m"
  shows "every (\<lambda>t. smach.more t = m) r"
  using assms(1) by (rule every_mono) (use assms(2) more_smach in blast)

lemma every_smach [every_intros]:
  fixes s :: "'z smach_scheme"
  assumes "smach.more s = m"
  shows "every (\<lambda>t. smach.more t = m) (acquire lk s)" "every (\<lambda>t. smach.more t = m) (release lk s)"
    "every (\<lambda>t. smach.more t = m) (myproc s)" "every (\<lambda>t. smach.more t = m) (sleep ch lk s)"
    "every (\<lambda>t. smach.more t = m) (sleep_resume p lk saved s)" "every (\<lambda>t. smach.more t = m) (wakeup ch s)"
  by (rule smach_of_more [OF _ assms], intro every_intros refl)+

lemma every_acquiresleep_loop [every_intros]:
  "smach.more s = m \<Longrightarrow> every (\<lambda>t. smach.more t = m) (acquiresleep_loop lk s)"
  unfolding acquiresleep_loop_def Let_def by (intro every_intros) simp_all

lemma every_acquiresleep [every_intros]:
  "smach.more s = m \<Longrightarrow> every (\<lambda>t. smach.more t = m) (acquiresleep lk s)"
  unfolding acquiresleep_def by (intro every_intros)

lemma every_acquiresleep_resume [every_intros]:
  "smach.more s = m \<Longrightarrow> every (\<lambda>t. smach.more t = m) (acquiresleep_resume p lk saved s)"
  unfolding acquiresleep_resume_def by (intro every_intros)

lemma every_releasesleep [every_intros]:
  "smach.more s = m \<Longrightarrow> every (\<lambda>t. smach.more t = m) (releasesleep lk s)"
  unfolding releasesleep_def Let_def by (intro every_intros) simp_all

lemma every_holdingsleep [every_intros]:
  "smach.more s = m \<Longrightarrow> every (\<lambda>t. smach.more t = m) (holdingsleep lk s)"
  unfolding holdingsleep_def by (intro every_intros) simp_all

end
