(* ===== verification/Bio_Inv.thy ===== *)
theory Bio_Inv
  imports Bio Outcome_Frame
begin

text \<open>
  The invariant of the buffer cache: the links form one ring through all buffers, and no block of
  a device is cached twice. It holds after every call of bio.c, however the calls of the processes
  follow each other and wherever they block.
\<close>

lemma find_SomeD: "find P xs = Some b \<Longrightarrow> b \<in> set xs \<and> P b"
  by (induction xs) (auto split: if_splits)

section \<open>The ring of buffers\<close>

primrec chain :: "(nat \<Rightarrow> buf) \<Rightarrow> nat \<Rightarrow> nat list \<Rightarrow> nat \<Rightarrow> bool" where
  "chain bf a [] b \<longleftrightarrow> b_next (bf a) = b \<and> b_prev (bf b) = a"
| "chain bf a (x # xs) b \<longleftrightarrow> b_next (bf a) = x \<and> b_prev (bf x) = a \<and> chain bf x xs b"

definition ring :: "(nat \<Rightarrow> buf) \<Rightarrow> nat list \<Rightarrow> bool" where
  "ring bf xs \<longleftrightarrow> chain bf bhead xs bhead \<and> distinct xs \<and> set xs = {..<NBUF}"

lemma chain_append: "chain bf a (xs @ x # ys) b \<longleftrightarrow> chain bf a xs x \<and> chain bf x ys b"
  by (induction xs arbitrary: a) auto

lemma chain_cong:
  assumes "\<And>y. y = a \<or> y \<in> set xs \<Longrightarrow> b_next (bf' y) = b_next (bf y)"
    and "\<And>y. y = b \<or> y \<in> set xs \<Longrightarrow> b_prev (bf' y) = b_prev (bf y)"
  shows "chain bf' a xs b = chain bf a xs b"
  using assms
proof (induction xs arbitrary: a)
  case (Cons x xs)
  have "chain bf' x xs b = chain bf x xs b" by (rule Cons.IH) (auto simp: Cons.prems)
  with Cons.prems show ?case by simp
qed simp

lemma chain_ends: "chain bf a xs b \<Longrightarrow> b_next (bf a) = hd (xs @ [b]) \<and> b_prev (bf b) = last (a # xs)"
  by (induction xs arbitrary: a) auto

lemma bhead_notin: "ring bf xs \<Longrightarrow> bhead \<notin> set xs"
  by (simp add: ring_def bhead_def)

lemma ring_length: "ring bf xs \<Longrightarrow> length xs = NBUF"
  by (metis card_lessThan distinct_card ring_def)

text \<open>The two searches of bget are searches in the list that the ring denotes.\<close>

lemma bget_cached_chain:
  assumes "chain bf a xs bhead" and "bhead \<notin> set xs" and "length xs < n"
  shows "bget_cached n dev blockno (b_next (bf a)) bf =
    Some (find (\<lambda>b. b_dev (bf b) = dev \<and> b_blockno (bf b) = blockno) xs)"
  using assms
proof (induction xs arbitrary: a n)
  case Nil
  then show ?case by (cases n) auto
next
  case (Cons x xs)
  from Cons.prems obtain m where n: "n = Suc m" by (cases n) auto
  with Cons show ?case by auto
qed

lemma bget_unused_chain:
  assumes "chain bf a xs b" and "a = bhead" and "bhead \<notin> set xs" and "length xs < n"
  shows "bget_unused n (b_prev (bf b)) bf = Some (find (\<lambda>b. b_refcnt (bf b) = 0) (rev xs))"
  using assms
proof (induction xs arbitrary: b n rule: rev_induct)
  case Nil
  then show ?case by (cases n) auto
next
  case (snoc x xs)
  from snoc.prems obtain m where n: "n = Suc m" by (cases n) auto
  have c: "chain bf a xs x" "b_prev (bf b) = x"
    using snoc.prems(1) chain_append [of bf a xs x "[]" b] by auto
  with snoc n show ?case by auto
qed

lemma bget_cached_ring:
  assumes "ring bf xs"
  shows "bget_cached (Suc NBUF) dev blockno (b_next (bf bhead)) bf =
    Some (find (\<lambda>b. b_dev (bf b) = dev \<and> b_blockno (bf b) = blockno) xs)"
  using assms ring_length [OF assms] bhead_notin [OF assms]
  by (intro bget_cached_chain) (auto simp: ring_def)

lemma bget_unused_ring:
  assumes "ring bf xs"
  shows "bget_unused (Suc NBUF) (b_prev (bf bhead)) bf = Some (find (\<lambda>b. b_refcnt (bf b) = 0) (rev xs))"
  using assms ring_length [OF assms] bhead_notin [OF assms]
  by (intro bget_unused_chain) (auto simp: ring_def)

text \<open>Updates that keep the links keep the ring.\<close>

lemma ring_links:
  assumes "ring bf xs" and "\<And>y. b_next (bf' y) = b_next (bf y)" and "\<And>y. b_prev (bf' y) = b_prev (bf y)"
  shows "ring bf' xs"
  using assms chain_cong [of bhead xs bf' bf bhead] by (simp add: ring_def)

lemma chain_rehead:
  assumes "chain bf b ys e" and "distinct ys" and "e \<notin> set ys" and "p \<notin> set ys"
    and "\<And>y. b_next (bf' y) = (if y = p then hd (ys @ [e]) else b_next (bf y))"
    and "\<And>y. b_prev (bf' y) = (if y = hd (ys @ [e]) then p else b_prev (bf y))"
  shows "chain bf' p ys e"
proof (cases ys)
  case Nil
  with assms(5,6) show ?thesis by simp
next
  case (Cons y zs)
  have "chain bf' y zs e = chain bf y zs e"
    by (rule chain_cong) (use assms(2-6) Cons in auto)
  with assms Cons show ?thesis by simp
qed

lemma unlink_chain:
  assumes "chain (bufs s) bhead (xs @ b # ys) bhead" and "distinct (xs @ b # ys)" and "bhead \<notin> set (xs @ b # ys)"
  shows "chain (bufs (unlink_buf b s)) bhead (xs @ ys) bhead"
proof -
  let ?bf = "bufs s" and ?g = "bufs (unlink_buf b s)"
  let ?n = "hd (ys @ [bhead])" and ?p = "last (bhead # xs)"
  have l: "chain ?bf bhead xs b" and r: "chain ?bf b ys bhead"
    using assms(1) by (simp_all add: chain_append)
  have n: "b_next (?bf b) = ?n" and p: "b_prev (?bf b) = ?p"
    using chain_ends [OF l] chain_ends [OF r] by simp_all
  have "?n \<in> insert bhead (set ys)" and pin: "?p \<in> insert bhead (set xs)" by (cases ys) auto
  then have nb: "?n \<noteq> b" and pys: "?p \<notin> set ys" using assms(2,3) by auto
  have gn: "b_next (?g y) = (if y = ?p then ?n else b_next (?bf y))" for y
    using n p nb by (simp add: unlink_buf_def Let_def set_buf_def del: last.simps)
  have gp: "b_prev (?g y) = (if y = ?n then ?p else b_prev (?bf y))" for y
    using n p nb by (simp add: unlink_buf_def Let_def set_buf_def del: last.simps)
  have right: "chain ?g ?p ys bhead"
    using r assms(2,3) pys gn gp by (intro chain_rehead [of ?bf b ys bhead ?p ?g]) auto
  show ?thesis
  proof (cases xs rule: rev_cases)
    case Nil
    with right show ?thesis by simp
  next
    case (snoc xs' q)
    have nq: "?n \<notin> insert q (set xs')" using assms(2,3) snoc by (cases ys) auto
    have "chain ?g bhead xs' q = chain ?bf bhead xs' q"
      by (rule chain_cong) (use assms(2,3) snoc gn gp nq in auto)
    moreover have "chain ?bf bhead xs' q" using l snoc by (simp add: chain_append)
    ultimately show ?thesis using right snoc by (simp add: chain_append)
  qed
qed

lemma push_chain:
  assumes "chain (bufs s) bhead xs bhead" and "distinct (b # xs)" and "bhead \<notin> set (b # xs)"
  shows "chain (bufs (push_front b s)) bhead (b # xs) bhead"
proof -
  let ?bf = "bufs s" and ?g = "bufs (push_front b s)"
  let ?n = "hd (xs @ [bhead])"
  have n: "b_next (?bf bhead) = ?n" using chain_ends [OF assms(1)] by simp
  have "?n \<in> insert bhead (set xs)" by (cases xs) auto
  then have nb: "?n \<noteq> b" using assms(2,3) by auto
  have gn: "b_next (?g y) = (if y = bhead then b else if y = b then ?n else b_next (?bf y))" for y
    using n nb assms(3) by (simp add: push_front_def Let_def set_buf_def)
  have gp: "b_prev (?g y) = (if y = ?n then b else if y = b then bhead else b_prev (?bf y))" for y
    using n nb assms(3) by (simp add: push_front_def Let_def set_buf_def)
  have "chain ?g b xs bhead"
  proof (cases xs)
    case Nil
    with gn gp assms(3) show ?thesis by simp
  next
    case (Cons y zs)
    have "chain ?g y zs bhead = chain ?bf y zs bhead"
      by (rule chain_cong) (use assms(2,3) Cons gn gp in auto)
    with assms Cons gn gp show ?thesis by auto
  qed
  with gn gp nb assms(3) show ?thesis by auto
qed

lemma ring_move_front:
  assumes "ring (bufs s) xs" and "b < NBUF"
  shows "\<exists>ys. ring (bufs (push_front b (unlink_buf b s))) ys"
proof -
  have "b \<in> set xs" using assms by (simp add: ring_def)
  then obtain us vs where xs: "xs = us @ b # vs" by (meson split_list)
  have "chain (bufs (unlink_buf b s)) bhead (us @ vs) bhead"
    using assms(1) bhead_notin [OF assms(1)] by (intro unlink_chain) (simp_all add: ring_def xs)
  then have "chain (bufs (push_front b (unlink_buf b s))) bhead (b # us @ vs) bhead"
    using assms(1) bhead_notin [OF assms(1)] by (intro push_chain) (simp_all add: ring_def xs)
  moreover have "set (b # us @ vs) = {..<NBUF}" "distinct (b # us @ vs)"
    using assms(1) by (auto simp: ring_def xs)
  ultimately show ?thesis unfolding ring_def by blast
qed

section \<open>The invariant through the calls\<close>

definition unique_blocks :: "(nat \<Rightarrow> buf) \<Rightarrow> bool" where
  "unique_blocks bf \<longleftrightarrow> (\<forall>b<NBUF. \<forall>c<NBUF. b_dev (bf b) \<noteq> 0 \<and> b_dev (bf b) = b_dev (bf c) \<and>
     b_blockno (bf b) = b_blockno (bf c) \<longrightarrow> b = c)"

definition binv :: "(nat \<Rightarrow> buf) \<Rightarrow> bool" where
  "binv bf \<longleftrightarrow> (\<exists>xs. ring bf xs) \<and> unique_blocks bf"

lemma more_bmach:
  fixes s :: "'z bmach_scheme" and t :: "'z bmach_scheme"
  shows "smach.more t = smach.more s \<Longrightarrow> bufs t = bufs s \<and> disk t = disk s \<and> dhist t = dhist s \<and> vd t = vd s \<and>
    bmach.more t = bmach.more s"
  by (cases s, cases t) simp

lemma every_bufs:
  fixes s :: "'z bmach_scheme"
  assumes "every (\<lambda>t. smach.more t = smach.more s) r" and "Q (bufs s)"
  shows "every (\<lambda>t. Q (bufs t)) r"
  using assms(1) by (rule every_mono) (use assms(2) more_bmach in metis)

lemma every_bufs_calls [every_intros]:
  fixes s :: "'z bmach_scheme"
  assumes "Q (bufs s)"
  shows "every (\<lambda>t. Q (bufs t)) (acquire lk s)" "every (\<lambda>t. Q (bufs t)) (release lk s)"
    "every (\<lambda>t. Q (bufs t)) (acquiresleep sl s)" "every (\<lambda>t. Q (bufs t)) (acquiresleep_resume p sl saved s)"
    "every (\<lambda>t. Q (bufs t)) (releasesleep sl s)" "every (\<lambda>t. Q (bufs t)) (holdingsleep sl s)"
  by (rule every_bufs [where s = s], intro every_intros refl, rule assms)+

lemma binv_same_links:
  assumes "binv bf" and "\<And>y. b_next (bf' y) = b_next (bf y) \<and> b_prev (bf' y) = b_prev (bf y)"
    and "\<And>y. b_dev (bf' y) = b_dev (bf y) \<and> b_blockno (bf' y) = b_blockno (bf y)"
  shows "binv bf'"
  using assms ring_links [of bf _ bf'] unfolding binv_def unique_blocks_def by metis

lemma binv_update:
  assumes "binv (bufs s)" and "\<And>x. b_next (f x) = b_next x \<and> b_prev (f x) = b_prev x \<and> b_dev (f x) = b_dev x \<and>
    b_blockno (f x) = b_blockno x"
  shows "binv (bufs (set_buf b f s))"
  using assms(1) by (rule binv_same_links) (simp_all add: set_buf_def assms(2))

lemma binv_sets:
  assumes "binv (bufs s)"
  shows "binv (bufs (set_buf b (\<lambda>x. x\<lparr>b_refcnt := g x\<rparr>) s))" "binv (bufs (set_buf b (\<lambda>x. x\<lparr>b_valid := v\<rparr>) s))"
    "binv (bufs (set_buf b (\<lambda>x. x\<lparr>b_data := d\<rparr>) s))"
  using assms by (rule binv_update, simp)+

lemma binv_disk_rw: "binv (bufs s) \<Longrightarrow> binv (bufs (disk_rw b w s))"
  by (simp add: disk_rw_def Let_def binv_update)

text \<open>Only a block that no buffer caches is given to a recycled buffer.\<close>

lemma binv_recycle:
  assumes "binv (bufs s)" and "bget_cached (Suc NBUF) dev blockno (b_next (bufs s bhead)) (bufs s) = Some None"
  shows "binv (bufs (set_buf b (\<lambda>x. x\<lparr>b_dev := dev, b_blockno := blockno, b_valid := False, b_refcnt := 1\<rparr>) s))"
proof -
  obtain xs where r: "ring (bufs s) xs" and u: "unique_blocks (bufs s)" using assms(1) by (auto simp: binv_def)
  let ?bf = "bufs (set_buf b (\<lambda>x. x\<lparr>b_dev := dev, b_blockno := blockno, b_valid := False, b_refcnt := 1\<rparr>) s)"
  have fresh: "\<not> (b_dev (bufs s c) = dev \<and> b_blockno (bufs s c) = blockno)" if "c < NBUF" for c
    using assms(2) [unfolded bget_cached_ring [OF r]] that r by (simp add: find_None_iff ring_def)
  have "ring ?bf xs" using r by (rule ring_links) (simp_all add: set_buf_def)
  moreover have "unique_blocks ?bf"
    using u fresh unfolding unique_blocks_def set_buf_def by auto
  ultimately show ?thesis by (auto simp: binv_def)
qed

lemma every_bget_take:
  assumes "binv (bufs s)"
  shows "every (\<lambda>t. binv (bufs t)) (bnd (release BcacheLock s) (\<lambda>_ s. bnd (acquiresleep sl s) (\<lambda>_ s. Ok b s)))"
  using assms by (intro every_bnd every_bufs_calls) simp_all

lemma every_bget:
  assumes "binv (bufs s)"
  shows "every (\<lambda>t. binv (bufs t)) (bget dev blockno s)"
proof -
  have "every (\<lambda>t. binv (bufs t))
     (case bget_cached (Suc NBUF) dev blockno (b_next (bufs t bhead)) (bufs t) of
       None \<Rightarrow> Fuel
     | Some (Some b) \<Rightarrow>
         bnd (release BcacheLock (set_buf b (\<lambda>x. x\<lparr>b_refcnt := b_refcnt x + 1\<rparr>) t)) (\<lambda>_ s.
         bnd (acquiresleep (BufLock b) s) (\<lambda>_ s. Ok b s))
     | Some None \<Rightarrow>
         (case bget_unused (Suc NBUF) (b_prev (bufs t bhead)) (bufs t) of
            None \<Rightarrow> Fuel
          | Some None \<Rightarrow> Panic ''bget: no buffers''
          | Some (Some b) \<Rightarrow>
              bnd (release BcacheLock (set_buf b
                (\<lambda>x. x\<lparr>b_dev := dev, b_blockno := blockno, b_valid := False, b_refcnt := 1\<rparr>) t)) (\<lambda>_ s.
              bnd (acquiresleep (BufLock b) s) (\<lambda>_ s. Ok b s))))"
    if "binv (bufs t)" for t :: "'a bmach_scheme"
  proof (cases "bget_cached (Suc NBUF) dev blockno (b_next (bufs t bhead)) (bufs t)")
    case (Some r)
    then show ?thesis
    proof (cases r)
      case None
      with Some have fresh: "bget_cached (Suc NBUF) dev blockno (b_next (bufs t bhead)) (bufs t) = Some None"
        by simp
      show ?thesis
        using binv_recycle [OF that fresh]
        by (simp only: fresh option.case split: option.split) (auto intro: every_bget_take)
    next
      case (Some b)
      with \<open>bget_cached _ _ _ _ _ = Some r\<close> show ?thesis
        using that by (simp only: option.case) (intro every_bget_take binv_sets)
    qed
  qed (simp only: option.case every.simps)
  then show ?thesis
    unfolding bget_def using assms by (intro every_bnd every_bufs_calls)
qed

lemma every_bread_fill: "binv (bufs s) \<Longrightarrow> every (\<lambda>t. binv (bufs t)) (bread_fill b s)"
  by (simp add: bread_fill_def binv_sets binv_disk_rw)

text \<open>What moving a buffer in the list leaves alone.\<close>

lemma links_payload [simp]:
  "b_dev (bufs (set_buf c (\<lambda>x. x\<lparr>b_next := n\<rparr>) s) y) = b_dev (bufs s y)"
  "b_blockno (bufs (set_buf c (\<lambda>x. x\<lparr>b_next := n\<rparr>) s) y) = b_blockno (bufs s y)"
  "b_dev (bufs (set_buf c (\<lambda>x. x\<lparr>b_prev := n\<rparr>) s) y) = b_dev (bufs s y)"
  "b_blockno (bufs (set_buf c (\<lambda>x. x\<lparr>b_prev := n\<rparr>) s) y) = b_blockno (bufs s y)"
  by (simp_all add: set_buf_def)

lemma move_front_tags:
  "b_dev (bufs (push_front b (unlink_buf b s)) y) = b_dev (bufs s y)"
  "b_blockno (bufs (push_front b (unlink_buf b s)) y) = b_blockno (bufs s y)"
  unfolding push_front_def unlink_buf_def Let_def by simp_all

lemma binv_move_front:
  assumes "binv (bufs s)" and "b < NBUF"
  shows "binv (bufs (push_front b (unlink_buf b s)))"
proof -
  have "unique_blocks (bufs (push_front b (unlink_buf b s)))"
    using assms(1) unfolding binv_def unique_blocks_def move_front_tags by (rule conjunct2)
  with assms ring_move_front show ?thesis unfolding binv_def by blast
qed

lemma every_brelse_end:
  assumes "binv (bufs s)" and "b < NBUF"
  shows "every (\<lambda>t. binv (bufs t))
    (let s = set_buf b (\<lambda>x. x\<lparr>b_refcnt := b_refcnt x - 1\<rparr>) s;
         s = (if b_refcnt (bufs s b) = 0 then push_front b (unlink_buf b s) else s)
     in release BcacheLock s)"
  unfolding Let_def using assms
  by (intro every_bufs_calls) (simp only: binv_sets binv_move_front simp_thms split: if_split)

lemma every_brelse:
  assumes "binv (bufs s)" and "b < NBUF"
  shows "every (\<lambda>t. binv (bufs t)) (brelse b s)"
  unfolding brelse_def
  by (intro every_bnd every_if every_bufs_calls every_brelse_end assms; simp only: every.simps)

lemma every_bread: "binv (bufs s) \<Longrightarrow> every (\<lambda>t. binv (bufs t)) (bread dev blockno s)"
  unfolding bread_def by (intro every_bnd every_bget every_bread_fill)

lemma every_bread_resume: "binv (bufs s) \<Longrightarrow> every (\<lambda>t. binv (bufs t)) (bread_resume p saved b s)"
  unfolding bread_resume_def by (intro every_bnd every_bufs_calls every_bread_fill)

lemma every_bwrite: "binv (bufs s) \<Longrightarrow> every (\<lambda>t. binv (bufs t)) (bwrite b s)"
  unfolding bwrite_def by (intro every_bnd every_if every_bufs_calls) (simp_all add: binv_disk_rw)

lemma every_bpin: "binv (bufs s) \<Longrightarrow> every (\<lambda>t. binv (bufs t)) (bpin b s)"
  unfolding bpin_def by (intro every_bnd every_bufs_calls binv_sets)

lemma every_bunpin: "binv (bufs s) \<Longrightarrow> every (\<lambda>t. binv (bufs t)) (bunpin b s)"
  unfolding bunpin_def by (intro every_bnd every_bufs_calls binv_sets)

section \<open>Boot\<close>

lemma bufs_initsleeplock [simp]: "bufs (initsleeplock lk n s) = bufs s"
  by (simp add: initsleeplock_def initlock_def Let_def)

lemma bufs_initlock [simp]: "bufs (initlock lk n s) = bufs s"
  by (simp add: initlock_def)

lemma binit_loop_chain:
  assumes "chain (bufs s) bhead xs bhead" and "distinct xs" and "set xs = {..<b}" and "b + n \<le> NBUF"
  shows "\<exists>ys. chain (bufs (binit_loop b n s)) bhead ys bhead \<and> distinct ys \<and> set ys = {..<b + n}"
  using assms
proof (induction n arbitrary: b xs s)
  case 0
  then show ?case by auto
next
  case (Suc n)
  let ?s = "push_front b (initsleeplock (BufLock b) ''buffer'' s)"
  have "chain (bufs ?s) bhead (b # xs) bhead"
    using Suc.prems by (intro push_chain) (auto simp: bhead_def)
  then show ?case using Suc.IH [of ?s "b # xs" "Suc b"] Suc.prems by (auto simp: lessThan_Suc)
qed

lemma push_front_dev: "b_dev (bufs (push_front b s) y) = b_dev (bufs s y)"
  unfolding push_front_def Let_def by simp

lemma binit_loop_dev: "b_dev (bufs (binit_loop b n s) y) = b_dev (bufs s y)"
  by (induction n arbitrary: b s) (simp_all add: push_front_dev)

lemma binv_binit:
  assumes "\<And>b. b < NBUF \<Longrightarrow> b_dev (bufs s b) = 0"
  shows "binv (bufs (binit s))"
proof -
  let ?s = "set_buf bhead (\<lambda>x. x\<lparr>b_prev := bhead, b_next := bhead\<rparr>) (initlock BcacheLock ''bcache'' s)"
  have "chain (bufs ?s) bhead [] bhead" by (simp add: set_buf_def)
  then have "\<exists>ys. ring (bufs (binit s)) ys"
    using binit_loop_chain [of ?s "[]" 0 NBUF] by (auto simp: binit_def ring_def Let_def)
  moreover have "b_dev (bufs (binit s) y) = 0" if "y < NBUF" for y
    using that assms [OF that] by (auto simp: binit_def Let_def binit_loop_dev set_buf_def)
  ultimately show ?thesis by (auto simp: binv_def unique_blocks_def)
qed

section \<open>Properties\<close>

text \<open>
  The state in which a call stops: it has returned, it has blocked, or it spins. The steps of the cache
  are the calls of bio.c on buffers of the table by any process, also those that go on after they have
  blocked; the holder of a buffer changing its data; and anything that leaves the cache alone.
\<close>

fun stops :: "('s, 'a) res \<Rightarrow> 's \<Rightarrow> bool" where
  "stops (Ok a t) u = (u = t)"
| "stops (Sched t) u = (u = t)"
| "stops (Spin l t) u = (u = t)"
| "stops (Panic m) u = False"
| "stops Fuel u = False"

lemma every_stops: "every P r \<Longrightarrow> stops r u \<Longrightarrow> P u"
  by (cases r) auto

inductive bcache_step :: "bmach \<Rightarrow> bmach \<Rightarrow> bool" where
  step_bread: "stops (bread dev blockno s) t \<Longrightarrow> bcache_step s t"
| step_bread_resume: "stops (bread_resume p saved b s) t \<Longrightarrow> bcache_step s t"
| step_bwrite: "stops (bwrite b s) t \<Longrightarrow> bcache_step s t"
| step_brelse: "b < NBUF \<Longrightarrow> stops (brelse b s) t \<Longrightarrow> bcache_step s t"
| step_bpin: "stops (bpin b s) t \<Longrightarrow> bcache_step s t"
| step_bunpin: "stops (bunpin b s) t \<Longrightarrow> bcache_step s t"
| step_modify: "bcache_step s (set_buf b (\<lambda>x. x\<lparr>b_data := d\<rparr>) s)"
| step_other: "bufs t = bufs s \<Longrightarrow> bcache_step s t"

definition bcache_init :: "bmach \<Rightarrow> bool" where
  "bcache_init t \<longleftrightarrow> (\<exists>s. (\<forall>b<NBUF. b_dev (bufs s b) = 0) \<and> t = binit s)"

lemma binv_step: "binv (bufs s) \<Longrightarrow> bcache_step s t \<Longrightarrow> binv (bufs t)"
  by (erule bcache_step.cases)
    (auto dest: every_stops [OF every_bread] every_stops [OF every_bread_resume] every_stops [OF every_bwrite]
       every_stops [OF every_brelse] every_stops [OF every_bpin] every_stops [OF every_bunpin] intro: binv_sets)

text \<open>The state in which the kernel boots: every table zero.\<close>

definition smach0 :: smach where
  "smach0 = mach.extend mach0 (smach.fields (\<lambda>_. \<lparr>sl_locked = False, sl_name = [], sl_pid = 0\<rparr>))"

definition buf0 :: buf where
  "buf0 = \<lparr>b_valid = False, b_disk = False, b_dev = 0, b_blockno = 0, b_refcnt = 0, b_prev = 0, b_next = 0,
     b_data = replicate BSIZE 0\<rparr>"

definition vdisk0 :: vdisk where
  "vdisk0 = \<lparr>d_desc = (\<lambda>_. \<lparr>vd_addr = DNull, vd_len = 0, vd_flags = 0, vd_next = 0\<rparr>), d_avail_idx = 0,
     d_avail_ring = (\<lambda>_. 0), d_used_id = 0, d_used_elems = (\<lambda>_. 0), d_free = (\<lambda>i. i < 8), d_used_idx = 0,
     d_info_b = (\<lambda>_. None), d_info_status = (\<lambda>_. 0), d_writes = []\<rparr>"

definition bmach0 :: bmach where
  "bmach0 = smach.extend smach0 (bmach.fields (\<lambda>_. buf0) (\<lambda>_. replicate BSIZE 0) [] vdisk0)"

lemma bmach0_simps [simp]:
  "bufs bmach0 = (\<lambda>_. buf0)" "disk bmach0 = (\<lambda>_. replicate BSIZE 0)" "dhist bmach0 = []" "vd bmach0 = vdisk0"
  by (simp_all add: bmach0_def bmach.defs smach.defs smach0_def)

text \<open>C7: The buffer cache never holds a block twice and never loses a buffer. After binit, and after any
  sequence of bread, bwrite, brelse, bpin and bunpin calls by any processes, wherever those calls
  have blocked and been resumed, the next and prev pointers form one ring through all NBUF buffers and
  the list head, and no two buffers hold the same block of the same device.\<close>

theorem bcache_invariant:
  assumes "reachable bcache_init bcache_step s"
  shows "(\<exists>xs. ring (bufs s) xs) \<and>
    (\<forall>b<NBUF. \<forall>c<NBUF. b_dev (bufs s b) \<noteq> 0 \<and> b_dev (bufs s b) = b_dev (bufs s c) \<and>
       b_blockno (bufs s b) = b_blockno (bufs s c) \<longrightarrow> b = c)"
proof -
  have "binv (bufs s)"
    using assms
    by (rule reachable_invariant) (auto simp: bcache_init_def intro: binv_binit binv_step)
  then show ?thesis unfolding binv_def unique_blocks_def .
qed

lemma bcache_boot: "bcache_init (binit bmach0)"
  unfolding bcache_init_def by (rule exI [of _ bmach0]) (simp add: buf0_def)

theorem bcache_invariant_witness:
  "\<exists>xs. ring (bufs (set_buf 3 (\<lambda>x. x\<lparr>b_data := [7]\<rparr>) (binit bmach0))) xs"
proof -
  have "reachable bcache_init bcache_step (binit bmach0)" using bcache_boot by (rule reachable_init)
  then have "reachable bcache_init bcache_step (set_buf 3 (\<lambda>x. x\<lparr>b_data := [7]\<rparr>) (binit bmach0))"
    by (rule reachable_step) (rule step_modify)
  from bcache_invariant [OF this] show ?thesis by (rule conjunct1)
qed

end
