(* ===== verification/Bio_Seq.thy ===== *)
theory Bio_Seq
  imports Bio_Inv
begin

text \<open>
  The buffer cache seen by a process that runs undisturbed. \<open>content s n\<close> is what block n of the
  disk holds as far as the kernel is concerned: the data of the buffer that caches it, or the block on
  disk. \<open>cinv\<close> adds to the invariant of the cache that a buffer nobody refers to is clean, so that
  recycling it loses nothing. Each call of bio.c is described by what it returns, the references and locks
  it moves, and what it leaves alone.
\<close>

definition rdev :: u32 where "rdev = of_nat ROOTDEV"

definition caches :: "'z bmach_scheme \<Rightarrow> nat \<Rightarrow> u32 \<Rightarrow> bool" where
  "caches s b n \<longleftrightarrow> b < NBUF \<and> b_dev (bufs s b) = rdev \<and> b_blockno (bufs s b) = n"

definition content :: "'z bmach_scheme \<Rightarrow> u32 \<Rightarrow> byte list" where
  "content s n =
     (case find (\<lambda>b. b_dev (bufs s b) = rdev \<and> b_blockno (bufs s b) = n \<and> b_valid (bufs s b)) [0..<NBUF] of
        Some b \<Rightarrow> b_data (bufs s b)
      | None \<Rightarrow> disk s (unat n))"

definition clean :: "'z bmach_scheme \<Rightarrow> nat \<Rightarrow> bool" where
  "clean s b \<longleftrightarrow> (b_valid (bufs s b) \<and> b_dev (bufs s b) = rdev \<longrightarrow>
     b_data (bufs s b) = disk s (unat (b_blockno (bufs s b))))"

definition buf_ok :: "'z bmach_scheme \<Rightarrow> nat \<Rightarrow> bool" where
  "buf_ok s b \<longleftrightarrow> (b_dev (bufs s b) = 0 \<or> b_dev (bufs s b) = rdev) \<and> unat (b_blockno (bufs s b)) < 2 ^ 31 \<and>
     length (b_data (bufs s b)) = BSIZE \<and> (sl_locked (slocks s (BufLock b)) \<longrightarrow> b_refcnt (bufs s b) \<noteq> 0) \<and>
     (b_refcnt (bufs s b) = 0 \<longrightarrow> clean s b) \<and> (b_refcnt (bufs s b) \<noteq> 0 \<longrightarrow> b_dev (bufs s b) = rdev)"

definition cinv :: "'z bmach_scheme \<Rightarrow> bool" where
  "cinv s \<longleftrightarrow> binv (bufs s) \<and> (\<forall>b<NBUF. buf_ok s b) \<and> (\<forall>n. length (disk s n) = BSIZE)"

text \<open>A buffer without its place in the list.\<close>

definition payload :: "buf \<Rightarrow> buf" where
  "payload x = x\<lparr>b_prev := 0, b_next := 0\<rparr>"

text \<open>What the cache itself does not change: the disk, the driver and the layers above.\<close>

definition brest :: "'z bmach_scheme \<Rightarrow> (nat \<Rightarrow> byte list) \<times> (nat \<times> byte list) list \<times> vdisk \<times> 'z" where
  "brest s = (disk s, dhist s, vd s, bmach.more s)"

definition held :: "nat \<Rightarrow> sleepid \<Rightarrow> 'z smach_scheme \<Rightarrow> bool" where
  "held p lk s \<longleftrightarrow> sl_locked (slocks s lk) \<and> sl_pid (slocks s lk) = p_pid (procs s p)"

section \<open>Contents\<close>

lemma rdev_nz: "rdev \<noteq> 0"
  by (simp add: rdev_def ROOTDEV_def)

lemma caches_unique: "cinv s \<Longrightarrow> caches s b n \<Longrightarrow> caches s c n \<Longrightarrow> b = c"
  unfolding cinv_def binv_def unique_blocks_def caches_def using rdev_nz by metis

lemma content_cached:
  assumes "cinv s" and "caches s b n" and "b_valid (bufs s b)"
  shows "content s n = b_data (bufs s b)"
proof -
  let ?P = "\<lambda>b. b_dev (bufs s b) = rdev \<and> b_blockno (bufs s b) = n \<and> b_valid (bufs s b)"
  obtain c where c: "find ?P [0..<NBUF] = Some c"
    using assms(2,3) by (cases "find ?P [0..<NBUF]") (auto simp: find_None_iff caches_def)
  then have "caches s c n" by (auto simp: find_Some_iff caches_def)
  with caches_unique [OF assms(1,2)] c show ?thesis by (simp add: content_def)
qed

lemma content_uncached:
  assumes "\<And>b. caches s b n \<Longrightarrow> \<not> b_valid (bufs s b)"
  shows "content s n = disk s (unat n)"
proof -
  let ?P = "\<lambda>b. b_dev (bufs s b) = rdev \<and> b_blockno (bufs s b) = n \<and> b_valid (bufs s b)"
  have "find ?P [0..<NBUF] = None" using assms by (auto simp: find_None_iff caches_def)
  then show ?thesis by (simp add: content_def)
qed

text \<open>The contents are the same when every cached block is backed by the same data.\<close>

lemma length_content:
  assumes "cinv s"
  shows "length (content s n) = BSIZE"
proof (cases "\<exists>b. caches s b n \<and> b_valid (bufs s b)")
  case True
  then obtain b where b: "caches s b n" "b_valid (bufs s b)" by blast
  then show ?thesis using assms content_cached [OF assms b]
    by (simp add: cinv_def buf_ok_def caches_def)
next
  case False
  then show ?thesis using assms content_uncached [of s n] by (auto simp: cinv_def)
qed

section \<open>The critical section of the cache\<close>

lemma brest_simps [simp]:
  "brest (s\<lparr>bufs := x\<rparr>) = brest s" "brest (set_buf b f s) = brest s" "brest (enter lk s) = brest s"
  by (simp_all add: brest_def set_buf_def enter_def push_off_def cpu_defs Let_def)

lemma bufs_enter [simp]: "bufs (enter lk s) = bufs s"
  by (simp add: enter_def push_off_def cpu_defs Let_def)

lemma same_mach_set_buf [simp]:
  "same_mach u (s\<lparr>bufs := x\<rparr>) = same_mach u s" "same_mach u (set_buf b f s) = same_mach u s"
  "slocks (set_buf b f s) = slocks s" "cpus (set_buf b f s) = cpus s" "bufs (set_buf b f s) = (bufs s)(b := f (bufs s b))"
  by (simp_all add: same_mach_def set_buf_def)

lemma brest_of_smore:
  fixes s :: "'z bmach_scheme" and t :: "'z bmach_scheme"
  shows "smach.more t = smach.more s \<Longrightarrow> bufs t = bufs s \<and> brest t = brest s"
  using more_bmach [of t s] by (simp add: brest_def)

lemma release_bufs:
  fixes s :: "'z bmach_scheme" and u :: "'z bmach_scheme"
  assumes "calm p s" and "same_mach (enter lk s) u" and "cpus u = cpus (enter lk s)"
  shows "\<exists>t. release lk u = Ok () t \<and> same_mach s t \<and> slocks t = slocks u \<and> bufs t = bufs u \<and> brest t = brest u"
  using release_slocks [OF assms] brest_of_smore by metis

lemma bcache_section:
  fixes s :: "'z bmach_scheme"
  assumes "calm p s"
  shows "\<exists>t. release BcacheLock ((enter BcacheLock s)\<lparr>bufs := x\<rparr>) = Ok () t \<and> same_mach s t \<and>
    slocks t = slocks s \<and> bufs t = x \<and> brest t = brest s"
proof -
  have "\<exists>t. release BcacheLock ((enter BcacheLock s)\<lparr>bufs := x\<rparr>) = Ok () t \<and> same_mach s t \<and>
      slocks t = slocks ((enter BcacheLock s)\<lparr>bufs := x\<rparr>) \<and> bufs t = bufs ((enter BcacheLock s)\<lparr>bufs := x\<rparr>) \<and>
      brest t = brest ((enter BcacheLock s)\<lparr>bufs := x\<rparr>)"
    using assms by (intro release_bufs) auto
  then show ?thesis by simp
qed

lemma acquiresleep_bufs:
  fixes s :: "'z bmach_scheme"
  assumes "calm p s" and "\<not> sl_locked (slocks s lk)"
  shows "\<exists>t. acquiresleep lk s = Ok () t \<and> same_mach s t \<and> bufs t = bufs s \<and> brest t = brest s \<and>
    slocks t = (slocks s)(lk := (slocks s lk)\<lparr>sl_locked := True, sl_pid := p_pid (procs s p)\<rparr>)"
  using acquiresleep_free [OF assms] brest_of_smore by metis

lemma releasesleep_bufs:
  fixes s :: "'z bmach_scheme"
  assumes "calm p s"
  shows "\<exists>t. releasesleep lk s = Ok () t \<and> same_mach s t \<and> bufs t = bufs s \<and> brest t = brest s \<and>
    slocks t = (slocks s)(lk := (slocks s lk)\<lparr>sl_locked := False, sl_pid := 0\<rparr>)"
  using releasesleep_ok [OF assms] brest_of_smore by metis

lemma holdingsleep_bufs:
  fixes s :: "'z bmach_scheme"
  assumes "calm p s"
  shows "\<exists>t. holdingsleep lk s = Ok (held p lk s) t \<and> same_mach s t \<and> slocks t = slocks s \<and> bufs t = bufs s \<and>
    brest t = brest s"
  using holdingsleep_ok [OF assms, of lk] brest_of_smore unfolding held_def by metis

section \<open>Getting a buffer\<close>

definition taken :: "nat \<Rightarrow> sleepid \<Rightarrow> 'z smach_scheme \<Rightarrow> sleepid \<Rightarrow> sleeplock" where
  "taken p lk s = (slocks s)(lk := (slocks s lk)\<lparr>sl_locked := True, sl_pid := p_pid (procs s p)\<rparr>)"

lemma set_buf_enter:
  "set_buf b f (enter lk s) = (enter lk s)\<lparr>bufs := (bufs s)(b := f (bufs s b))\<rparr>"
  by (simp add: set_buf_def)

lemma bget_take:
  fixes s :: "'z bmach_scheme"
  assumes "calm p s" and "\<not> sl_locked (slocks s (BufLock b))"
  shows "\<exists>t. bnd (release BcacheLock (set_buf b f (enter BcacheLock s)))
      (\<lambda>_ s. bnd (acquiresleep (BufLock b) s) (\<lambda>_ s. Ok b s)) = Ok b t \<and> same_mach s t \<and>
    bufs t = (bufs s)(b := f (bufs s b)) \<and> brest t = brest s \<and> slocks t = taken p (BufLock b) s"
proof -
  obtain u where u: "release BcacheLock (set_buf b f (enter BcacheLock s)) = Ok () u" "same_mach s u"
      "slocks u = slocks s" "bufs u = (bufs s)(b := f (bufs s b))" "brest u = brest s"
    using bcache_section [OF assms(1)] unfolding set_buf_enter by blast
  have "\<not> sl_locked (slocks u (BufLock b))" using assms(2) u(3) by simp
  then obtain t where t: "acquiresleep (BufLock b) u = Ok () t" "same_mach u t" "bufs t = bufs u" "brest t = brest u"
      "slocks t = (slocks u)(BufLock b := (slocks u (BufLock b))\<lparr>sl_locked := True, sl_pid := p_pid (procs u p)\<rparr>)"
    using acquiresleep_bufs [OF calm_same [OF assms(1) u(2)]] by blast
  have "same_mach s t" using u(2) t(2) by (rule same_mach_trans)
  with u t show ?thesis by (simp add: taken_def same_mach_proc [OF u(2)])
qed

lemma bget_hit:
  fixes s :: "'z bmach_scheme"
  assumes "calm p s" and "cinv s" and "caches s b n" and "\<not> sl_locked (slocks s (BufLock b))"
  shows "\<exists>t. bget rdev n s = Ok b t \<and> same_mach s t \<and> brest t = brest s \<and> slocks t = taken p (BufLock b) s \<and>
    bufs t = (bufs s)(b := (bufs s b)\<lparr>b_refcnt := b_refcnt (bufs s b) + 1\<rparr>)"
proof -
  obtain xs where r: "ring (bufs s) xs" using assms(2) by (auto simp: cinv_def binv_def)
  let ?P = "\<lambda>b. b_dev (bufs s b) = rdev \<and> b_blockno (bufs s b) = n"
  have "b \<in> set xs" using assms(3) r by (simp add: caches_def ring_def)
  then obtain c where c: "find ?P xs = Some c"
    using assms(3) by (cases "find ?P xs") (auto simp: find_None_iff caches_def)
  then have "caches s c n" using r by (auto simp: find_Some_iff caches_def ring_def)
  with c have "find ?P xs = Some b" using caches_unique [OF assms(2,3)] by simp
  then have f: "bget_cached (Suc NBUF) rdev n (b_next (bufs s bhead)) (bufs s) = Some (Some b)"
    by (simp only: bget_cached_ring [OF r])
  have "bget rdev n s = bnd (release BcacheLock (set_buf b (\<lambda>x. x\<lparr>b_refcnt := b_refcnt x + 1\<rparr>) (enter BcacheLock s)))
      (\<lambda>_ s. bnd (acquiresleep (BufLock b) s) (\<lambda>_ s. Ok b s))"
    unfolding bget_def acquire_free [OF calmD(3) [OF assms(1)]] bnd.simps bufs_enter f option.case ..
  with bget_take [OF assms(1,4), of "\<lambda>x. x\<lparr>b_refcnt := b_refcnt x + 1\<rparr>"] show ?thesis by auto
qed

lemma bget_miss:
  fixes s :: "'z bmach_scheme"
  assumes "calm p s" and "cinv s" and "\<And>b. \<not> caches s b n" and "\<exists>b<NBUF. b_refcnt (bufs s b) = 0"
  shows "\<exists>b t. bget rdev n s = Ok b t \<and> same_mach s t \<and> brest t = brest s \<and> slocks t = taken p (BufLock b) s \<and>
    b < NBUF \<and> b_refcnt (bufs s b) = 0 \<and>
    bufs t = (bufs s)(b := (bufs s b)\<lparr>b_dev := rdev, b_blockno := n, b_valid := False, b_refcnt := 1\<rparr>)"
proof -
  obtain xs where r: "ring (bufs s) xs" using assms(2) by (auto simp: cinv_def binv_def)
  let ?P = "\<lambda>b. b_dev (bufs s b) = rdev \<and> b_blockno (bufs s b) = n" and ?Q = "\<lambda>b. b_refcnt (bufs s b) = 0"
  have "find ?P xs = None" using assms(3) r by (auto simp: find_None_iff caches_def ring_def)
  then have f: "bget_cached (Suc NBUF) rdev n (b_next (bufs s bhead)) (bufs s) = Some None"
    by (simp only: bget_cached_ring [OF r])
  obtain b where b: "find ?Q (rev xs) = Some b"
    using assms(4) r by (cases "find ?Q (rev xs)") (auto simp: find_None_iff ring_def)
  then have g: "bget_unused (Suc NBUF) (b_prev (bufs s bhead)) (bufs s) = Some (Some b)"
    by (simp only: bget_unused_ring [OF r])
  have b2: "b < NBUF" "b_refcnt (bufs s b) = 0" using find_SomeD [OF b] r by (auto simp: ring_def)
  then have "\<not> sl_locked (slocks s (BufLock b))" using assms(2) by (auto simp: cinv_def buf_ok_def)
  from bget_take [OF assms(1) this, of "\<lambda>x. x\<lparr>b_dev := rdev, b_blockno := n, b_valid := False, b_refcnt := 1\<rparr>"] b2
  show ?thesis
    unfolding bget_def acquire_free [OF calmD(3) [OF assms(1)]] bnd.simps bufs_enter f option.case g
    by blast
qed

section \<open>Reading a block\<close>

lemma disk_block_small: "unat (b_blockno x) < 2 ^ 31 \<Longrightarrow> disk_block x = unat (b_blockno x)"
  by (simp add: disk_block_def BSIZE_def unat_word_ariths)

lemma bread_fill_ok:
  assumes "unat (b_blockno (bufs s b)) < 2 ^ 31"
  shows "\<exists>t. bread_fill b s = Ok b t \<and> same_mach s t \<and> slocks t = slocks s \<and> brest t = brest s \<and>
    bufs t = (bufs s)(b := (bufs s b)\<lparr>b_data :=
      (if b_valid (bufs s b) then b_data (bufs s b) else disk s (unat (b_blockno (bufs s b)))), b_valid := True\<rparr>)"
proof (cases "b_valid (bufs s b)")
  case True
  have "(bufs s)(b := (bufs s b)\<lparr>b_data := b_data (bufs s b), b_valid := True\<rparr>) = bufs s"
    using True by (intro ext) (simp add: buf.equality)
  with True show ?thesis by (auto simp: bread_fill_def)
next
  case False
  with assms show ?thesis
    by (simp add: bread_fill_def disk_rw_def Let_def disk_block_small same_machI)
qed

text \<open>Replacing one buffer of the cache.\<close>

lemma cinv_replace:
  assumes "cinv s" and "bufs t = (bufs s)(b := x)" and "disk t = disk s"
    and "\<And>c. c \<noteq> b \<Longrightarrow> slocks t (BufLock c) = slocks s (BufLock c)"
    and "binv (bufs t)" and "buf_ok t b"
  shows "cinv t"
  unfolding cinv_def
proof (intro conjI allI impI)
  show "buf_ok t c" if "c < NBUF" for c
  proof (cases "c = b")
    case False
    then show ?thesis
      using assms(1-4) that by (simp add: cinv_def buf_ok_def clean_def)
  qed (use assms(6) in simp)
  show "length (disk t n) = BSIZE" for n
    using assms(1,3) by (simp add: cinv_def)
qed (rule assms(5))

lemma binv_replace:
  assumes "binv bf" and "b_next x = b_next (bf b)" and "b_prev x = b_prev (bf b)"
    and "b_dev x = b_dev (bf b)" and "b_blockno x = b_blockno (bf b)"
  shows "binv (bf(b := x))"
  using assms by (intro binv_same_links [OF assms(1)]) auto

definition got :: "nat \<Rightarrow> u32 \<Rightarrow> 'z bmach_scheme \<Rightarrow> nat \<Rightarrow> 'z bmach_scheme \<Rightarrow> bool" where
  "got p n s b t \<longleftrightarrow> same_mach s t \<and> cinv t \<and> caches t b n \<and> b_valid (bufs t b) \<and> b_data (bufs t b) = content s n \<and>
     slocks t = taken p (BufLock b) s \<and> brest t = brest s \<and> (\<forall>c. c \<noteq> b \<longrightarrow> bufs t c = bufs s c) \<and>
     b_refcnt (bufs t b) = b_refcnt (bufs s b) + 1 \<and> content t = content s \<and> \<not> sl_locked (slocks s (BufLock b)) \<and>
     (caches s b n \<or> (\<forall>c. \<not> caches s c n) \<and> b_refcnt (bufs s b) = 0)"

definition can_get :: "u32 \<Rightarrow> 'z bmach_scheme \<Rightarrow> bool" where
  "can_get n s \<longleftrightarrow> unat n < 2 ^ 31 \<and>
     ((\<exists>b. caches s b n \<and> \<not> sl_locked (slocks s (BufLock b)) \<and> b_refcnt (bufs s b) \<noteq> -1) \<or>
      (\<forall>b. \<not> caches s b n) \<and> (\<exists>b<NBUF. b_refcnt (bufs s b) = 0))"

lemma content_replace:
  assumes "cinv s" and "cinv t" and "\<And>c. c \<noteq> b \<Longrightarrow> bufs t c = bufs s c" and "disk t = disk s"
    and "caches t b n" and "b_valid (bufs t b)" and "b_data (bufs t b) = content s n"
    and "caches s b n \<or> (\<forall>c. \<not> caches s c n) \<and> clean s b"
  shows "content t = content s"
proof
  fix m
  have cc: "caches t c m = caches s c m" if "c \<noteq> b" for c m
    using assms(3) [OF that] by (simp add: caches_def)
  show "content t m = content s m"
  proof (cases "m = n")
    case True
    with content_cached [OF assms(2,5,6)] assms(7) show ?thesis by simp
  next
    case m: False
    show ?thesis
    proof (cases "\<exists>c. c \<noteq> b \<and> caches s c m \<and> b_valid (bufs s c)")
      case True
      then obtain c where c: "c \<noteq> b" "caches s c m" "b_valid (bufs s c)" by blast
      with cc [of c m] assms(3) [of c] show ?thesis
        using content_cached [OF assms(1) c(2,3)] content_cached [OF assms(2), of c m] by simp
    next
      case none: False
      have "content t m = disk t (unat m)"
      proof (rule content_uncached)
        fix c assume c: "caches t c m"
        with m assms(5) have "c \<noteq> b" by (auto simp: caches_def)
        with c cc assms(3) none show "\<not> b_valid (bufs t c)" by auto
      qed
      moreover have "content s m = disk s (unat m)"
      proof (cases "caches s b m \<and> b_valid (bufs s b)")
        case True
        with m assms(8) have "clean s b" by (auto simp: caches_def)
        with True content_cached [OF assms(1), of b m] show ?thesis by (simp add: clean_def caches_def)
      next
        case False
        with none show ?thesis by (intro content_uncached) auto
      qed
      ultimately show ?thesis using assms(4) by simp
    qed
  qed
qed

lemma bread_hit:
  fixes s :: "'z bmach_scheme"
  assumes "calm p s" and "cinv s" and "caches s b n" and "\<not> sl_locked (slocks s (BufLock b))"
    and "b_refcnt (bufs s b) \<noteq> -1"
  shows "\<exists>t. bread rdev n s = Ok b t \<and> got p n s b t"
proof -
  obtain u where u: "bget rdev n s = Ok b u" "same_mach s u" "brest u = brest s" "slocks u = taken p (BufLock b) s"
      "bufs u = (bufs s)(b := (bufs s b)\<lparr>b_refcnt := b_refcnt (bufs s b) + 1\<rparr>)"
    using bget_hit [OF assms(1-4)] by blast
  have ok: "buf_ok s b" and bn: "b_blockno (bufs s b) = n" "b < NBUF" "b_dev (bufs s b) = rdev"
    using assms(2,3) by (auto simp: cinv_def caches_def)
  have d: "disk u = disk s" using u(3) by (simp add: brest_def)
  obtain t where t: "bread_fill b u = Ok b t" "same_mach u t" "slocks t = slocks u" "brest t = brest u"
      "bufs t = (bufs u)(b := (bufs u b)\<lparr>b_data :=
         (if b_valid (bufs u b) then b_data (bufs u b) else disk u (unat (b_blockno (bufs u b)))), b_valid := True\<rparr>)"
    using bread_fill_ok [of u b] ok bn by (auto simp: u(5) buf_ok_def)
  have bt: "bufs t = (bufs s)(b := (bufs s b)\<lparr>b_refcnt := b_refcnt (bufs s b) + 1,
         b_data := (if b_valid (bufs s b) then b_data (bufs s b) else disk s (unat n)), b_valid := True\<rparr>)"
    by (simp add: t(5) u(5) d bn)
  have dt: "disk t = disk s" using t(4) u(3) by (simp add: brest_def)
  have data: "b_data (bufs t b) = content s n"
  proof (cases "b_valid (bufs s b)")
    case True
    then show ?thesis using content_cached [OF assms(2,3)] by (simp add: bt)
  next
    case False
    then have "content s n = disk s (unat n)"
      using caches_unique [OF assms(2,3)] by (intro content_uncached) auto
    with False show ?thesis by (simp add: bt)
  qed
  have nz: "b_refcnt (bufs s b) + 1 \<noteq> 0" using assms(5) by (simp add: add_eq_0_iff2)
  have ci: "cinv t"
  proof (rule cinv_replace [OF assms(2) bt dt])
    show "slocks t (BufLock c) = slocks s (BufLock c)" if "c \<noteq> b" for c using that by (simp add: t(3) u(4) taken_def)
    show "binv (bufs t)" unfolding bt using assms(2) by (intro binv_replace) (simp_all add: cinv_def)
    show "buf_ok t b" using ok nz bn assms(2) by (simp add: buf_ok_def bt cinv_def)
  qed
  have "caches t b n" using bn by (simp add: caches_def bt)
  moreover have "content t = content s"
    using ci data dt bn assms(3) by (intro content_replace [OF assms(2) ci]) (auto simp: bt caches_def)
  ultimately show ?thesis
    using u t ci data assms(3,4) same_mach_trans [OF u(2) t(2)] unfolding got_def bread_def
    by (auto simp: bt)
qed

lemma bread_miss:
  fixes s :: "'z bmach_scheme"
  assumes "calm p s" and "cinv s" and "\<And>b. \<not> caches s b n" and "\<exists>b<NBUF. b_refcnt (bufs s b) = 0"
    and n: "unat n < 2 ^ 31"
  shows "\<exists>b t. bread rdev n s = Ok b t \<and> got p n s b t"
proof -
  obtain b u where u: "bget rdev n s = Ok b u" "same_mach s u" "brest u = brest s" "slocks u = taken p (BufLock b) s"
      "b < NBUF" "b_refcnt (bufs s b) = 0"
      "bufs u = (bufs s)(b := (bufs s b)\<lparr>b_dev := rdev, b_blockno := n, b_valid := False, b_refcnt := 1\<rparr>)"
    using bget_miss [OF assms(1-4)] by blast
  have ok: "buf_ok s b" using assms(2) u(5) by (simp add: cinv_def)
  obtain t where t: "bread_fill b u = Ok b t" "same_mach u t" "slocks t = slocks u" "brest t = brest u"
      "bufs t = (bufs u)(b := (bufs u b)\<lparr>b_data :=
         (if b_valid (bufs u b) then b_data (bufs u b) else disk u (unat (b_blockno (bufs u b)))), b_valid := True\<rparr>)"
    using bread_fill_ok [of u b] n by (auto simp: u(7))
  have d: "disk u = disk s" "disk t = disk s" using t(4) u(3) by (simp_all add: brest_def)
  have bt: "bufs t = (bufs s)(b := (bufs s b)\<lparr>b_dev := rdev, b_blockno := n, b_valid := False, b_refcnt := 1,
      b_data := disk s (unat n), b_valid := True\<rparr>)"
    by (simp add: t(5) u(7) d)
  have data: "b_data (bufs t b) = content s n"
    using content_uncached [of s n] assms(3) by (simp add: bt)
  have bi: "binv (bufs t)"
    using every_OkD [OF every_bread u(1) [THEN arg_cong [where f = "\<lambda>r. bnd r (\<lambda>b s. bread_fill b s)"],
        unfolded bread_def [symmetric] bnd.simps t(1)]] assms(2) by (simp add: cinv_def)
  have ci: "cinv t"
  proof (rule cinv_replace [OF assms(2) bt d(2) _ bi])
    show "slocks t (BufLock c) = slocks s (BufLock c)" if "c \<noteq> b" for c using that by (simp add: t(3) u(4) taken_def)
    show "buf_ok t b" using ok n assms(2) by (simp add: buf_ok_def bt cinv_def)
  qed
  have ct: "caches t b n" using u(5) by (simp add: caches_def bt)
  moreover have "content t = content s"
    using ok data d assms(3) u(6) by (intro content_replace [OF assms(2) ci _ d(2) ct]) (auto simp: bt buf_ok_def)
  moreover have "\<not> sl_locked (slocks s (BufLock b))" using ok u(6) by (auto simp: buf_ok_def)
  ultimately show ?thesis
    using u t ci data assms(3) same_mach_trans [OF u(2) t(2)] unfolding got_def bread_def
    by (intro exI [of _ b] exI [of _ t]) (auto simp: bt)
qed

lemma bread_ok:
  fixes s :: "'z bmach_scheme"
  assumes "calm p s" and "cinv s" and "can_get n s"
  shows "\<exists>b t. bread rdev n s = Ok b t \<and> got p n s b t"
  using assms bread_hit [OF assms(1,2)] bread_miss [OF assms(1,2)] unfolding can_get_def by blast

lemma gotD:
  assumes "got p n s b t"
  shows "same_mach s t" "cinv t" "caches t b n" "b_valid (bufs t b)" "b_data (bufs t b) = content s n"
    "slocks t = taken p (BufLock b) s" "brest t = brest s" "c \<noteq> b \<Longrightarrow> bufs t c = bufs s c"
    "b_refcnt (bufs t b) = b_refcnt (bufs s b) + 1" "content t = content s" "\<not> sl_locked (slocks s (BufLock b))"
    "caches s b n \<or> (\<forall>c. \<not> caches s c n) \<and> b_refcnt (bufs s b) = 0" "b < NBUF" "disk t = disk s" "dhist t = dhist s"
  using assms by (auto simp: got_def caches_def brest_def)

lemma got_held: "got p n s b t \<Longrightarrow> held p (BufLock b) t"
  by (simp add: held_def gotD(6) taken_def same_mach_proc [OF gotD(1)])

lemma got_refcnt:
  assumes "got p n s b t"
  shows "b_refcnt (bufs t b) \<noteq> 0"
proof -
  have "sl_locked (slocks t (BufLock b))" by (simp add: gotD(6) [OF assms] taken_def)
  with gotD(2,13) [OF assms] show ?thesis by (auto simp: cinv_def buf_ok_def)
qed

section \<open>Giving a buffer back\<close>

lemma payload_iff:
  "payload x = payload y \<longleftrightarrow> b_valid x = b_valid y \<and> b_disk x = b_disk y \<and> b_dev x = b_dev y \<and>
     b_blockno x = b_blockno y \<and> b_refcnt x = b_refcnt y \<and> b_data x = b_data y"
  by (cases x, cases y) (auto simp: payload_def)

lemma payload_links [simp]:
  "payload (x\<lparr>b_next := n\<rparr>) = payload x" "payload (x\<lparr>b_prev := n\<rparr>) = payload x"
  by (simp_all add: payload_iff)

lemma payload_set_links [simp]:
  "payload (bufs (set_buf c (\<lambda>x. x\<lparr>b_next := n\<rparr>) s) y) = payload (bufs s y)"
  "payload (bufs (set_buf c (\<lambda>x. x\<lparr>b_prev := n\<rparr>) s) y) = payload (bufs s y)"
  by simp_all

lemma move_front_payload: "payload (bufs (push_front b (unlink_buf b s)) y) = payload (bufs s y)"
  unfolding push_front_def unlink_buf_def Let_def payload_set_links ..

lemma move_front_rest:
  "brest (push_front b (unlink_buf b s)) = brest s" "slocks (push_front b (unlink_buf b s)) = slocks s"
  "same_mach u (push_front b (unlink_buf b s)) = same_mach u s" "cpus (push_front b (unlink_buf b s)) = cpus s"
  unfolding push_front_def unlink_buf_def Let_def by simp_all

lemma caches_payload: "payload (bufs t b) = payload (bufs s b) \<Longrightarrow> caches t b n = caches s b n"
  by (simp add: caches_def payload_iff)

lemma content_same:
  assumes "\<And>b. b < NBUF \<Longrightarrow> b_valid (bufs t b) = b_valid (bufs s b) \<and> b_dev (bufs t b) = b_dev (bufs s b) \<and>
      b_blockno (bufs t b) = b_blockno (bufs s b) \<and> b_data (bufs t b) = b_data (bufs s b)"
    and "disk t = disk s"
  shows "content t = content s"
proof
  fix n
  have "find (\<lambda>b. b_dev (bufs t b) = rdev \<and> b_blockno (bufs t b) = n \<and> b_valid (bufs t b)) [0..<NBUF] =
      find (\<lambda>b. b_dev (bufs s b) = rdev \<and> b_blockno (bufs s b) = n \<and> b_valid (bufs s b)) [0..<NBUF]"
    by (rule find_cong) (use assms(1) in auto)
  with assms show "content t n = content s n"
    by (auto simp: content_def split: option.split dest: find_SomeD)
qed

definition freed :: "sleepid \<Rightarrow> 'z smach_scheme \<Rightarrow> sleepid \<Rightarrow> sleeplock" where
  "freed lk s = (slocks s)(lk := (slocks s lk)\<lparr>sl_locked := False, sl_pid := 0\<rparr>)"

text \<open>The cache after the reference counter of one buffer has changed.\<close>

definition recount :: "'z bmach_scheme \<Rightarrow> nat \<Rightarrow> u32 \<Rightarrow> 'z bmach_scheme \<Rightarrow> bool" where
  "recount s b r t \<longleftrightarrow> same_mach s t \<and> cinv t \<and> brest t = brest s \<and> content t = content s \<and>
     (\<forall>c. payload (bufs t c) = payload (if c = b then (bufs s b)\<lparr>b_refcnt := r\<rparr> else bufs s c))"

lemma recountI:
  assumes "cinv s" and "same_mach s t" and "binv (bufs t)" and "brest t = brest s"
    and pl: "\<And>c. payload (bufs t c) = payload (if c = b then (bufs s b)\<lparr>b_refcnt := r\<rparr> else bufs s c)"
    and "\<And>c. c \<noteq> b \<Longrightarrow> slocks t (BufLock c) = slocks s (BufLock c)"
    and "r = 0 \<Longrightarrow> \<not> sl_locked (slocks t (BufLock b)) \<and> clean s b" and "b_dev (bufs s b) = rdev"
  shows "recount s b r t"
proof -
  have d: "disk t = disk s" using assms(4) by (simp add: brest_def)
  have f: "b_valid (bufs t c) = b_valid (bufs s c) \<and> b_dev (bufs t c) = b_dev (bufs s c) \<and>
      b_blockno (bufs t c) = b_blockno (bufs s c) \<and> b_data (bufs t c) = b_data (bufs s c) \<and>
      b_refcnt (bufs t c) = (if c = b then r else b_refcnt (bufs s c))" for c
    using pl [of c] by (simp add: payload_iff split: if_splits)
  have "buf_ok t c" if "c < NBUF" for c
  proof -
    have "buf_ok s c" using assms(1) that by (simp add: cinv_def)
    then show ?thesis
      using assms(6) [of c] assms(7,8) f [of c] d by (cases "c = b") (auto simp: buf_ok_def clean_def)
  qed
  then have "cinv t" using assms(1,3) d by (simp add: cinv_def)
  moreover have "content t = content s" using f d by (intro content_same) auto
  ultimately show ?thesis using assms(2,4) pl by (simp add: recount_def)
qed

text \<open>brelse needs only the shape of the list: the counter may be anything.\<close>

lemma brelse_raw:
  fixes s :: "'z bmach_scheme"
  assumes "calm p s" and "binv (bufs s)" and "b < NBUF" and "held p (BufLock b) s"
  shows "\<exists>t. brelse b s = Ok () t \<and> same_mach s t \<and> binv (bufs t) \<and> brest t = brest s \<and> slocks t = freed (BufLock b) s \<and>
    (\<forall>c. payload (bufs t c) = payload (if c = b then (bufs s b)\<lparr>b_refcnt := b_refcnt (bufs s b) - 1\<rparr> else bufs s c))"
proof -
  obtain u where u: "holdingsleep (BufLock b) s = Ok True u" "same_mach s u" "slocks u = slocks s" "bufs u = bufs s"
      "brest u = brest s"
    using holdingsleep_bufs [OF assms(1), of "BufLock b"] assms(4) by auto
  note cu = calm_same [OF assms(1) u(2)]
  obtain v where v: "releasesleep (BufLock b) u = Ok () v" "same_mach u v" "bufs v = bufs u" "brest v = brest u"
      "slocks v = freed (BufLock b) u"
    using releasesleep_bufs [OF cu, of "BufLock b"] unfolding freed_def by blast
  note cv = calm_same [OF cu v(2)]
  define w where "w = set_buf b (\<lambda>x. x\<lparr>b_refcnt := b_refcnt x - 1\<rparr>) (enter BcacheLock v)"
  define x where "x = (if b_refcnt (bufs w b) = 0 then push_front b (unlink_buf b w) else w)"
  have eq: "brelse b s = release BcacheLock x"
    unfolding brelse_def u(1) bnd.simps v(1) acquire_free [OF calmD(3) [OF cv]] Let_def w_def x_def by simp
  have wx: "same_mach (enter BcacheLock v) x" "cpus x = cpus (enter BcacheLock v)" "slocks x = slocks v"
      "brest x = brest v" "payload (bufs x c) = payload (bufs w c)" for c
    by (auto simp: x_def w_def move_front_rest move_front_payload)
  obtain t where t: "release BcacheLock x = Ok () t" "same_mach v t" "slocks t = slocks x" "bufs t = bufs x"
      "brest t = brest x"
    using release_bufs [OF cv wx(1,2)] by blast
  have pl: "payload (bufs t c) = payload (if c = b then (bufs s b)\<lparr>b_refcnt := b_refcnt (bufs s b) - 1\<rparr> else bufs s c)" for c
    using wx(5) [of c] by (simp add: t(4) w_def v(3) u(4))
  have sm: "same_mach s t" using same_mach_trans [OF u(2) same_mach_trans [OF v(2) t(2)]] .
  have br: "brest t = brest s" by (simp add: t(5) wx(4) v(4) u(5))
  have "binv (bufs t)"
    using every_OkD [OF every_brelse [OF _ assms(3), of s] eq [unfolded t(1)]] assms(2) by simp
  moreover have "slocks t = freed (BufLock b) s"
    by (simp add: t(3) wx(3) v(5) freed_def u(3))
  ultimately show ?thesis using eq t(1) pl sm br by auto
qed

lemma brelse_ok:
  fixes s :: "'z bmach_scheme"
  assumes "calm p s" and "cinv s" and "b < NBUF" and "held p (BufLock b) s"
    and cl: "b_refcnt (bufs s b) = 1 \<Longrightarrow> clean s b"
  shows "\<exists>t. brelse b s = Ok () t \<and> recount s b (b_refcnt (bufs s b) - 1) t \<and> slocks t = freed (BufLock b) s"
proof -
  have "binv (bufs s)" using assms(2) by (simp add: cinv_def)
  then obtain t where t: "brelse b s = Ok () t" "same_mach s t" "binv (bufs t)" "brest t = brest s"
      "slocks t = freed (BufLock b) s"
      "\<And>c. payload (bufs t c) = payload (if c = b then (bufs s b)\<lparr>b_refcnt := b_refcnt (bufs s b) - 1\<rparr> else bufs s c)"
    using brelse_raw [OF assms(1) _ assms(3,4)] by blast
  have "b_dev (bufs s b) = rdev"
    using assms(2-4) by (simp add: cinv_def buf_ok_def held_def)
  then have "recount s b (b_refcnt (bufs s b) - 1) t"
    using cl t by (intro recountI [OF assms(2)]) (auto simp: freed_def)
  with t show ?thesis by blast
qed

text \<open>
  The three calls that end a round of install_trans. The counter of the home block is decremented
  twice; when it was 1 it wraps around, and while the log block is released the counter of a locked
  buffer is 0.
\<close>

lemma unpin_release_ok:
  fixes s :: "'z bmach_scheme"
  assumes "calm p s" and "cinv s" and l: "l < NBUF" "held p (BufLock l) s" and d: "d < NBUF" "held p (BufLock d) s"
    and "l \<noteq> d" and cl: "b_refcnt (bufs s l) = 1 \<Longrightarrow> clean s l" and cd: "clean s d"
  shows "\<exists>u v t. bunpin d s = Ok () u \<and> brelse l u = Ok () v \<and> brelse d v = Ok () t \<and>
    (\<exists>w. recount s l (b_refcnt (bufs s l) - 1) w \<and> slocks w = freed (BufLock l) s \<and>
      recount w d (b_refcnt (bufs s d) - 2) t \<and> slocks t = freed (BufLock d) w)"
proof -
  have bi: "binv (bufs s)" using assms(2) by (simp add: cinv_def)
  obtain u where u: "bunpin d s = Ok () u" "same_mach s u" "slocks u = slocks s" "brest u = brest s"
      "bufs u = (bufs s)(d := (bufs s d)\<lparr>b_refcnt := b_refcnt (bufs s d) - 1\<rparr>)"
    using bcache_section [OF assms(1)] unfolding set_buf_enter bunpin_def acquire_free [OF calmD(3) [OF assms(1)]] bnd.simps
    by blast
  have bu: "binv (bufs u)" unfolding u(5) using bi by (intro binv_replace) simp_all
  have cu: "calm p u" by (rule calm_same [OF assms(1) u(2)])
  have hu: "held p (BufLock l) u" using l(2) by (simp add: held_def u(3) same_mach_proc [OF u(2)])
  obtain v where v: "brelse l u = Ok () v" "same_mach u v" "binv (bufs v)" "brest v = brest u"
      "slocks v = freed (BufLock l) u"
      "\<And>c. payload (bufs v c) = payload (if c = l then (bufs u l)\<lparr>b_refcnt := b_refcnt (bufs u l) - 1\<rparr> else bufs u c)"
    using brelse_raw [OF cu bu l(1) hu] by blast
  have cv: "calm p v" by (rule calm_same [OF cu v(2)])
  have hv: "held p (BufLock d) v"
    using d(2) \<open>l \<noteq> d\<close> by (simp add: held_def v(5) freed_def u(3) same_mach_proc [OF v(2)] same_mach_proc [OF u(2)])
  obtain t where t: "brelse d v = Ok () t" "same_mach v t" "binv (bufs t)" "brest t = brest v"
      "slocks t = freed (BufLock d) v"
      "\<And>c. payload (bufs t c) = payload (if c = d then (bufs v d)\<lparr>b_refcnt := b_refcnt (bufs v d) - 1\<rparr> else bufs v c)"
    using brelse_raw [OF cv v(3) d(1) hv] by blast
  obtain w where w: "brelse l s = Ok () w" "recount s l (b_refcnt (bufs s l) - 1) w" "slocks w = freed (BufLock l) s"
    using brelse_ok [OF assms(1,2) l cl] by blast
  note rc = w(2) [unfolded recount_def]
  have pw: "payload (bufs w c) = payload (if c = l then (bufs s l)\<lparr>b_refcnt := b_refcnt (bufs s l) - 1\<rparr> else bufs s c)" for c
    using rc by blast
  have sm: "same_mach w t"
    using same_mach_trans [OF u(2) same_mach_trans [OF v(2) t(2)]] rc by (simp add: same_mach_def)
  have "payload (bufs t c) = payload (if c = d then (bufs w d)\<lparr>b_refcnt := b_refcnt (bufs s d) - 2\<rparr> else bufs w c)" for c
    using t(6) [of c] v(6) [of c] pw [of c] \<open>l \<noteq> d\<close> by (auto simp: payload_iff u(5) split: if_splits)
  moreover have "clean w d" using cd pw [of d] rc \<open>l \<noteq> d\<close> by (auto simp: clean_def payload_iff brest_def)
  moreover have "b_dev (bufs w d) = rdev"
    using assms(2) d pw [of d] \<open>l \<noteq> d\<close> by (auto simp: cinv_def buf_ok_def held_def payload_iff)
  ultimately have "recount w d (b_refcnt (bufs s d) - 2) t"
    using rc sm t(3-5) v(4,5) u(3,4) w(3) by (intro recountI) (auto simp: freed_def)
  moreover have "slocks t = freed (BufLock d) w" by (simp add: t(5) v(5) u(3) w(3) freed_def)
  ultimately show ?thesis using u(1) v(1) t(1) w(2,3) by blast
qed

lemma brefcnt_section:
  fixes s :: "'z bmach_scheme"
  assumes "calm p s" and "cinv s" and "r = 0 \<Longrightarrow> \<not> sl_locked (slocks s (BufLock b)) \<and> clean s b"
    and "f (bufs s b) = (bufs s b)\<lparr>b_refcnt := r\<rparr>" and "b_dev (bufs s b) = rdev"
  shows "\<exists>t. bnd (acquire BcacheLock s) (\<lambda>_ s. release BcacheLock (set_buf b f s)) = Ok () t \<and>
    recount s b r t \<and> slocks t = slocks s"
proof -
  obtain t where t: "release BcacheLock (set_buf b f (enter BcacheLock s)) = Ok () t" "same_mach s t"
      "slocks t = slocks s" "bufs t = (bufs s)(b := f (bufs s b))" "brest t = brest s"
    using bcache_section [OF assms(1)] unfolding set_buf_enter by blast
  have "binv (bufs t)" unfolding t(4) assms(4) using assms(2) by (intro binv_replace) (simp_all add: cinv_def)
  then have "recount s b r t"
    using assms(3,5) t by (intro recountI [OF assms(2)]) (auto simp: assms(4))
  with t show ?thesis by (simp add: acquire_free calmD(3) [OF assms(1)])
qed

lemma bpin_ok:
  fixes s :: "'z bmach_scheme"
  assumes "calm p s" and "cinv s" and "b_refcnt (bufs s b) \<noteq> -1" and "b_dev (bufs s b) = rdev"
  shows "\<exists>t. bpin b s = Ok () t \<and> recount s b (b_refcnt (bufs s b) + 1) t \<and> slocks t = slocks s"
  unfolding bpin_def using assms(3,4)
  by (intro brefcnt_section [OF assms(1,2)]) (simp_all add: add_eq_0_iff2)

lemma bunpin_ok:
  fixes s :: "'z bmach_scheme"
  assumes "calm p s" and "cinv s" and "b_refcnt (bufs s b) \<noteq> 1" and "b_dev (bufs s b) = rdev"
  shows "\<exists>t. bunpin b s = Ok () t \<and> recount s b (b_refcnt (bufs s b) - 1) t \<and> slocks t = slocks s"
  unfolding bunpin_def using assms(3,4)
  by (intro brefcnt_section [OF assms(1,2)]) simp_all

section \<open>Writing a block\<close>

lemma content_update:
  assumes "cinv s" and "cinv t" and "caches s b n" and "b_valid (bufs s b)"
    and "bufs t = (bufs s)(b := (bufs s b)\<lparr>b_data := d\<rparr>)" and "\<And>m. m \<noteq> unat n \<Longrightarrow> disk t m = disk s m"
  shows "content t = (content s)(n := d)"
proof
  fix m
  have cc: "caches t c m = caches s c m" "b_valid (bufs t c) = b_valid (bufs s c)" for c m
    by (simp_all add: caches_def assms(5))
  show "content t m = ((content s)(n := d)) m"
  proof (cases "m = n")
    case True
    then show ?thesis using content_cached [OF assms(2), of b n] assms(3-5) by (simp add: cc)
  next
    case m: False
    show ?thesis
    proof (cases "\<exists>c. caches s c m \<and> b_valid (bufs s c)")
      case True
      then obtain c where c: "caches s c m" "b_valid (bufs s c)" by blast
      then have "c \<noteq> b" using m assms(3) by (auto simp: caches_def)
      with c m show ?thesis
        using content_cached [OF assms(1) c] content_cached [OF assms(2), of c m] by (simp add: cc assms(5))
    next
      case False
      have "unat m \<noteq> unat n" using m by (simp add: word_eq_iff_unat)
      with False m show ?thesis
        using content_uncached [of s m] content_uncached [of t m] cc assms(6) by auto
    qed
  qed
qed

lemma set_buf_data_ok:
  assumes "cinv s" and "caches s b n" and "b_valid (bufs s b)" and "b_refcnt (bufs s b) \<noteq> 0" and "length d = BSIZE"
  defines "t \<equiv> set_buf b (\<lambda>x. x\<lparr>b_data := d\<rparr>) s"
  shows "cinv t" "content t = (content s)(n := d)"
proof -
  have bt: "bufs t = (bufs s)(b := (bufs s b)\<lparr>b_data := d\<rparr>)" "disk t = disk s" "slocks t = slocks s"
    by (simp_all add: t_def set_buf_def)
  show ci: "cinv t"
  proof (rule cinv_replace [OF assms(1) bt(1,2)])
    show "binv (bufs t)" unfolding bt using assms(1) by (intro binv_replace) (simp_all add: cinv_def)
    have "buf_ok s b" using assms(1,2) by (simp add: cinv_def caches_def)
    then show "buf_ok t b" using assms(4,5) by (simp add: buf_ok_def bt)
  qed (simp add: bt)
  show "content t = (content s)(n := d)"
    by (rule content_update [OF assms(1) ci assms(2,3) bt(1)]) (simp add: bt)
qed

lemma bwrite_ok:
  fixes s :: "'z bmach_scheme"
  assumes "calm p s" and "cinv s" and "held p (BufLock b) s" and "caches s b n" and "b_valid (bufs s b)"
  shows "\<exists>t. bwrite b s = Ok () t \<and> same_mach s t \<and> cinv t \<and> content t = content s \<and> bufs t = bufs s \<and>
    slocks t = slocks s \<and> vd t = vd s \<and> bmach.more t = bmach.more s \<and>
    disk t = (disk s)(unat n := b_data (bufs s b)) \<and> dhist t = (unat n, b_data (bufs s b)) # dhist s"
proof -
  obtain u where u: "holdingsleep (BufLock b) s = Ok True u" "same_mach s u" "slocks u = slocks s" "bufs u = bufs s"
      "brest u = brest s"
    using holdingsleep_bufs [OF assms(1), of "BufLock b"] assms(3) by auto
  have ok: "buf_ok s b" and b: "b < NBUF" "b_blockno (bufs s b) = n"
    using assms(2,4) by (simp_all add: cinv_def caches_def)
  then have n: "disk_block (bufs s b) = unat n" using disk_block_small [of "bufs s b"] by (simp add: buf_ok_def)
  let ?t = "disk_rw b True u"
  have eq: "bwrite b s = Ok () ?t" by (simp add: bwrite_def u(1))
  have f: "bufs ?t = bufs s" "slocks ?t = slocks s" "vd ?t = vd s" "bmach.more ?t = bmach.more s"
      "disk ?t = (disk s)(unat n := b_data (bufs s b))" "dhist ?t = (unat n, b_data (bufs s b)) # dhist s"
    using u(3-5) n by (simp_all add: disk_rw_def Let_def brest_def)
  have sm: "same_mach s ?t"
    using u(2) by (simp add: disk_rw_def Let_def same_mach_def)
  have other: "unat (b_blockno (bufs s c)) \<noteq> unat n" if "c < NBUF" "c \<noteq> b" "b_dev (bufs s c) = rdev" for c
    using caches_unique [OF assms(2,4), of c] that by (auto simp: caches_def word_eq_iff_unat)
  have "buf_ok ?t c" if c: "c < NBUF" for c
  proof -
    have okc: "buf_ok s c" using assms(2) c by (simp add: cinv_def)
    have "clean ?t c" if "clean s c \<or> c = b"
      using that other [OF c] b by (cases "c = b") (auto simp: clean_def f)
    with okc show ?thesis by (auto simp: buf_ok_def f)
  qed
  then have ci: "cinv ?t" using assms(2) ok by (simp add: cinv_def f buf_ok_def)
  have "content ?t = (content s)(n := b_data (bufs s b))"
    by (rule content_update [OF assms(2) ci assms(4,5)]) (simp_all add: f)
  then have "content ?t = content s" using content_cached [OF assms(2,4,5)] by auto
  with eq f sm ci show ?thesis by blast
qed

section \<open>Boot\<close>

lemma lock_free_initlock: "lock_free lk s \<Longrightarrow> lock_free lk (initlock l n s)"
  by (simp add: lock_free_def initlock_def)

lemma slocks_initlock [simp]: "slocks (initlock lk n s) = slocks s"
  by (simp add: initlock_def)

lemma binit_loop_frame:
  "((\<forall>lk. lock_free lk s) \<longrightarrow> (\<forall>lk. lock_free lk (binit_loop b n s))) \<and>
   tp (binit_loop b n s) = tp s \<and> cpus (binit_loop b n s) = cpus s \<and> sie (binit_loop b n s) = sie s \<and>
   procs (binit_loop b n s) = procs s \<and> disk (binit_loop b n s) = disk s \<and>
   ((\<forall>lk. \<not> sl_locked (slocks s lk)) \<longrightarrow> (\<forall>lk. \<not> sl_locked (slocks (binit_loop b n s) lk))) \<and>
   payload (bufs (binit_loop b n s) y) = payload (bufs s y)"
proof (induction n arbitrary: b s)
  case (Suc n)
  let ?s = "push_front b (initsleeplock (BufLock b) ''buffer'' s)"
  have "(\<forall>lk. lock_free lk s) \<longrightarrow> (\<forall>lk. lock_free lk ?s)" "tp ?s = tp s" "cpus ?s = cpus s" "sie ?s = sie s"
      "procs ?s = procs s" "disk ?s = disk s" "(\<forall>lk. \<not> sl_locked (slocks s lk)) \<longrightarrow> (\<forall>lk. \<not> sl_locked (slocks ?s lk))"
    by (simp_all add: push_front_def set_buf_def initsleeplock_def initlock_def lock_free_def Let_def)
  moreover have "payload (bufs ?s y) = payload (bufs s y)"
    unfolding push_front_def Let_def payload_set_links by simp
  ultimately show ?case using Suc.IH [of ?s "Suc b"] by simp
qed simp

lemma cinv_binit:
  assumes "\<And>b. b_dev (bufs s b) = 0 \<and> b_refcnt (bufs s b) = 0 \<and> b_blockno (bufs s b) = 0 \<and> length (b_data (bufs s b)) = BSIZE"
    and "\<And>lk. \<not> sl_locked (slocks s lk)" and "\<And>n. length (disk s n) = BSIZE"
  shows "cinv (binit s)"
proof -
  let ?s = "set_buf bhead (\<lambda>x. x\<lparr>b_prev := bhead, b_next := bhead\<rparr>) (initlock BcacheLock ''bcache'' s)"
  have eq: "binit s = binit_loop 0 NBUF ?s" by (simp add: binit_def Let_def)
  have d: "disk ?s = disk s" "slocks ?s = slocks s" by (simp_all add: set_buf_def initlock_def)
  have f: "b_dev (bufs (binit s) y) = 0 \<and> b_refcnt (bufs (binit s) y) = 0 \<and> b_blockno (bufs (binit s) y) = 0 \<and> length (b_data (bufs (binit s) y)) = BSIZE" for y
  proof -
    have "payload (bufs (binit s) y) = payload (bufs ?s y)" using binit_loop_frame [of ?s 0 NBUF y] by (simp add: eq)
    then show ?thesis using assms(1) [of y] by (auto simp: payload_iff)
  qed
  have l: "\<not> sl_locked (slocks (binit s) lk)" for lk
    using binit_loop_frame [of ?s 0 NBUF] assms(2) by (simp add: eq d)
  have "disk (binit s) = disk s" using binit_loop_frame [of ?s 0 NBUF] by (simp add: eq d)
  moreover have "buf_ok (binit s) b" for b
    using f l rdev_nz by (simp add: buf_ok_def clean_def)
  ultimately show ?thesis using assms binv_binit [of s] by (simp add: cinv_def)
qed

text \<open>Hart 0 runs process 0, just after binit.\<close>

definition busy0 :: bmach where
  "busy0 = binit (bmach0\<lparr>cpus := (\<lambda>_. \<lparr>cpu_proc = Some 0, cpu_context = kcontext0, noff = 0, intena = False\<rparr>)\<rparr>)"

lemma bmach0_mach [simp]:
  "tp bmach0 = 0" "sie bmach0 = False" "lock_free lk bmach0" "slocks bmach0 sl = \<lparr>sl_locked = False, sl_name = [], sl_pid = 0\<rparr>"
  "procs bmach0 = (\<lambda>_. proc0)"
  by (simp_all add: bmach0_def bmach.defs smach.defs smach0_def mach.defs mach0_def lock_free_def)

lemma calm_busy0: "calm 0 busy0"
proof -
  let ?s = "set_buf bhead (\<lambda>x. x\<lparr>b_prev := bhead, b_next := bhead\<rparr>) (initlock BcacheLock ''bcache''
      (bmach0\<lparr>cpus := (\<lambda>_. \<lparr>cpu_proc = Some 0, cpu_context = kcontext0, noff = 0, intena = False\<rparr>)\<rparr>))"
  have eq: "busy0 = binit_loop 0 NBUF ?s" by (simp add: busy0_def binit_def Let_def)
  have "\<forall>lk. lock_free lk ?s" "tp ?s = 0" "sie ?s = False"
    "cpus ?s = (\<lambda>_. \<lparr>cpu_proc = Some 0, cpu_context = kcontext0, noff = 0, intena = False\<rparr>)"
    using bmach0_mach(3) by (simp_all add: set_buf_def initlock_def lock_free_def)
  then show ?thesis
    using binit_loop_frame [of ?s 0 NBUF] by (simp add: calm_def eq intr_ok_def cpu_defs)
qed

lemma cinv_busy0: "cinv busy0"
  unfolding busy0_def by (rule cinv_binit) (simp_all add: buf0_def)

section \<open>Properties\<close>

text \<open>C14: What a process that reads, changes, writes and releases a block sees. With the cache consistent
  and a buffer available, bread returns a locked buffer with the contents of the block, whether it was
  cached or had to be read; after the data has been replaced, bwrite puts it on disk; and after brelse the
  block's contents are the new data, in the cache's view and on disk, no other block's contents have
  changed in either, every reference counter is what it was, the lock is free and the cache is consistent
  again.\<close>

theorem block_write_through:
  fixes s :: "'z bmach_scheme"
  assumes "calm p s" and "cinv s" and "can_get n s" and "length d = BSIZE"
  shows "\<exists>b t1 t2 t. bread rdev n s = Ok b t1 \<and> b_data (bufs t1 b) = content s n \<and>
    bwrite b (set_buf b (\<lambda>x. x\<lparr>b_data := d\<rparr>) t1) = Ok () t2 \<and> brelse b t2 = Ok () t \<and>
    calm p t \<and> cinv t \<and> content t = (content s)(n := d) \<and> disk t = (disk s)(unat n := d) \<and>
    (\<forall>c. b_refcnt (bufs t c) = b_refcnt (bufs s c)) \<and> \<not> sl_locked (slocks t (BufLock b))"
proof -
  obtain b t1 where r: "bread rdev n s = Ok b t1" "got p n s b t1" using bread_ok [OF assms(1-3)] by blast
  note g = gotD [OF r(2)]
  have c1: "calm p t1" using calm_same [OF assms(1) g(1)] .
  let ?w = "set_buf b (\<lambda>x. x\<lparr>b_data := d\<rparr>) t1"
  have w: "cinv ?w" "content ?w = (content t1)(n := d)"
    using set_buf_data_ok [OF g(2-4) got_refcnt [OF r(2)] assms(4)] by blast+
  have cw: "calm p ?w" using calm_same [OF c1, of ?w] by auto
  have hw: "held p (BufLock b) ?w" using got_held [OF r(2)] by (simp add: held_def set_buf_def)
  have cc: "caches ?w b n" "b_valid (bufs ?w b)" using g by (simp_all add: caches_def)
  obtain t2 where t2: "bwrite b ?w = Ok () t2" "same_mach ?w t2" "cinv t2" "content t2 = content ?w" "bufs t2 = bufs ?w"
      "slocks t2 = slocks ?w" "disk t2 = (disk ?w)(unat n := b_data (bufs ?w b))"
    using bwrite_ok [OF cw w(1) hw cc] by blast
  have c2: "calm p t2" using calm_same [OF cw t2(2)] .
  have h2: "held p (BufLock b) t2" using hw by (simp add: held_def t2(6) same_mach_proc [OF t2(2)])
  have "clean t2 b" using g by (simp add: clean_def t2(5,7) caches_def)
  then obtain t where t: "brelse b t2 = Ok () t" "recount t2 b (b_refcnt (bufs t2 b) - 1) t" "slocks t = freed (BufLock b) t2"
    using brelse_ok [OF c2 t2(3) g(13) h2] by blast
  note rc = t(2) [unfolded recount_def]
  have "b_refcnt (bufs t c) = b_refcnt (bufs s c)" for c
    using rc g by (auto simp: payload_iff t2(5))
  moreover have "disk t = (disk s)(unat n := d)"
    using rc g by (simp add: brest_def t2(7) set_buf_def)
  moreover have "content t = (content s)(n := d)" using rc t2(4) w(2) g by simp
  moreover have "calm p t" using calm_same [OF c2] rc by blast
  ultimately show ?thesis using r(1) g t2(1) t(1) rc t(3) by (auto simp: freed_def)
qed

theorem block_write_through_witness:
  "\<exists>b t1 t2 t. bread rdev 7 busy0 = Ok b t1 \<and> b_data (bufs t1 b) = content busy0 7 \<and>
    bwrite b (set_buf b (\<lambda>x. x\<lparr>b_data := replicate BSIZE 5\<rparr>) t1) = Ok () t2 \<and> brelse b t2 = Ok () t \<and>
    disk t = (disk busy0)(7 := replicate BSIZE 5)"
proof -
  have dev: "b_dev (bufs busy0 b) = 0 \<and> b_refcnt (bufs busy0 b) = 0" for b
  proof -
    let ?s = "set_buf bhead (\<lambda>x. x\<lparr>b_prev := bhead, b_next := bhead\<rparr>) (initlock BcacheLock ''bcache''
      (bmach0\<lparr>cpus := (\<lambda>_. \<lparr>cpu_proc = Some 0, cpu_context = kcontext0, noff = 0, intena = False\<rparr>)\<rparr>))"
    have "payload (bufs busy0 b) = payload (bufs ?s b)"
      using binit_loop_frame [of ?s 0 NBUF b] by (simp add: busy0_def binit_def Let_def)
    then show ?thesis by (auto simp: payload_iff buf0_def split: if_splits)
  qed
  have "\<not> caches busy0 b 7" for b using dev rdev_nz by (simp add: caches_def)
  moreover have "\<exists>b<NBUF. b_refcnt (bufs busy0 b) = 0"
    using dev by (intro exI [of _ 0]) (simp add: NBUF_def MAXOPBLOCKS_def)
  ultimately have "can_get 7 busy0" by (simp add: can_get_def)
  from block_write_through [OF calm_busy0 cinv_busy0 this, of "replicate BSIZE 5"] show ?thesis by auto
qed

end
