(* ===== verification/Bio_Abs.thy ===== *)
theory Bio_Abs
  imports Bio_Seq
begin

text \<open>
  The buffer cache by block number. For a client of the cache a block has contents, a number of
  references, and may be locked; a process owns the buffers it has read and not yet released.
  The calls of bio.c are described on these alone, so that the layers above need not know which buffer
  caches which block.
\<close>

definition refs :: "'z bmach_scheme \<Rightarrow> u32 \<Rightarrow> nat" where
  "refs s n =
     (case find (\<lambda>b. b_dev (bufs s b) = rdev \<and> b_blockno (bufs s b) = n) [0..<NBUF] of
        Some b \<Rightarrow> unat (b_refcnt (bufs s b))
      | None \<Rightarrow> 0)"

definition blocked :: "'z bmach_scheme \<Rightarrow> u32 \<Rightarrow> bool" where
  "blocked s n \<longleftrightarrow> (\<exists>b. caches s b n \<and> sl_locked (slocks s (BufLock b)))"

definition owned :: "nat \<Rightarrow> 'z bmach_scheme \<Rightarrow> nat \<Rightarrow> u32 \<Rightarrow> bool" where
  "owned p s b n \<longleftrightarrow> caches s b n \<and> b_valid (bufs s b) \<and> held p (BufLock b) s"

definition bstate :: "'z bmach_scheme \<Rightarrow> 'z bmach_scheme \<Rightarrow> bool" where
  "bstate s t \<longleftrightarrow> same_mach s t \<and> cinv t \<and> vd t = vd s \<and> bmach.more t = bmach.more s"

lemma bstate_trans: "bstate s t \<Longrightarrow> bstate t u \<Longrightarrow> bstate s u"
  by (auto simp: bstate_def intro: same_mach_trans)

lemma bstate_calm: "bstate s t \<Longrightarrow> calm p s \<Longrightarrow> calm p t"
  using calm_same by (auto simp: bstate_def)

lemma bstate_cinv: "bstate s t \<Longrightarrow> cinv t"
  by (simp add: bstate_def)

lemma refs_cached:
  assumes "cinv s" and "caches s b n"
  shows "refs s n = unat (b_refcnt (bufs s b))"
proof -
  let ?P = "\<lambda>b. b_dev (bufs s b) = rdev \<and> b_blockno (bufs s b) = n"
  obtain c where c: "find ?P [0..<NBUF] = Some c"
    using assms(2) by (cases "find ?P [0..<NBUF]") (auto simp: find_None_iff caches_def)
  then have "caches s c n" using find_SomeD [OF c] by (auto simp: caches_def)
  with caches_unique [OF assms] c show ?thesis by (simp add: refs_def)
qed

lemma refs_uncached: "(\<And>b. \<not> caches s b n) \<Longrightarrow> refs s n = 0"
proof -
  assume "\<And>b. \<not> caches s b n"
  then have "find (\<lambda>b. b_dev (bufs s b) = rdev \<and> b_blockno (bufs s b) = n) [0..<NBUF] = None"
    by (auto simp: find_None_iff caches_def)
  then show ?thesis by (simp add: refs_def)
qed

lemma blocked_owned: "owned p s b n \<Longrightarrow> blocked s n"
  by (auto simp: owned_def blocked_def held_def)

lemma blocked_refs:
  assumes "cinv s" and "blocked s n"
  shows "refs s n \<noteq> 0"
proof -
  obtain b where b: "caches s b n" "sl_locked (slocks s (BufLock b))" using assms(2) by (auto simp: blocked_def)
  then have "b_refcnt (bufs s b) \<noteq> 0" using assms(1) by (auto simp: cinv_def buf_ok_def caches_def)
  with refs_cached [OF assms(1) b(1)] show ?thesis by (simp add: unat_eq_zero)
qed

lemma owned_content: "cinv s \<Longrightarrow> owned p s b n \<Longrightarrow> b_data (bufs s b) = content s n"
  using content_cached [of s b n] by (simp add: owned_def)

lemma owned_bound: "cinv s \<Longrightarrow> owned p s b n \<Longrightarrow> b < NBUF \<and> unat n < 2 ^ 31 \<and> b_blockno (bufs s b) = n"
  by (auto simp: owned_def caches_def cinv_def buf_ok_def)

lemma owned_unique: "cinv s \<Longrightarrow> owned p s b n \<Longrightarrow> owned p s c n \<Longrightarrow> b = c"
  by (auto simp: owned_def dest: caches_unique)

lemma free_buffer:
  assumes "cinv s" and "card {n. refs s n \<noteq> 0} < NBUF"
  shows "\<exists>b<NBUF. b_refcnt (bufs s b) = 0"
proof (rule ccontr)
  assume "\<not> ?thesis"
  then have nz: "b_refcnt (bufs s b) \<noteq> 0" if "b < NBUF" for b using that by blast
  then have c: "caches s b (b_blockno (bufs s b))" if "b < NBUF" for b
    using assms(1) that by (auto simp: cinv_def buf_ok_def caches_def)
  let ?f = "\<lambda>b. b_blockno (bufs s b)"
  have inj: "inj_on ?f {..<NBUF}"
    using caches_unique [OF assms(1) c] c by (auto simp: inj_on_def)
  have "?f ` {..<NBUF} \<subseteq> {n. refs s n \<noteq> 0}"
    using refs_cached [OF assms(1) c] nz by (auto simp: unat_gt_0)
  moreover have "{n. refs s n \<noteq> 0} \<subseteq> ?f ` {..<NBUF}"
  proof
    fix n assume "n \<in> {n. refs s n \<noteq> 0}"
    then obtain b where "caches s b n" using refs_uncached [of s n] by auto
    then show "n \<in> ?f ` {..<NBUF}" by (auto simp: caches_def)
  qed
  ultimately have "card {n. refs s n \<noteq> 0} = NBUF"
    using card_image [OF inj] by (simp add: subset_antisym)
  with assms(2) show False by simp
qed

section \<open>The calls\<close>

lemma unat_m1: "unat (-1 :: u32) = 2 ^ 32 - 1"
  by (simp add: unsigned_minus_1_eq_mask mask_eq_exp_minus_1)

definition readable :: "'z bmach_scheme \<Rightarrow> u32 \<Rightarrow> bool" where
  "readable s n \<longleftrightarrow> unat n < 2 ^ 31 \<and> \<not> blocked s n \<and> refs s n < 2 ^ 32 - 1 \<and>
     (refs s n \<noteq> 0 \<or> card {n. refs s n \<noteq> 0} < NBUF)"

lemma readable_can_get:
  assumes "cinv s" and "readable s n"
  shows "can_get n s"
proof (cases "\<exists>b. caches s b n")
  case True
  then obtain b where b: "caches s b n" by blast
  then have "\<not> sl_locked (slocks s (BufLock b))" using assms(2) by (auto simp: readable_def blocked_def)
  moreover have "unat (b_refcnt (bufs s b)) < 2 ^ 32 - 1"
    using assms(2) refs_cached [OF assms(1) b] by (simp add: readable_def)
  then have "b_refcnt (bufs s b) \<noteq> -1" using unat_m1 by auto
  ultimately show ?thesis using b assms(2) by (auto simp: can_get_def readable_def)
next
  case False
  then have "refs s n = 0" by (intro refs_uncached) blast
  with assms False free_buffer show ?thesis by (auto simp: can_get_def readable_def)
qed

lemma bread_abs:
  fixes s :: "'z bmach_scheme"
  assumes "calm p s" and "cinv s" and "readable s n"
  shows "\<exists>b t. bread rdev n s = Ok b t \<and> bstate s t \<and> owned p t b n \<and> refs t = (refs s)(n := refs s n + 1) \<and>
    blocked t = (blocked s)(n := True) \<and> content t = content s \<and> disk t = disk s \<and> dhist t = dhist s \<and>
    (\<forall>c m. owned p s c m \<longrightarrow> owned p t c m \<and> m \<noteq> n)"
proof -
  obtain b t where t: "bread rdev n s = Ok b t" "got p n s b t"
    using bread_ok [OF assms(1,2) readable_can_get [OF assms(2,3)]] by blast
  note g = gotD [OF t(2)]
  have oth: "caches t c m = caches s c m" if "c \<noteq> b" for c m using g(8) [OF that] by (simp add: caches_def)
  have sl: "slocks t (BufLock c) = slocks s (BufLock c)" if "c \<noteq> b" for c using that by (simp add: g(6) taken_def)
  have bn: "\<not> caches t b m" if "m \<noteq> n" for m using g(3) that by (auto simp: caches_def)
  have nz: "unat (b_refcnt (bufs s b) + 1) = unat (b_refcnt (bufs s b)) + 1"
    using got_refcnt [OF t(2)] g(9) by (simp add: unatSuc add.commute)
  have rn: "refs s n = unat (b_refcnt (bufs s b))"
    using g(12) refs_cached [OF assms(2)] refs_uncached [of s n] by auto
  have "refs t m = ((refs s)(n := refs s n + 1)) m" for m
  proof (cases "m = n")
    case True
    then show ?thesis using refs_cached [OF g(2,3)] by (simp add: g(9) nz rn)
  next
    case m: False
    show ?thesis
    proof (cases "\<exists>c. c \<noteq> b \<and> caches s c m")
      case True
      then obtain c where c: "c \<noteq> b" "caches s c m" by blast
      with oth [OF c(1)] m show ?thesis
        using refs_cached [OF assms(2) c(2)] refs_cached [OF g(2), of c m] by (simp add: g(8))
    next
      case False
      have "\<not> caches t c m" for c using False oth [of c m] bn [OF m] by (cases "c = b") auto
      then have "refs t m = 0" by (rule refs_uncached)
      moreover have "refs s m = 0"
      proof (cases "caches s b m")
        case True
        with m g(12) have "b_refcnt (bufs s b) = 0" by (auto simp: caches_def)
        with refs_cached [OF assms(2) True] show ?thesis by simp
      next
        case False
        with \<open>\<not> (\<exists>c. c \<noteq> b \<and> caches s c m)\<close> show ?thesis by (intro refs_uncached) metis
      qed
      ultimately show ?thesis using m by simp
    qed
  qed
  then have refs: "refs t = (refs s)(n := refs s n + 1)" by (rule ext)
  have "blocked t m = ((blocked s)(n := True)) m" for m
  proof (cases "m = n")
    case True
    then show ?thesis using g(3) by (auto simp: blocked_def g(6) taken_def)
  next
    case m: False
    have "blocked t m = (\<exists>c. c \<noteq> b \<and> caches t c m \<and> sl_locked (slocks t (BufLock c)))"
      using bn [OF m] by (auto simp: blocked_def)
    also have "\<dots> = (\<exists>c. c \<noteq> b \<and> caches s c m \<and> sl_locked (slocks s (BufLock c)))"
      using oth sl by auto
    also have "\<dots> = blocked s m" using g(11) by (auto simp: blocked_def)
    finally show ?thesis using m by simp
  qed
  then have blk: "blocked t = (blocked s)(n := True)" by (rule ext)
  have own: "owned p t b n" using g(3,4) got_held [OF t(2)] by (simp add: owned_def)
  have keep: "owned p t c m \<and> m \<noteq> n" if "owned p s c m" for c m
  proof -
    have cb: "c \<noteq> b" using that g(11) by (auto simp: owned_def held_def)
    moreover have "\<not> blocked s n" using assms(3) by (simp add: readable_def)
    ultimately show ?thesis
      using that oth [OF cb] sl [OF cb] blocked_owned [OF that] same_mach_proc [OF g(1)]
      by (auto simp: owned_def held_def g(8))
  qed
  have "bstate s t" using g(1,2,7) by (simp add: bstate_def brest_def)
  with t(1) own refs blk g(10,14,15) keep show ?thesis by blast
qed

text \<open>The abstract state after the counter of an owned buffer and its lock have changed.\<close>

lemma recount_abs:
  fixes s :: "'z bmach_scheme"
  assumes "cinv s" and "owned p s b n" and "recount s b r t"
    and "\<And>c. c \<noteq> b \<Longrightarrow> slocks t (BufLock c) = slocks s (BufLock c)"
  shows "bstate s t" "refs t = (refs s)(n := unat r)" "content t = content s" "disk t = disk s" "dhist t = dhist s"
    "blocked t = (blocked s)(n := sl_locked (slocks t (BufLock b)))"
    "owned p s c m \<Longrightarrow> m \<noteq> n \<Longrightarrow> owned p t c m" "caches t b n" "b_valid (bufs t b)"
proof -
  have b: "caches s b n" "b_valid (bufs s b)" using assms(2) by (simp_all add: owned_def)
  note rc = assms(3) [unfolded recount_def]
  have ct: "cinv t" and sm: "same_mach s t" using rc by blast+
  have ca: "caches t c m = caches s c m" for c m
    using rc by (auto simp: caches_def payload_iff split: if_splits)
  have f: "b_valid (bufs t c) = b_valid (bufs s c)" "b_refcnt (bufs t c) = (if c = b then r else b_refcnt (bufs s c))" for c
    using rc by (auto simp: payload_iff split: if_splits)
  show "bstate s t" "content t = content s" "disk t = disk s" "dhist t = dhist s"
    using rc by (simp_all add: bstate_def brest_def)
  show "caches t b n" "b_valid (bufs t b)" using b by (simp_all add: ca f)
  have uniq: "c = b \<longleftrightarrow> m = n" if "caches s c m" for c m
    using that b(1) caches_unique [OF assms(1) b(1), of c] by (auto simp: caches_def)
  show "refs t = (refs s)(n := unat r)"
  proof
    fix m show "refs t m = ((refs s)(n := unat r)) m"
    proof (cases "\<exists>c. caches s c m")
      case True
      then obtain c where c: "caches s c m" by blast
      then show ?thesis
        using refs_cached [OF assms(1) c] refs_cached [OF ct, of c m] uniq [OF c] by (simp add: ca f)
    next
      case False
      then have "m \<noteq> n" using b(1) by auto
      with False show ?thesis using refs_uncached [of s m] refs_uncached [of t m] by (simp add: ca)
    qed
  qed
  show "blocked t = (blocked s)(n := sl_locked (slocks t (BufLock b)))"
  proof
    fix m show "blocked t m = ((blocked s)(n := sl_locked (slocks t (BufLock b)))) m"
    proof (cases "m = n")
      case True
      have "blocked t n \<longleftrightarrow> sl_locked (slocks t (BufLock b))"
        unfolding blocked_def ca using b(1) uniq by blast
      with True show ?thesis by simp
    next
      case False
      then have "blocked t m = blocked s m"
        unfolding blocked_def ca using uniq assms(4) by (intro ex_cong1) auto
      with False show ?thesis by simp
    qed
  qed
  show "owned p t c m" if o: "owned p s c m" and "m \<noteq> n"
  proof -
    have cm: "caches s c m" using o by (simp add: owned_def)
    then have "c \<noteq> b" using uniq \<open>m \<noteq> n\<close> by blast
    then show ?thesis
      using o assms(4) [of c] same_mach_proc(1) [OF sm] by (simp add: owned_def held_def ca f)
  qed
qed

lemma brelse_abs:
  fixes s :: "'z bmach_scheme"
  assumes "calm p s" and "cinv s" and "owned p s b n" and "refs s n = 1 \<Longrightarrow> disk s (unat n) = content s n"
  shows "\<exists>t. brelse b s = Ok () t \<and> bstate s t \<and> refs t = (refs s)(n := refs s n - 1) \<and>
    blocked t = (blocked s)(n := False) \<and> content t = content s \<and> disk t = disk s \<and> dhist t = dhist s \<and>
    (\<forall>c m. owned p s c m \<and> m \<noteq> n \<longrightarrow> owned p t c m)"
proof -
  have b: "b < NBUF" "held p (BufLock b) s" "caches s b n" "b_valid (bufs s b)"
    using assms(3) by (auto simp: owned_def caches_def)
  have r: "refs s n = unat (b_refcnt (bufs s b))" by (rule refs_cached [OF assms(2) b(3)])
  have nz: "refs s n \<noteq> 0" using blocked_refs [OF assms(2) blocked_owned [OF assms(3)]] .
  then have rr: "unat (b_refcnt (bufs s b) - 1) = refs s n - 1"
    using r by (metis unat_eq_zero unat_minus_one)
  have cl: "clean s b" if "b_refcnt (bufs s b) = 1"
    using assms(4) that r owned_content [OF assms(2,3)] b(3) by (simp add: clean_def caches_def)
  obtain t where t: "brelse b s = Ok () t" "recount s b (b_refcnt (bufs s b) - 1) t" "slocks t = freed (BufLock b) s"
    using brelse_ok [OF assms(1,2) b(1,2) cl] by blast
  have sl: "slocks t (BufLock c) = slocks s (BufLock c)" if "c \<noteq> b" for c using that by (simp add: t(3) freed_def)
  show ?thesis
    using t(1) recount_abs [OF assms(2,3) t(2) sl] by (auto simp: rr t(3) freed_def)
qed

lemma bpin_abs:
  fixes s :: "'z bmach_scheme"
  assumes "calm p s" and "cinv s" and "owned p s b n" and "refs s n < 2 ^ 32 - 1"
  shows "\<exists>t. bpin b s = Ok () t \<and> bstate s t \<and> refs t = (refs s)(n := refs s n + 1) \<and> slocks t = slocks s \<and>
    blocked t = blocked s \<and> content t = content s \<and> disk t = disk s \<and> dhist t = dhist s \<and>
    (\<forall>c m. owned p s c m \<longrightarrow> owned p t c m)"
proof -
  have b: "caches s b n" "b_dev (bufs s b) = rdev" "held p (BufLock b) s" using assms(3) by (auto simp: owned_def caches_def)
  have r: "refs s n = unat (b_refcnt (bufs s b))" by (rule refs_cached [OF assms(2) b(1)])
  then have m1: "b_refcnt (bufs s b) \<noteq> -1" using assms(4) using unat_m1 by auto
  have rr: "unat (b_refcnt (bufs s b) + 1) = refs s n + 1"
    using assms(4) unat_add_small [of "b_refcnt (bufs s b)" 1] by (simp add: r)
  obtain t where t: "bpin b s = Ok () t" "recount s b (b_refcnt (bufs s b) + 1) t" "slocks t = slocks s"
    using bpin_ok [OF assms(1,2) m1 b(2)] by blast
  note a = recount_abs [OF assms(2,3) t(2)]
  have bt: "blocked t = blocked s"
    using a(6) blocked_owned [OF assms(3)] b(3) by (auto simp: t(3) held_def fun_eq_iff)
  have "owned p t b n" using a(8,9) b(3) t(2) same_mach_proc [of s t] by (simp add: owned_def held_def t(3) recount_def)
  then have "owned p t c m" if "owned p s c m" for c m
    using that a(7) [OF _ that] owned_unique [OF assms(2,3)] by (cases "m = n") (auto simp: t(3))
  with a bt t rr show ?thesis by auto
qed

lemma bunpin_abs:
  fixes s :: "'z bmach_scheme"
  assumes "calm p s" and "cinv s" and "owned p s b n" and "1 < refs s n"
  shows "\<exists>t. bunpin b s = Ok () t \<and> bstate s t \<and> refs t = (refs s)(n := refs s n - 1) \<and>
    blocked t = blocked s \<and> content t = content s \<and> disk t = disk s \<and> dhist t = dhist s \<and>
    (\<forall>c m. owned p s c m \<longrightarrow> owned p t c m)"
proof -
  have b: "caches s b n" "b_dev (bufs s b) = rdev" "held p (BufLock b) s" using assms(3) by (auto simp: owned_def caches_def)
  have r: "refs s n = unat (b_refcnt (bufs s b))" by (rule refs_cached [OF assms(2) b(1)])
  then have m1: "b_refcnt (bufs s b) \<noteq> 1" using assms(4) by auto
  have rr: "unat (b_refcnt (bufs s b) - 1) = refs s n - 1"
    using assms(4) r by (metis not_less_zero unat_eq_zero unat_minus_one)
  obtain t where t: "bunpin b s = Ok () t" "recount s b (b_refcnt (bufs s b) - 1) t" "slocks t = slocks s"
    using bunpin_ok [OF assms(1,2) m1 b(2)] by blast
  note a = recount_abs [OF assms(2,3) t(2)]
  have bt: "blocked t = blocked s"
    using a(6) blocked_owned [OF assms(3)] b(3) by (auto simp: t(3) held_def fun_eq_iff)
  have "owned p t b n" using a(8,9) b(3) t(2) same_mach_proc [of s t] by (simp add: owned_def held_def t(3) recount_def)
  then have "owned p t c m" if "owned p s c m" for c m
    using that a(7) [OF _ that] owned_unique [OF assms(2,3)] by (cases "m = n") (auto simp: t(3))
  with a bt t rr show ?thesis by auto
qed

lemma bwrite_abs:
  fixes s :: "'z bmach_scheme"
  assumes "calm p s" and "cinv s" and "owned p s b n"
  shows "\<exists>t. bwrite b s = Ok () t \<and> bstate s t \<and> refs t = refs s \<and> blocked t = blocked s \<and> content t = content s \<and>
    disk t = (disk s)(unat n := content s n) \<and> dhist t = (unat n, content s n) # dhist s \<and>
    (\<forall>c m. owned p s c m \<longrightarrow> owned p t c m)"
proof -
  have b: "caches s b n" "b_valid (bufs s b)" "held p (BufLock b) s" using assms(3) by (auto simp: owned_def)
  obtain t where t: "bwrite b s = Ok () t" "same_mach s t" "cinv t" "content t = content s" "bufs t = bufs s"
      "slocks t = slocks s" "vd t = vd s" "bmach.more t = bmach.more s" "disk t = (disk s)(unat n := b_data (bufs s b))"
      "dhist t = (unat n, b_data (bufs s b)) # dhist s"
    using bwrite_ok [OF assms(1,2) b(3,1,2)] by blast
  have e: "refs t = refs s" by (rule ext) (simp only: refs_def t)
  have f: "blocked t = blocked s" by (rule ext) (simp only: blocked_def caches_def t)
  have o: "owned p t c m = owned p s c m" for c m
    by (simp only: owned_def held_def caches_def t same_mach_proc(1) [OF t(2)])
  show ?thesis
    using t e f o owned_content [OF assms(2,3)] by (simp add: bstate_def)
qed

lemma set_data_abs:
  fixes s :: "'z bmach_scheme"
  assumes "cinv s" and "owned p s b n" and "length d = BSIZE"
  defines "t \<equiv> set_buf b (\<lambda>x. x\<lparr>b_data := d\<rparr>) s"
  shows "bstate s t" "refs t = refs s" "blocked t = blocked s" "content t = (content s)(n := d)" "disk t = disk s"
    "dhist t = dhist s" "owned p t c m = owned p s c m"
proof -
  have b: "caches s b n" "b_valid (bufs s b)" using assms(2) by (auto simp: owned_def)
  have "b_refcnt (bufs s b) \<noteq> 0"
    using blocked_refs [OF assms(1) blocked_owned [OF assms(2)]] refs_cached [OF assms(1) b(1)] by auto
  note d = set_buf_data_ok [OF assms(1) b this assms(3), folded t_def]
  have f: "b_dev (bufs t c) = b_dev (bufs s c)" "b_blockno (bufs t c) = b_blockno (bufs s c)"
    "b_refcnt (bufs t c) = b_refcnt (bufs s c)" "b_valid (bufs t c) = b_valid (bufs s c)" for c
    by (simp_all add: t_def)
  have e: "slocks t = slocks s" "procs t = procs s" "vd t = vd s" "bmach.more t = bmach.more s" "same_mach s t"
    by (simp_all add: t_def set_buf_def same_machI)
  show "disk t = disk s" "dhist t = dhist s" by (simp_all add: t_def set_buf_def)
  show "content t = (content s)(n := d)" by (rule d(2))
  have ca: "caches t c m = caches s c m" for c m unfolding caches_def f ..
  show "bstate s t" using d(1) e by (simp add: bstate_def)
  show "refs t = refs s" by (rule ext) (simp only: refs_def f)
  show "blocked t = blocked s" by (rule ext) (simp only: blocked_def ca e)
  show "owned p t c m = owned p s c m" unfolding owned_def ca held_def e f ..
qed

text \<open>The counter of the home block after a round of install_trans, with its wrap-around.\<close>

definition unpinned :: "nat \<Rightarrow> nat" where
  "unpinned r = (if r = 1 then 2 ^ 32 - 1 else r - 2)"

lemma unpinned_word:
  assumes "w \<noteq> (0 :: u32)"
  shows "unat (w - 2) = unpinned (unat w)"
proof (cases "w = 1")
  case True
  then show ?thesis using unat_m1 by (simp add: unpinned_def)
next
  case False
  have "unat (w - 1) = unat w - 1" using assms by (rule unat_minus_one)
  moreover have "w - 1 \<noteq> 0" using False by simp
  then have "unat (w - 1 - 1) = unat (w - 1) - 1" by (rule unat_minus_one)
  moreover have "unat w \<noteq> 1" using False by (simp add: word_eq_iff_unat)
  ultimately show ?thesis by (simp add: unpinned_def)
qed

lemma unpin_release_abs:
  fixes s :: "'z bmach_scheme"
  assumes "calm p s" and "cinv s" and "owned p s l m" and "owned p s d n" and "m \<noteq> n"
    and "refs s m = 1 \<Longrightarrow> disk s (unat m) = content s m" and "disk s (unat n) = content s n"
  shows "\<exists>u v t. bunpin d s = Ok () u \<and> brelse l u = Ok () v \<and> brelse d v = Ok () t \<and> bstate s t \<and>
    refs t = (refs s)(m := refs s m - 1, n := unpinned (refs s n)) \<and> blocked t = (blocked s)(m := False, n := False) \<and>
    content t = content s \<and> disk t = disk s \<and> dhist t = dhist s"
proof -
  have l: "l < NBUF" "held p (BufLock l) s" "caches s l m" using assms(3) by (auto simp: owned_def caches_def)
  have d: "d < NBUF" "held p (BufLock d) s" "caches s d n" using assms(4) by (auto simp: owned_def caches_def)
  have ld: "l \<noteq> d" using l(3) d(3) assms(5) by (auto simp: caches_def)
  have rl: "refs s m = unat (b_refcnt (bufs s l))" by (rule refs_cached [OF assms(2) l(3)])
  have rd: "refs s n = unat (b_refcnt (bufs s d))" by (rule refs_cached [OF assms(2) d(3)])
  have nz: "refs s m \<noteq> 0" "b_refcnt (bufs s d) \<noteq> 0"
    using blocked_refs [OF assms(2) blocked_owned [OF assms(3)]] blocked_refs [OF assms(2) blocked_owned [OF assms(4)]] rd
    by auto
  have cl: "clean s l" if "b_refcnt (bufs s l) = 1"
    using assms(6) that rl owned_content [OF assms(2,3)] l(3) by (simp add: clean_def caches_def)
  have cd: "clean s d"
    using assms(7) owned_content [OF assms(2,4)] d(3) by (simp add: clean_def caches_def)
  obtain u v t w where t: "bunpin d s = Ok () u" "brelse l u = Ok () v" "brelse d v = Ok () t"
      and w: "recount s l (b_refcnt (bufs s l) - 1) w" "slocks w = freed (BufLock l) s"
      and r: "recount w d (b_refcnt (bufs s d) - 2) t" "slocks t = freed (BufLock d) w"
    using unpin_release_ok [OF assms(1,2) l(1,2) d(1,2) ld cl cd] by blast
  have sw: "slocks w (BufLock c) = slocks s (BufLock c)" if "c \<noteq> l" for c using that by (simp add: w(2) freed_def)
  have st: "slocks t (BufLock c) = slocks w (BufLock c)" if "c \<noteq> d" for c using that by (simp add: r(2) freed_def)
  note a = recount_abs [OF assms(2,3) w(1) sw]
  have ow: "owned p w d n" by (rule a(7) [OF _ assms(4)]) (use assms(5) in auto)
  note b = recount_abs [OF bstate_cinv [OF a(1)] ow r(1) st]
  have "unat (b_refcnt (bufs s l) - 1) = refs s m - 1" using nz(1) rl by (metis unat_eq_zero unat_minus_one)
  moreover have "unat (b_refcnt (bufs s d) - 2) = unpinned (refs s n)" using unpinned_word [OF nz(2)] rd by simp
  ultimately show ?thesis
    using t bstate_trans [OF a(1) b(1)] a(2-6) b(2-6) assms(5) by (auto simp: w(2) r(2) freed_def)
qed

end
