(* ===== verification/Log_Seq.thy ===== *)
theory Log_Seq
  imports Bio_Abs Log
begin

text \<open>
  The log of log.c in an undisturbed run of one process: what write_log, write_head, install_trans and
  recovery do to the contents of the blocks, to the disk, to the reference counters and to the sequence
  of disk writes. From these follow the atomicity of a commit under a crash between any two disk writes,
  and what recovery does to the reference counters of the blocks it installs.
\<close>

definition goes :: "'z bmach_scheme \<Rightarrow> 'z bmach_scheme \<Rightarrow> (u32 \<Rightarrow> nat) \<Rightarrow> (u32 \<Rightarrow> byte list) \<Rightarrow>
    (nat \<Rightarrow> byte list) \<Rightarrow> (nat \<times> byte list) list \<Rightarrow> bool" where
  "goes s t r c d h \<longleftrightarrow> bstate s t \<and> blocked t = blocked s \<and> refs t = r \<and> content t = c \<and> disk t = d \<and> dhist t = h"

text \<open>The updates of a list, first entry first.\<close>

definition upds :: "('a \<times> 'b) list \<Rightarrow> ('a \<Rightarrow> 'b) \<Rightarrow> 'a \<Rightarrow> 'b" where
  "upds ws f = fold (\<lambda>(a, b) f. f(a := b)) ws f"

lemma upds_simps [simp]:
  "upds [] f = f" "upds ((a, b) # ws) f = upds ws (f(a := b))" "upds (ws @ vs) f = upds vs (upds ws f)"
  by (simp_all add: upds_def)

lemma upds_other: "a \<notin> fst ` set ws \<Longrightarrow> upds ws f a = f a"
  by (induction ws arbitrary: f) auto

lemma upds_distinct:
  "distinct (map fst ws) \<Longrightarrow> (a, b) \<in> set ws \<Longrightarrow> upds ws f a = b"
  by (induction ws arbitrary: f) (auto simp: upds_other image_iff)

lemma upds_const: "(\<And>b. (a, b) \<in> set ws \<Longrightarrow> b = f a) \<Longrightarrow> upds ws f a = f a"
proof (induction ws arbitrary: f)
  case (Cons w ws)
  have "upds ws (f(fst w := snd w)) a = (f(fst w := snd w)) a"
    using Cons.prems by (intro Cons.IH) (metis fun_upd_apply list.set_intros prod.collapse)
  then show ?case using Cons.prems [of "snd w"] by (cases w) auto
qed simp

lemma lg_bstate:
  fixes s :: "'z lmach_scheme" and t :: "'z lmach_scheme"
  assumes "bstate s t"
  shows "lg t = lg s" "lmach.more t = lmach.more s"
  using assms by (cases s, cases t, simp add: bstate_def)+

lemma bstate_refl: "cinv s \<Longrightarrow> bstate s s"
  by (auto simp: bstate_def)

section \<open>The blocks of the log\<close>

definition logb :: "'z lmach_scheme \<Rightarrow> nat \<Rightarrow> u32" where
  "logb s i = log_start (lg s) + of_nat i + 1"

definition homeb :: "'z lmach_scheme \<Rightarrow> nat \<Rightarrow> u32" where
  "homeb s i = lh_block (log_lh (lg s)) ! i"

definition nlog :: "'z lmach_scheme \<Rightarrow> nat" where
  "nlog s = nat (lh_n (log_lh (lg s)))"

text \<open>The log is on the root device and its block numbers do not wrap around.\<close>

definition log_geom :: "'z lmach_scheme \<Rightarrow> bool" where
  "log_geom s \<longleftrightarrow> log_dev (lg s) = rdev \<and> unat (log_start (lg s)) + LOGSIZE < 2 ^ 31 \<and>
     length (lh_block (log_lh (lg s))) = LOGSIZE"

definition log_area :: "'z lmach_scheme \<Rightarrow> nat set" where
  "log_area s = {unat (log_start (lg s)) .. unat (log_start (lg s)) + LOGSIZE}"

text \<open>The first \<open>n\<close> logged blocks: different blocks, outside the log.\<close>

definition homes_ok :: "'z lmach_scheme \<Rightarrow> nat \<Rightarrow> bool" where
  "homes_ok s n \<longleftrightarrow> n \<le> LOGSIZE \<and> inj_on (homeb s) {..<n} \<and>
     (\<forall>i<n. unat (homeb s i) < 2 ^ 31 \<and> unat (homeb s i) \<notin> log_area s)"

lemma log_names:
  assumes "bstate s t"
  shows "logb t = logb s" "homeb t = homeb s" "nlog t = nlog s" "log_geom t = log_geom s" "log_area t = log_area s"
    "homes_ok t n = homes_ok s n"
proof -
  show e: "logb t = logb s" "homeb t = homeb s" "nlog t = nlog s" "log_geom t = log_geom s" "log_area t = log_area s"
    unfolding logb_def homeb_def nlog_def log_geom_def log_area_def lg_bstate [OF assms] by simp_all
  show "homes_ok t n = homes_ok s n" unfolding homes_ok_def e ..
qed

lemma unat_logb:
  assumes "log_geom s" and "i < LOGSIZE"
  shows "unat (logb s i) = unat (log_start (lg s)) + i + 1"
proof -
  have "unat (log_start (lg s)) + i + 1 < 2 ^ 32" "i < 2 ^ 32" using assms by (auto simp: log_geom_def)
  then have "unat (log_start (lg s) + of_nat i) = unat (log_start (lg s)) + i"
    using unat_add_small [of "log_start (lg s)" "of_nat i"] by (simp add: unat_of_nat)
  then show ?thesis
    using \<open>unat (log_start (lg s)) + i + 1 < 2 ^ 32\<close> unat_add_small [of "log_start (lg s) + of_nat i" 1]
    by (simp add: logb_def)
qed

lemma logb_area: "log_geom s \<Longrightarrow> i < LOGSIZE \<Longrightarrow> unat (logb s i) \<in> log_area s"
  by (simp add: unat_logb log_area_def)

lemma logb_bound: "log_geom s \<Longrightarrow> i < LOGSIZE \<Longrightarrow> unat (logb s i) < 2 ^ 31"
  by (simp add: unat_logb log_geom_def)

lemma logb_inj:
  assumes "log_geom s" and "i < LOGSIZE" and "j < LOGSIZE"
  shows "logb s i = logb s j \<longleftrightarrow> i = j"
proof
  assume "logb s i = logb s j"
  then have "unat (logb s i) = unat (logb s j)" by (rule arg_cong)
  then show "i = j" unfolding unat_logb [OF assms(1,2)] unat_logb [OF assms(1,3)] by simp
qed simp

lemma logb_start:
  assumes "log_geom s" and "i < LOGSIZE"
  shows "logb s i \<noteq> log_start (lg s)"
proof
  assume "logb s i = log_start (lg s)"
  then have "unat (logb s i) = unat (log_start (lg s))" by (rule arg_cong)
  then show False unfolding unat_logb [OF assms] by simp
qed

lemma homeb_logb: "log_geom s \<Longrightarrow> homes_ok s n \<Longrightarrow> i < n \<Longrightarrow> j < LOGSIZE \<Longrightarrow> homeb s i \<noteq> logb s j"
  unfolding homes_ok_def using logb_area [of s j] by metis

lemma homeb_start: "homes_ok s n \<Longrightarrow> i < n \<Longrightarrow> homeb s i \<noteq> log_start (lg s)"
  unfolding homes_ok_def log_area_def by auto

section \<open>Copying a block\<close>

text \<open>
  Both loops read a source block and a target block, copy, and write the target. \<open>copy_block\<close> is the
  state in which the target is written and both are still locked.
\<close>

lemma fun_upd_back: "f a = x \<Longrightarrow> (f(a := y))(a := x) = f"
  by auto

lemma goes_trans:
  "goes s t r c d h \<Longrightarrow> goes t u r' c' d' h' \<Longrightarrow> goes s u r' c' d' h'"
  by (auto simp: goes_def intro: bstate_trans)

lemma two_reads:
  fixes s :: "'z bmach_scheme"
  assumes "calm p s" and "cinv s" and "readable s m" and "readable s n" and "m \<noteq> n"
    and room: "refs s n \<noteq> 0 \<or> card {k. refs s k \<noteq> 0} + 1 < NBUF"
  shows "\<exists>a t b u. bread rdev m s = Ok a t \<and> bread rdev n t = Ok b u \<and> bstate s t \<and> bstate s u \<and> owned p u a m \<and> owned p u b n \<and>
    refs u = (refs s)(m := refs s m + 1, n := refs s n + 1) \<and> blocked u = (blocked s)(m := True, n := True) \<and>
    content u = content s \<and> disk u = disk s \<and> dhist u = dhist s"
proof -
  obtain a t where t: "bread rdev m s = Ok a t" "bstate s t" "owned p t a m" "refs t = (refs s)(m := refs s m + 1)"
      "blocked t = (blocked s)(m := True)" "content t = content s" "disk t = disk s" "dhist t = dhist s"
    using bread_abs [OF assms(1-3)] by blast
  have "card {k. refs t k \<noteq> 0} < NBUF" if "refs s n = 0"
  proof -
    have "{k. refs t k \<noteq> 0} = insert m {k. refs s k \<noteq> 0}" by (auto simp: t(4))
    then have "card {k. refs t k \<noteq> 0} \<le> card {k. refs s k \<noteq> 0} + 1" by (simp add: card_insert_if)
    with room that show ?thesis by simp
  qed
  moreover have "refs t n = refs s n" "blocked t n = blocked s n" using assms(5) by (simp_all add: t(4,5))
  ultimately have "readable t n" using assms(4) unfolding readable_def by auto
  then obtain b u where u: "bread rdev n t = Ok b u" "bstate t u" "owned p u b n" "refs u = (refs t)(n := refs t n + 1)"
      "blocked u = (blocked t)(n := True)" "content u = content t" "disk u = disk t" "dhist u = dhist t"
      "\<And>c k. owned p t c k \<Longrightarrow> owned p u c k"
    using bread_abs [OF bstate_calm [OF t(2) assms(1)] bstate_cinv [OF t(2)]] by blast
  show ?thesis
    using t u(1-8) u(9) [OF t(3)] bstate_trans [OF t(2) u(2)] assms(5) by auto
qed

lemma write_data:
  fixes s :: "'z bmach_scheme"
  assumes "calm p s" and "cinv s" and "owned p s b n" and "length x = BSIZE"
  shows "\<exists>t. bwrite b (set_data b x s) = Ok () t \<and> bstate s t \<and> refs t = refs s \<and> blocked t = blocked s \<and>
    content t = (content s)(n := x) \<and> disk t = (disk s)(unat n := x) \<and> dhist t = (unat n, x) # dhist s \<and>
    (\<forall>c m. owned p s c m \<longrightarrow> owned p t c m)"
proof -
  note d = set_data_abs [OF assms(2,3,4), folded set_data_def]
  have o: "owned p (set_data b x s) b n" using d(7) assms(3) by blast
  obtain t where t: "bwrite b (set_data b x s) = Ok () t" "bstate (set_data b x s) t" "refs t = refs (set_data b x s)"
      "blocked t = blocked (set_data b x s)" "content t = content (set_data b x s)"
      "disk t = (disk (set_data b x s))(unat n := content (set_data b x s) n)"
      "dhist t = (unat n, content (set_data b x s) n) # dhist (set_data b x s)"
      "\<And>c m. owned p (set_data b x s) c m \<Longrightarrow> owned p t c m"
    using bwrite_abs [OF bstate_calm [OF d(1) assms(1)] bstate_cinv [OF d(1)] o] by blast
  show ?thesis using t bstate_trans [OF d(1) t(2)] d(2-7) by auto
qed

definition fresh :: "'z bmach_scheme \<Rightarrow> u32 \<Rightarrow> bool" where
  "fresh s k \<longleftrightarrow> unat k < 2 ^ 31 \<and> \<not> blocked s k \<and> refs s k < 2 ^ 32 - 1"

definition inuse :: "'z bmach_scheme \<Rightarrow> nat" where
  "inuse s = card {k. refs s k \<noteq> 0}"

lemma readableI: "fresh s k \<Longrightarrow> refs s k \<noteq> 0 \<or> inuse s < NBUF \<Longrightarrow> readable s k"
  by (auto simp: fresh_def readable_def inuse_def)

lemma write_log_round:
  fixes s :: "'z lmach_scheme"
  assumes "calm p s" and "cinv s" and g: "log_geom s" and "tail < LOGSIZE"
    and "fresh s (logb s tail)" and "inuse s < NBUF" and "fresh s (homeb s tail)" and "refs s (homeb s tail) \<noteq> 0"
    and ne: "homeb s tail \<noteq> logb s tail"
  shows "\<exists>t. write_log_loop tail (Suc n) s = write_log_loop (Suc tail) n t \<and>
    goes s t (refs s) ((content s)(logb s tail := content s (homeb s tail)))
      ((disk s)(unat (logb s tail) := content s (homeb s tail)))
      ((unat (logb s tail), content s (homeb s tail)) # dhist s)"
proof -
  let ?l = "logb s tail" and ?h = "homeb s tail" and ?x = "content s (homeb s tail)"
  have r: "readable s ?l" "readable s ?h" using assms(5-8) by (auto intro: readableI)
  obtain a t b u where tu: "bread rdev ?l s = Ok a t" "bread rdev ?h t = Ok b u" "bstate s t" "bstate s u"
      "owned p u a ?l" "owned p u b ?h" "refs u = (refs s)(?l := refs s ?l + 1, ?h := refs s ?h + 1)"
      "blocked u = (blocked s)(?l := True, ?h := True)" "content u = content s" "disk u = disk s" "dhist u = dhist s"
    using two_reads [OF assms(1,2) r ne [symmetric]] assms(8) by blast
  have cu: "calm p u" "cinv u" using bstate_calm [OF tu(4) assms(1)] bstate_cinv [OF tu(4)] .
  have x: "b_data (bufs u b) = ?x" using owned_content [OF cu(2) tu(6)] by (simp add: tu(9))
  obtain v where v: "bwrite a (set_data a ?x u) = Ok () v" "bstate u v" "refs v = refs u" "blocked v = blocked u"
      "content v = (content u)(?l := ?x)" "disk v = (disk u)(unat ?l := ?x)" "dhist v = (unat ?l, ?x) # dhist u"
      "\<And>c m. owned p u c m \<Longrightarrow> owned p v c m"
    using write_data [OF cu tu(5) length_content [OF assms(2)]] by blast
  have cv: "calm p v" "cinv v" using bstate_calm [OF v(2) cu(1)] bstate_cinv [OF v(2)] .
  have "refs v ?h \<noteq> 1" using assms(8) by (simp add: v(3) tu(7))
  then obtain w where w: "brelse b v = Ok () w" "bstate v w" "refs w = (refs v)(?h := refs v ?h - 1)"
      "blocked w = (blocked v)(?h := False)" "content w = content v" "disk w = disk v" "dhist w = dhist v"
      "\<And>c m. owned p v c m \<Longrightarrow> m \<noteq> ?h \<Longrightarrow> owned p w c m"
    using brelse_abs [OF cv v(8) [OF tu(6)]] by blast
  have cw: "calm p w" "cinv w" using bstate_calm [OF w(2) cv(1)] bstate_cinv [OF w(2)] .
  have ow: "owned p w a ?l" by (rule w(8) [OF v(8) [OF tu(5)] ne [symmetric]])
  have dl: "disk w (unat ?l) = content w ?l" by (simp add: w(5,6) v(5,6))
  obtain y where y: "brelse a w = Ok () y" "bstate w y" "refs y = (refs w)(?l := refs w ?l - 1)"
      "blocked y = (blocked w)(?l := False)" "content y = content w" "disk y = disk w" "dhist y = dhist w"
    using brelse_abs [OF cw ow dl] by blast
  have "bstate s y" by (rule bstate_trans [OF bstate_trans [OF tu(4) v(2)] bstate_trans [OF w(2) y(2)]])
  moreover have "refs y = refs s" using ne by (simp add: y(3) w(3) v(3) tu(7) fun_eq_iff)
  moreover have "blocked y = blocked s" using assms(5,7) by (simp add: y(4) w(4) v(4) tu(8) fresh_def fun_eq_iff)
  ultimately have "goes s y (refs s) ((content s)(?l := ?x)) ((disk s)(unat ?l := ?x)) ((unat ?l, ?x) # dhist s)"
    by (simp add: goes_def y(5-7) w(5-7) v(5-7) tu(9-11))
  moreover have "write_log_loop tail (Suc n) s = write_log_loop (Suc tail) n y"
    using tu(1,2) v(1) w(1) y(1) assms(4) g lg_bstate(1) [OF tu(3)] x
    by (simp add: log_geom_def logb_def homeb_def Let_def)
  ultimately show ?thesis by blast
qed

text \<open>The writes of write_log from \<open>tail\<close> on.\<close>

definition log_writes :: "'z lmach_scheme \<Rightarrow> nat \<Rightarrow> nat \<Rightarrow> (u32 \<times> byte list) list" where
  "log_writes s i n = map (\<lambda>j. (logb s j, content s (homeb s j))) [i..<i + n]"

definition at_nat :: "(u32 \<times> byte list) list \<Rightarrow> (nat \<times> byte list) list" where
  "at_nat ws = map (\<lambda>(k, x). (unat k, x)) ws"

lemma at_nat_simps [simp]:
  "at_nat [] = []" "at_nat ((k, x) # ws) = (unat k, x) # at_nat ws" "at_nat (ws @ vs) = at_nat ws @ at_nat vs"
  by (simp_all add: at_nat_def)

lemma write_log_loop_ok:
  fixes s :: "'z lmach_scheme"
  assumes "calm p s" and "cinv s" and "log_geom s" and "homes_ok s (i + n)" and "inuse s < NBUF"
    and "\<And>j. i \<le> j \<Longrightarrow> j < i + n \<Longrightarrow> fresh s (logb s j) \<and> fresh s (homeb s j) \<and> refs s (homeb s j) \<noteq> 0"
  shows "\<exists>t. write_log_loop i n s = Ok () t \<and> goes s t (refs s) (upds (log_writes s i n) (content s))
    (upds (at_nat (log_writes s i n)) (disk s)) (rev (at_nat (log_writes s i n)) @ dhist s)"
  using assms
proof (induction n arbitrary: i s)
  case 0
  then show ?case by (simp add: goes_def bstate_refl log_writes_def)
next
  case (Suc n)
  have i: "i < LOGSIZE" using Suc.prems(4) by (simp add: homes_ok_def)
  have ne: "homeb s i \<noteq> logb s i" using homeb_logb [OF Suc.prems(3,4) _ i] by simp
  obtain t where t: "write_log_loop i (Suc n) s = write_log_loop (Suc i) n t"
    and go: "goes s t (refs s) ((content s)(logb s i := content s (homeb s i)))
      ((disk s)(unat (logb s i) := content s (homeb s i)))
      ((unat (logb s i), content s (homeb s i)) # dhist s)"
    using write_log_round [OF Suc.prems(1-3) i _ Suc.prems(5) _ _ ne] Suc.prems(6) [of i] by auto
  have st: "bstate s t" and e: "refs t = refs s" "blocked t = blocked s"
      "content t = (content s)(logb s i := content s (homeb s i))" using go by (auto simp: goes_def)
  note nm = log_names [OF st]
  have fr: "fresh t = fresh s" "inuse t = inuse s" by (simp_all add: fresh_def inuse_def fun_eq_iff e)
  have lw: "log_writes t (Suc i) n = log_writes s (Suc i) n"
    using homeb_logb [OF Suc.prems(3,4)] i by (auto simp: log_writes_def nm e)
  have "\<exists>u. write_log_loop (Suc i) n t = Ok () u \<and> goes t u (refs t) (upds (log_writes t (Suc i) n) (content t))
    (upds (at_nat (log_writes t (Suc i) n)) (disk t)) (rev (at_nat (log_writes t (Suc i) n)) @ dhist t)"
    using Suc.prems by (intro Suc.IH) (auto simp: nm fr e bstate_calm [OF st] bstate_cinv [OF st])
  moreover have "log_writes s i (Suc n) = (logb s i, content s (homeb s i)) # log_writes s (Suc i) n"
    by (simp add: log_writes_def upt_conv_Cons del: upt_Suc)
  ultimately show ?case using go t by (auto simp: lw goes_def intro: bstate_trans)
qed

section \<open>The header block\<close>

primrec fill_head :: "nat \<Rightarrow> nat \<Rightarrow> u32 list \<Rightarrow> byte list \<Rightarrow> byte list" where
  "fill_head 0 i bl d = d"
| "fill_head (Suc n) i bl d = fill_head n (Suc i) bl (put_slot 4 (Suc i) (le_bytes 4 (bl ! i)) d)"

definition header :: "'z lmach_scheme \<Rightarrow> byte list" where
  "header s = fill_head (nlog s) 0 (lh_block (log_lh (lg s)))
     (put_slot 4 0 (le_bytes 4 (of_int (lh_n (log_lh (lg s))) :: u32)) (content s (log_start (lg s))))"

lemma set_data_simps [simp]:
  "lg (set_data b x s) = lg s" "set_data b x (set_data b y s) = set_data b x s"
  "b_data (bufs (set_data b x s) b) = x" "set_data b (b_data (bufs s b)) s = s"
  by (simp_all add: set_data_def set_buf_def)

lemma write_head_loop_eq:
  "i + n \<le> LOGSIZE \<Longrightarrow> write_head_loop b i n s =
     Ok () (set_data b (fill_head n i (lh_block (log_lh (lg s))) (b_data (bufs s b))) s)"
  by (induction n arbitrary: i s) simp_all

lemma fill_head_slots:
  "length d = BSIZE \<Longrightarrow> i + n \<le> LOGSIZE \<Longrightarrow> length (fill_head n i bl d) = BSIZE \<and>
     get_slot 4 0 (fill_head n i bl d) = get_slot 4 0 d \<and>
     (\<forall>j. get_slot 4 (Suc j) (fill_head n i bl d) =
       (if i \<le> j \<and> j < i + n then le_bytes 4 (bl ! j) else get_slot 4 (Suc j) d))"
proof (induction n arbitrary: i d)
  case (Suc n)
  let ?d = "put_slot 4 (Suc i) (le_bytes 4 (bl ! i)) d"
  have fit: "Suc i * 4 + 4 \<le> length d" using Suc.prems by (simp add: BSIZE_def LOGSIZE_def MAXOPBLOCKS_def)
  have l: "length ?d = BSIZE" using Suc.prems(1) fit by simp
  have g: "get_slot 4 k ?d = (if k = Suc i then le_bytes 4 (bl ! i) else get_slot 4 k d)" for k
    using get_put_slot_same [OF fit, of "le_bytes 4 (bl ! i)"] get_put_slot_other [OF fit, of "le_bytes 4 (bl ! i)" k]
    by simp
  show ?case using Suc.IH [OF l, of "Suc i"] Suc.prems(2) by (auto simp: g)
qed auto

lemma header_fields:
  assumes "cinv s" and "0 \<le> lh_n (log_lh (lg s))" and "nlog s \<le> LOGSIZE"
  shows "length (header s) = BSIZE" "hb_n (header s) = lh_n (log_lh (lg s))" "j < nlog s \<Longrightarrow> hb_block (header s) j = homeb s j"
proof -
  let ?w = "of_int (lh_n (log_lh (lg s))) :: u32"
  let ?d = "put_slot 4 0 (le_bytes 4 ?w) (content s (log_start (lg s)))"
  have fit: "0 * 4 + 4 \<le> length (content s (log_start (lg s)))"
    using length_content [OF assms(1)] by (simp add: BSIZE_def)
  have d: "length ?d = BSIZE" "get_slot 4 0 ?d = le_bytes 4 ?w"
    using length_content [OF assms(1), of "log_start (lg s)"] fit by (simp_all add: get_put_slot_same [OF fit])
  note f = fill_head_slots [OF d(1), of 0 "nlog s" "lh_block (log_lh (lg s))"]
  show "length (header s) = BSIZE" using f assms(3) by (simp add: header_def)
  have small: "lh_n (log_lh (lg s)) \<le> 30" using assms(3) by (simp add: nlog_def LOGSIZE_def MAXOPBLOCKS_def)
  have "sint ?w = lh_n (log_lh (lg s))"
    using assms(2) small by (simp add: sint_sbintrunc' signed_take_bit_int_eq_self_iff)
  then show "hb_n (header s) = lh_n (log_lh (lg s))"
    using f assms(3) d(2) le_val_le_bytes [of 4 ?w] by (simp add: hb_n_def header_def)
  show "hb_block (header s) j = homeb s j" if "j < nlog s"
    using f assms(3) that le_val_le_bytes [of 4 "homeb s j"] by (simp add: hb_block_def header_def homeb_def)
qed

lemma write_head_ok:
  fixes s :: "'z lmach_scheme"
  assumes "calm p s" and "cinv s" and g: "log_geom s" and "fresh s (log_start (lg s))" and "inuse s < NBUF"
    and "0 \<le> lh_n (log_lh (lg s))" and "nlog s \<le> LOGSIZE"
  shows "\<exists>t. write_head s = Ok () t \<and> goes s t (refs s) ((content s)(log_start (lg s) := header s))
    ((disk s)(unat (log_start (lg s)) := header s)) ((unat (log_start (lg s)), header s) # dhist s)"
proof -
  let ?k = "log_start (lg s)"
  have "readable s ?k" using assms(4,5) by (auto intro: readableI)
  then obtain b t where t: "bread rdev ?k s = Ok b t" "bstate s t" "owned p t b ?k" "refs t = (refs s)(?k := refs s ?k + 1)"
      "blocked t = (blocked s)(?k := True)" "content t = content s" "disk t = disk s" "dhist t = dhist s"
    using bread_abs [OF assms(1,2)] by blast
  have ct: "calm p t" "cinv t" using bstate_calm [OF t(2) assms(1)] bstate_cinv [OF t(2)] .
  have x: "b_data (bufs t b) = content s ?k" using owned_content [OF ct(2) t(3)] by (simp add: t(6))
  obtain u where u: "bwrite b (set_data b (header s) t) = Ok () u" "bstate t u" "refs u = refs t" "blocked u = blocked t"
      "content u = (content t)(?k := header s)" "disk u = (disk t)(unat ?k := header s)"
      "dhist u = (unat ?k, header s) # dhist t" "\<And>c m. owned p t c m \<Longrightarrow> owned p u c m"
    using write_data [OF ct t(3) header_fields(1) [OF assms(2,6,7)]] by blast
  have cu: "calm p u" "cinv u" using bstate_calm [OF u(2) ct(1)] bstate_cinv [OF u(2)] .
  have "disk u (unat ?k) = content u ?k" by (simp add: u(5,6))
  then obtain v where v: "brelse b u = Ok () v" "bstate u v" "refs v = (refs u)(?k := refs u ?k - 1)"
      "blocked v = (blocked u)(?k := False)" "content v = content u" "disk v = disk u" "dhist v = dhist u"
    using brelse_abs [OF cu u(8) [OF t(3)]] by blast
  have "bstate s v" by (rule bstate_trans [OF t(2) bstate_trans [OF u(2) v(2)]])
  moreover have "refs v = refs s" "blocked v = blocked s"
    using assms(4) by (simp_all add: v(3,4) u(3,4) t(4,5) fresh_def fun_eq_iff)
  ultimately have "goes s v (refs s) ((content s)(?k := header s)) ((disk s)(unat ?k := header s)) ((unat ?k, header s) # dhist s)"
    by (simp add: goes_def v(5-7) u(5-7) t(6-8))
  moreover have "write_head s = Ok () v"
    using g t(1) u(1) v(1) assms(7) x lg_bstate(1) [OF t(2)]
    by (simp add: write_head_def log_geom_def Let_def write_head_loop_eq header_def nlog_def)
  ultimately show ?thesis by blast
qed

section \<open>Installing\<close>

lemma content_unref:
  assumes "cinv s" and "refs s k = 0"
  shows "content s k = disk s (unat k)"
proof (cases "\<exists>b. caches s b k \<and> b_valid (bufs s b)")
  case True
  then obtain b where b: "caches s b k" "b_valid (bufs s b)" by blast
  then have "b_refcnt (bufs s b) = 0" using refs_cached [OF assms(1) b(1)] assms(2) by (simp add: unat_eq_zero)
  then have "clean s b" using assms(1) b(1) by (auto simp: cinv_def buf_ok_def caches_def)
  then show ?thesis using content_cached [OF assms(1) b] b by (simp add: clean_def caches_def)
qed (simp add: content_uncached)

lemma install_round:
  fixes s :: "'z lmach_scheme"
  assumes "calm p s" and "cinv s" and g: "log_geom s" and "tail < LOGSIZE"
    and "fresh s (logb s tail)" and "inuse s < NBUF" and "fresh s (homeb s tail)"
    and room: "refs s (homeb s tail) \<noteq> 0 \<or> inuse s + 1 < NBUF" and ne: "homeb s tail \<noteq> logb s tail"
  shows "\<exists>t. install_trans_loop tail (Suc n) s = install_trans_loop (Suc tail) n t \<and>
    goes s t ((refs s)(homeb s tail := unpinned (refs s (homeb s tail) + 1)))
      ((content s)(homeb s tail := content s (logb s tail)))
      ((disk s)(unat (homeb s tail) := content s (logb s tail)))
      ((unat (homeb s tail), content s (logb s tail)) # dhist s)"
proof -
  let ?l = "logb s tail" and ?h = "homeb s tail" and ?x = "content s (logb s tail)"
  have r: "readable s ?l" "readable s ?h" using assms(5-7) by (auto intro: readableI)
  obtain a t b u where tu: "bread rdev ?l s = Ok a t" "bread rdev ?h t = Ok b u" "bstate s t" "bstate s u"
      "owned p u a ?l" "owned p u b ?h" "refs u = (refs s)(?l := refs s ?l + 1, ?h := refs s ?h + 1)"
      "blocked u = (blocked s)(?l := True, ?h := True)" "content u = content s" "disk u = disk s" "dhist u = dhist s"
    using two_reads [OF assms(1,2) r ne [symmetric]] room unfolding inuse_def by blast
  have cu: "calm p u" "cinv u" using bstate_calm [OF tu(4) assms(1)] bstate_cinv [OF tu(4)] .
  have x: "b_data (bufs u a) = ?x" using owned_content [OF cu(2) tu(5)] by (simp add: tu(9))
  obtain v where v: "bwrite b (set_data b ?x u) = Ok () v" "bstate u v" "refs v = refs u" "blocked v = blocked u"
      "content v = (content u)(?h := ?x)" "disk v = (disk u)(unat ?h := ?x)" "dhist v = (unat ?h, ?x) # dhist u"
      "\<And>c m. owned p u c m \<Longrightarrow> owned p v c m"
    using write_data [OF cu tu(6) length_content [OF assms(2)]] by blast
  have cv: "calm p v" "cinv v" using bstate_calm [OF v(2) cu(1)] bstate_cinv [OF v(2)] .
  have un: "unat ?l \<noteq> unat ?h" using ne by (simp add: word_eq_iff_unat)
  have dl: "disk v (unat ?l) = content v ?l" if "refs v ?l = 1"
    using that ne un content_unref [OF assms(2), of ?l] by (simp add: v(3,5,6) tu(7,9,10))
  have dh: "disk v (unat ?h) = content v ?h" by (simp add: v(5,6))
  obtain w y z where w: "bunpin b v = Ok () w" "brelse a w = Ok () y" "brelse b y = Ok () z" "bstate v z"
      "refs z = (refs v)(?l := refs v ?l - 1, ?h := unpinned (refs v ?h))" "blocked z = (blocked v)(?l := False, ?h := False)"
      "content z = content v" "disk z = disk v" "dhist z = dhist v"
    using unpin_release_abs [OF cv v(8) [OF tu(5)] v(8) [OF tu(6)] ne [symmetric] dl dh] by blast
  have "bstate s z" by (rule bstate_trans [OF tu(4) bstate_trans [OF v(2) w(4)]])
  moreover have "refs z = (refs s)(?h := unpinned (refs s ?h + 1))" using ne by (simp add: w(5) v(3) tu(7) fun_eq_iff)
  moreover have "blocked z = blocked s" using assms(5,7) by (simp add: w(6) v(4) tu(8) fresh_def fun_eq_iff)
  ultimately have "goes s z ((refs s)(?h := unpinned (refs s ?h + 1))) ((content s)(?h := ?x)) ((disk s)(unat ?h := ?x))
      ((unat ?h, ?x) # dhist s)"
    by (simp add: goes_def w(7-9) v(5-7) tu(9-11))
  moreover have "install_trans_loop tail (Suc n) s = install_trans_loop (Suc tail) n z"
    using tu(1,2) v(1) w(1-3) assms(4) g lg_bstate(1) [OF tu(3)] x
    by (simp add: log_geom_def logb_def homeb_def Let_def)
  ultimately show ?thesis by blast
qed

definition home_writes :: "'z lmach_scheme \<Rightarrow> nat \<Rightarrow> nat \<Rightarrow> (u32 \<times> byte list) list" where
  "home_writes s i n = map (\<lambda>j. (homeb s j, content s (logb s j))) [i..<i + n]"

definition home_refs :: "'z lmach_scheme \<Rightarrow> nat \<Rightarrow> nat \<Rightarrow> (u32 \<times> nat) list" where
  "home_refs s i n = map (\<lambda>j. (homeb s j, unpinned (refs s (homeb s j) + 1))) [i..<i + n]"

text \<open>
  Enough free buffers for a run of install_trans: one when every home block is pinned, one more for
  each block when they are not.
\<close>

definition install_room :: "'z lmach_scheme \<Rightarrow> nat \<Rightarrow> nat \<Rightarrow> bool" where
  "install_room s i n \<longleftrightarrow> inuse s < NBUF \<and> (\<forall>j<i + n. i \<le> j \<longrightarrow> refs s (homeb s j) \<noteq> 0) \<or> inuse s + n < NBUF"

lemma inuse_mono: "(\<And>k. refs t k \<noteq> 0 \<Longrightarrow> refs s k \<noteq> 0) \<Longrightarrow> inuse t \<le> inuse s"
  unfolding inuse_def by (intro card_mono) auto

lemma inuse_insert:
  assumes "\<And>k. refs t k \<noteq> 0 \<Longrightarrow> k = a \<or> refs s k \<noteq> 0"
  shows "inuse t \<le> inuse s + 1"
proof -
  have "card {k. refs t k \<noteq> 0} \<le> card (insert a {k. refs s k \<noteq> 0})"
    using assms by (intro card_mono) auto
  then show ?thesis by (simp add: inuse_def card_insert_if split: if_splits)
qed

lemma install_loop_ok:
  fixes s :: "'z lmach_scheme"
  assumes "calm p s" and "cinv s" and "log_geom s" and "homes_ok s (i + n)" and "install_room s i n"
    and "\<And>j. i \<le> j \<Longrightarrow> j < i + n \<Longrightarrow> fresh s (logb s j) \<and> fresh s (homeb s j)"
  shows "\<exists>t. install_trans_loop i n s = Ok () t \<and> goes s t (upds (home_refs s i n) (refs s))
    (upds (home_writes s i n) (content s)) (upds (at_nat (home_writes s i n)) (disk s))
    (rev (at_nat (home_writes s i n)) @ dhist s)"
  using assms
proof (induction n arbitrary: i s)
  case 0
  then show ?case by (simp add: goes_def bstate_refl home_writes_def home_refs_def)
next
  case (Suc n)
  have i: "i < LOGSIZE" using Suc.prems(4) by (simp add: homes_ok_def)
  have ne: "homeb s i \<noteq> logb s j" if "j < LOGSIZE" for j using homeb_logb [OF Suc.prems(3,4) _ that] by simp
  have room: "inuse s < NBUF" "refs s (homeb s i) \<noteq> 0 \<or> inuse s + 1 < NBUF"
    using Suc.prems(5) by (auto simp: install_room_def)
  obtain t where t: "install_trans_loop i (Suc n) s = install_trans_loop (Suc i) n t"
    and go: "goes s t ((refs s)(homeb s i := unpinned (refs s (homeb s i) + 1)))
      ((content s)(homeb s i := content s (logb s i))) ((disk s)(unat (homeb s i) := content s (logb s i)))
      ((unat (homeb s i), content s (logb s i)) # dhist s)"
    using install_round [OF Suc.prems(1-3) i _ room(1) _ room(2) ne [OF i]] Suc.prems(6) [of i] by auto
  have st: "bstate s t" and e: "refs t = (refs s)(homeb s i := unpinned (refs s (homeb s i) + 1))" "blocked t = blocked s"
      "content t = (content s)(homeb s i := content s (logb s i))" using go by (auto simp: goes_def)
  note nm = log_names [OF st]
  have hne: "homeb s j \<noteq> homeb s i" if "Suc i \<le> j" "j < i + Suc n" for j
    using inj_onD [of "homeb s" "{..<i + Suc n}" j i] Suc.prems(4) that by (auto simp: homes_ok_def)
  have kept: "refs t (homeb s j) = refs s (homeb s j)" "content t (logb s j) = content s (logb s j)"
      "refs t (logb s j) = refs s (logb s j)" if "Suc i \<le> j" "j < i + Suc n" for j
  proof -
    have "j < LOGSIZE" using that Suc.prems(4) by (simp add: homes_ok_def)
    from ne [OF this] show "content t (logb s j) = content s (logb s j)" "refs t (logb s j) = refs s (logb s j)"
      by (simp_all add: e)
  qed (use hne that in \<open>simp add: e\<close>)
  have hw: "home_writes t (Suc i) n = home_writes s (Suc i) n" "home_refs t (Suc i) n = home_refs s (Suc i) n"
    using kept by (auto simp: home_writes_def home_refs_def nm)
  have "install_room t (Suc i) n"
  proof (cases "inuse s + Suc n < NBUF")
    case True
    have "inuse t \<le> inuse s + 1" by (rule inuse_insert [of t "homeb s i"]) (simp add: e split: if_splits)
    with True show ?thesis by (simp add: install_room_def)
  next
    case False
    then have p: "\<And>j. i \<le> j \<Longrightarrow> j < i + Suc n \<Longrightarrow> refs s (homeb s j) \<noteq> 0"
      using Suc.prems(5) by (auto simp: install_room_def)
    have "inuse t \<le> inuse s" using p [of i] by (intro inuse_mono) (auto simp: e split: if_splits)
    with room(1) p kept(1) show ?thesis by (auto simp: install_room_def nm)
  qed
  then have "\<exists>u. install_trans_loop (Suc i) n t = Ok () u \<and> goes t u (upds (home_refs t (Suc i) n) (refs t))
    (upds (home_writes t (Suc i) n) (content t)) (upds (at_nat (home_writes t (Suc i) n)) (disk t))
    (rev (at_nat (home_writes t (Suc i) n)) @ dhist t)"
    using Suc.prems(1-4) Suc.prems(6) kept(1,3)
    by (intro Suc.IH) (auto simp: nm fresh_def e(2) bstate_calm [OF st] bstate_cinv [OF st])
  moreover have "home_writes s i (Suc n) = (homeb s i, content s (logb s i)) # home_writes s (Suc i) n"
      "home_refs s i (Suc n) = (homeb s i, unpinned (refs s (homeb s i) + 1)) # home_refs s (Suc i) n"
    by (simp_all add: home_writes_def home_refs_def upt_conv_Cons del: upt_Suc)
  ultimately show ?case using go t by (auto simp: hw goes_def intro: bstate_trans)
qed

end
