(* ===== verification/Log_Crash.thy ===== *)
theory Log_Crash
  imports Log_Seq
begin

text \<open>
  Commit and recovery as wholes: the sequence of disk writes of a commit, the state a recovery leaves,
  and the two put together for a crash between any two of the writes.
\<close>

section \<open>Changes of the log alone\<close>

text \<open>Assignments to the log in memory touch nothing that the cache is described by.\<close>

lemma set_lg_frame [simp]:
  fixes s :: "'z lmach_scheme"
  shows "bufs (set_lg f s) = bufs s" "disk (set_lg f s) = disk s" "dhist (set_lg f s) = dhist s"
    "slocks (set_lg f s) = slocks s" "procs (set_lg f s) = procs s" "lg (set_lg f s) = f (lg s)"
  by (simp_all add: set_lg_def)

lemma set_lg_abs [simp]:
  fixes s :: "'z lmach_scheme"
  shows "refs (set_lg f s) = refs s" "blocked (set_lg f s) = blocked s" "content (set_lg f s) = content s"
    "cinv (set_lg f s) = cinv s" "calm p (set_lg f s) = calm p s" "owned p (set_lg f s) b n = owned p s b n"
    "inuse (set_lg f s) = inuse s" "fresh (set_lg f s) = fresh s"
proof -
  show r: "refs (set_lg f s) = refs s" by (rule ext) (simp only: refs_def set_lg_frame)
  show b: "blocked (set_lg f s) = blocked s" by (rule ext) (simp add: blocked_def caches_def)
  show "content (set_lg f s) = content s" by (rule ext) (simp only: content_def set_lg_frame)
  show "cinv (set_lg f s) = cinv s" by (simp add: cinv_def buf_ok_def clean_def)
  show "calm p (set_lg f s) = calm p s" by (simp add: set_lg_def calm_def intr_ok_def lock_free_def mycpu_def cpuid_def)
  show "owned p (set_lg f s) b n = owned p s b n" by (simp add: owned_def caches_def held_def)
  show "inuse (set_lg f s) = inuse s" by (simp add: inuse_def r)
  show "fresh (set_lg f s) = fresh s" by (rule ext) (simp add: fresh_def r b)
qed

lemma bstate_set_lg:
  fixes s :: "'z lmach_scheme" and t :: "'z lmach_scheme"
  assumes "bstate s t"
  shows "bstate (set_lg f s) (set_lg f t)"
proof -
  have "same_mach (set_lg f s) (set_lg f t)" using assms by (simp add: bstate_def same_mach_def set_lg_def)
  moreover have "vd (set_lg f t) = vd (set_lg f s)" using assms by (simp add: bstate_def set_lg_def)
  moreover have "bmach.more (set_lg f t) = bmach.more (set_lg f s)"
    using assms by (cases s, cases t) (simp add: bstate_def set_lg_def)
  ultimately show ?thesis using assms by (simp add: bstate_def)
qed

lemma set_lh_set_lg: "set_lh f s = set_lg (\<lambda>l. l\<lparr>log_lh := f (log_lh l)\<rparr>) s"
  by (simp add: set_lh_def)

section \<open>Reading the header\<close>

primrec take_head :: "nat \<Rightarrow> nat \<Rightarrow> byte list \<Rightarrow> u32 list \<Rightarrow> u32 list" where
  "take_head 0 i d bl = bl"
| "take_head (Suc n) i d bl = take_head n (Suc i) d (bl[i := hb_block d i])"

lemma take_head_nth:
  "i + n \<le> length bl \<Longrightarrow> length (take_head n i d bl) = length bl \<and>
     (\<forall>j < length bl. take_head n i d bl ! j = (if i \<le> j \<and> j < i + n then hb_block d j else bl ! j))"
  by (induction n arbitrary: i bl) (auto simp: nth_list_update not_less_eq_eq dest: le_antisym)

lemma read_head_loop_eq:
  "i + n \<le> LOGSIZE \<Longrightarrow> read_head_loop b i n s =
     Ok () (set_lg (\<lambda>l. l\<lparr>log_lh := (log_lh l)\<lparr>lh_block := take_head n i (b_data (bufs s b)) (lh_block (log_lh l))\<rparr>\<rparr>) s)"
proof (induction n arbitrary: i s)
  case 0
  then show ?case by (simp add: set_lg_def)
next
  case (Suc n)
  then show ?case by (simp add: set_lh_set_lg) (simp add: set_lg_def)
qed

definition loaded :: "byte list \<Rightarrow> log \<Rightarrow> log" where
  "loaded d l = l\<lparr>log_lh := \<lparr>lh_n = hb_n d, lh_block = take_head (nat (hb_n d)) 0 d (lh_block (log_lh l))\<rparr>\<rparr>"

lemma read_head_ok:
  fixes s :: "'z lmach_scheme"
  assumes "calm p s" and "cinv s" and g: "log_geom s" and "fresh s (log_start (lg s))" and "inuse s < NBUF"
    and "nat (hb_n (content s (log_start (lg s)))) \<le> LOGSIZE"
  shows "\<exists>t. read_head s = Ok () t \<and>
    goes (set_lg (loaded (content s (log_start (lg s)))) s) t (refs s) (content s) (disk s) (dhist s)"
proof -
  let ?k = "log_start (lg s)" and ?f = "loaded (content s (log_start (lg s)))"
  have "readable s ?k" using assms(4,5) by (auto intro: readableI)
  then obtain b t where t: "bread rdev ?k s = Ok b t" "bstate s t" "owned p t b ?k" "refs t = (refs s)(?k := refs s ?k + 1)"
      "blocked t = (blocked s)(?k := True)" "content t = content s" "disk t = disk s" "dhist t = dhist s"
    using bread_abs [OF assms(1,2)] by blast
  have ct: "calm p t" "cinv t" using bstate_calm [OF t(2) assms(1)] bstate_cinv [OF t(2)] .
  have x: "b_data (bufs t b) = content s ?k" using owned_content [OF ct(2) t(3)] by (simp add: t(6))
  let ?u = "set_lg ?f t"
  have st: "bstate (set_lg ?f s) ?u" by (rule bstate_set_lg [OF t(2)])
  have cu: "calm p ?u" "cinv ?u" "owned p ?u b ?k" using ct t(3) by simp_all
  have "disk ?u (unat ?k) = content ?u ?k" if "refs ?u ?k = 1"
    using that content_unref [OF assms(2), of ?k] by (simp add: t(4,6,7))
  then obtain v where v: "brelse b ?u = Ok () v" "bstate ?u v" "refs v = (refs ?u)(?k := refs ?u ?k - 1)"
      "blocked v = (blocked ?u)(?k := False)" "content v = content ?u" "disk v = disk ?u" "dhist v = dhist ?u"
    using brelse_abs [OF cu] by blast
  have "bstate (set_lg ?f s) v" by (rule bstate_trans [OF st v(2)])
  moreover have "refs v = refs s" "blocked v = blocked (set_lg ?f s)"
    using assms(4) by (simp_all add: v(3,4) t(4,5) fresh_def fun_eq_iff)
  ultimately have "goes (set_lg ?f s) v (refs s) (content s) (disk s) (dhist s)"
    by (simp add: goes_def v(5-7) t(6-8))
  moreover have eu: "set_lg (\<lambda>l. l\<lparr>log_lh := (log_lh l)\<lparr>lh_block := take_head (nat (hb_n (content s ?k))) 0 (content s ?k)
      (lh_block (log_lh l))\<rparr>\<rparr>) (set_lh (\<lambda>h. h\<lparr>lh_n := hb_n (content s ?k)\<rparr>) t) = ?u"
    by (simp add: set_lh_set_lg set_lg_def loaded_def)
  have "read_head s = Ok () v"
    using g t(1) v(1) assms(6) eu
    by (simp add: read_head_def log_geom_def Let_def read_head_loop_eq x lg_bstate(1) [OF t(2)] set_lh_set_lg)
  ultimately show ?thesis by blast
qed

section \<open>Recovery\<close>

text \<open>
  A machine that has just booted: nothing is cached. The header on its disk is fit for installing when
  the count is smaller than the number of buffers and the logged blocks are different blocks outside
  the log.
\<close>

definition rebooted :: "nat \<Rightarrow> 'z lmach_scheme \<Rightarrow> bool" where
  "rebooted p s \<longleftrightarrow> calm p s \<and> cinv s \<and> refs s = (\<lambda>_. 0) \<and> blocked s = (\<lambda>_. False) \<and>
     length (lh_block (log_lh (lg s))) = LOGSIZE"

definition head_ok :: "'z lmach_scheme \<Rightarrow> byte list \<Rightarrow> bool" where
  "head_ok s d \<longleftrightarrow> 0 \<le> hb_n d \<and> nat (hb_n d) < NBUF \<and> inj_on (hb_block d) {..<nat (hb_n d)} \<and>
     (\<forall>i < nat (hb_n d). unat (hb_block d i) < 2 ^ 31 \<and> unat (hb_block d i) \<notin> log_area s)"

definition erased :: "byte list \<Rightarrow> byte list" where
  "erased d = put_slot 4 0 (le_bytes 4 (0 :: u32)) d"

text \<open>What a recovery installs, read off the disk.\<close>

definition recovery_writes :: "'z lmach_scheme \<Rightarrow> (nat \<times> byte list) list" where
  "recovery_writes s =
     (let d = disk s (unat (log_start (lg s)))
      in map (\<lambda>j. (unat (hb_block d j), disk s (unat (logb s j)))) [0..<nat (hb_n d)])"

definition recovery_refs :: "'z lmach_scheme \<Rightarrow> (u32 \<times> nat) list" where
  "recovery_refs s =
     (let d = disk s (unat (log_start (lg s)))
      in map (\<lambda>j. (hb_block d j, 2 ^ 32 - 1)) [0..<nat (hb_n d)])"

lemma erased_fields: "length d = BSIZE \<Longrightarrow> length (erased d) = BSIZE \<and> hb_n (erased d) = 0"
proof -
  assume l: "length d = BSIZE"
  then have fit: "0 * 4 + 4 \<le> length d" by (simp add: BSIZE_def)
  then have "get_slot 4 0 (erased d) = le_bytes 4 (0 :: u32)"
    unfolding erased_def by (rule get_put_slot_same) simp
  then show ?thesis using l fit le_val_le_bytes [of 4 "0 :: u32"] by (simp add: erased_def hb_n_def)
qed

lemma inuse_upds: "inuse t \<le> inuse s + length ws" if "refs t = upds ws (refs s)" for s :: "'z lmach_scheme" and t :: "'z lmach_scheme"
proof -
  have "{k. refs t k \<noteq> 0} \<subseteq> {k. refs s k \<noteq> 0} \<union> fst ` set ws"
    using upds_other [of _ ws "refs s"] by (auto simp: that)
  then have "inuse t \<le> card ({k. refs s k \<noteq> 0} \<union> fst ` set ws)" unfolding inuse_def by (intro card_mono) auto
  also have "\<dots> \<le> inuse s + card (fst ` set ws)" unfolding inuse_def by (rule card_Un_le)
  also have "card (fst ` set ws) \<le> length ws" by (metis card_image_le card_length le_trans List.finite_set)
  finally show ?thesis by simp
qed

lemma recover_ok:
  fixes s :: "'z lmach_scheme"
  assumes rb: "rebooted p s" and g: "log_geom s" and hd: "head_ok s (disk s (unat (log_start (lg s))))"
  shows "\<exists>t. recover_from_log s = Ok () t \<and> calm p t \<and> cinv t \<and> blocked t = (\<lambda>_. False) \<and>
    refs t = upds (recovery_refs s) (\<lambda>_. 0) \<and>
    disk t = (upds (recovery_writes s) (disk s))(unat (log_start (lg s)) := erased (disk s (unat (log_start (lg s)))))"
proof -
  let ?k = "log_start (lg s)"
  let ?d = "disk s (unat ?k)"
  let ?n = "nat (hb_n ?d)"
  have c: "calm p s" "cinv s" and r0: "refs s = (\<lambda>_. 0)" "blocked s = (\<lambda>_. False)" using rb by (auto simp: rebooted_def)
  have cd: "content s = (\<lambda>k. disk s (unat k))" by (rule ext) (simp add: content_unref [OF c(2)] r0)
  have fr: "fresh s k" if "unat k < 2 ^ 31" for k using that by (simp add: fresh_def r0)
  have iu: "inuse s = 0" by (simp add: inuse_def r0)
  have nb: "NBUF = LOGSIZE" "0 < NBUF" by (simp_all add: NBUF_def LOGSIZE_def MAXOPBLOCKS_def)
  have n: "?n \<le> LOGSIZE" "?n < NBUF" using hd nb by (simp_all add: head_ok_def)
  have k31: "unat ?k < 2 ^ 31" using g by (simp add: log_geom_def)
  obtain t where t: "read_head s = Ok () t" "goes (set_lg (loaded ?d) s) t (refs s) (content s) (disk s) (dhist s)"
    using read_head_ok [OF c g fr [OF k31]] iu nb n by (auto simp: cd)
  let ?s = "set_lg (loaded ?d) s"
  have st: "bstate ?s t" and e: "refs t = refs s" "blocked t = blocked s" "content t = content s" "disk t = disk s"
    using t(2) by (auto simp: goes_def)
  have ct: "calm p t" "cinv t" using bstate_calm [OF st] bstate_cinv [OF st] c by simp_all
  note nm = log_names [OF st]
  have th: "length (take_head ?n 0 ?d (lh_block (log_lh (lg s)))) = LOGSIZE"
      "j < ?n \<Longrightarrow> take_head ?n 0 ?d (lh_block (log_lh (lg s))) ! j = hb_block ?d j" for j
    using take_head_nth [of 0 ?n "lh_block (log_lh (lg s))" ?d] rb n(1) by (auto simp: rebooted_def)
  have nt: "nlog t = ?n" "log_geom t" "log_area t = log_area s" "logb t = logb s" "lg t = loaded ?d (lg s)"
    using g th(1) by (simp_all add: nm nlog_def log_geom_def log_area_def logb_def fun_eq_iff loaded_def
        lg_bstate [OF st])
  have hb: "homeb t j = hb_block ?d j" if "j < ?n" for j using th(2) [OF that] by (simp add: homeb_def nt(5) loaded_def)
  have ho: "homes_ok t (0 + ?n)"
    using hd n(1) hb by (auto simp: homes_ok_def head_ok_def nt(3) inj_on_def)
  have ft: "fresh t = fresh s" "inuse t = 0" using iu by (simp_all add: fresh_def inuse_def fun_eq_iff e)
  have "fresh t (logb t j) \<and> fresh t (homeb t j)" if "j < 0 + ?n" for j
    using that n fr logb_bound [OF nt(2), of j] ho by (auto simp: ft homes_ok_def)
  then obtain u where u: "install_trans_loop 0 ?n t = Ok () u"
      and go: "goes t u (upds (home_refs t 0 ?n) (refs t)) (upds (home_writes t 0 ?n) (content t))
        (upds (at_nat (home_writes t 0 ?n)) (disk t)) (rev (at_nat (home_writes t 0 ?n)) @ dhist t)"
    using install_loop_ok [OF ct nt(2) ho] n(2) by (auto simp: install_room_def ft)
  have hr: "home_refs t 0 ?n = recovery_refs s"
    unfolding home_refs_def recovery_refs_def Let_def using hb by (simp add: e r0 unpinned_def)
  have hw: "at_nat (home_writes t 0 ?n) = recovery_writes s"
    unfolding home_writes_def recovery_writes_def at_nat_def Let_def using hb by (simp add: e cd nt(4))
  let ?z = "\<lambda>l. l\<lparr>log_lh := (log_lh l)\<lparr>lh_n := 0\<rparr>\<rparr>"
  let ?u = "set_lg ?z u"
  have tu: "bstate t u" and f: "refs u = upds (recovery_refs s) (refs s)" "blocked u = blocked s"
      "content u = upds (home_writes t 0 ?n) (content s)" "disk u = upds (recovery_writes s) (disk s)"
    using go by (auto simp: goes_def hr hw e)
  have cu: "calm p ?u" "cinv ?u" using bstate_calm [OF tu ct(1)] bstate_cinv [OF tu] by simp_all
  have "hb_block ?d j \<noteq> ?k" if "j < ?n" for j
    using homeb_start [OF ho, of j] hb [OF that] that by (simp add: nt(5) loaded_def)
  then have kd: "?k \<notin> hb_block ?d ` {0..<?n}" by fastforce
  have "fst ` set (home_writes t 0 ?n) = hb_block ?d ` {0..<?n}" "fst ` set (recovery_refs s) = hb_block ?d ` {0..<?n}"
    using hb by (simp_all add: home_writes_def recovery_refs_def Let_def image_image)
  with kd have ku: "?k \<notin> fst ` set (home_writes t 0 ?n)" "?k \<notin> fst ` set (recovery_refs s)" by simp_all
  have lu: "log_start (lg ?u) = ?k" "log_geom ?u" "lh_n (log_lh (lg ?u)) = 0" "nlog ?u = 0"
    using nt(2) by (simp_all add: lg_bstate [OF tu] nt(5) loaded_def log_geom_def nlog_def)
  have lk: "log_start (lg u) = ?k" using lu(1) by simp
  have "length (recovery_refs s) = ?n" by (simp add: recovery_refs_def Let_def)
  then have iuu: "inuse ?u < NBUF"
    using inuse_upds [of u "recovery_refs s" s] f(1) iu n(2) by simp
  have fu: "fresh ?u (log_start (lg ?u))"
    using k31 upds_other [OF ku(2)] by (simp add: fresh_def lk f(1,2) r0)
  have hu: "header ?u = erased ?d"
    using upds_other [OF ku(1)] by (simp add: header_def lk lu(4) erased_def f(3) cd)
  obtain v where v: "write_head ?u = Ok () v" "goes ?u v (refs ?u) ((content ?u)(?k := erased ?d))
      ((disk ?u)(unat ?k := erased ?d)) ((unat ?k, erased ?d) # dhist ?u)"
    using write_head_ok [OF cu lu(2) fu iuu] unfolding lu(1,3,4) hu by auto
  have "recover_from_log s = Ok () v"
    using t(1) u v(1) nt(1) by (simp add: recover_from_log_def install_trans_def nlog_def set_lh_set_lg)
  moreover have "calm p v" "cinv v" using v(2) bstate_calm [OF _ cu(1)] bstate_cinv by (auto simp: goes_def)
  ultimately show ?thesis using v(2) f r0 by (auto simp: goes_def)
qed

section \<open>Commit\<close>

text \<open>
  What commit relies on: the logged blocks are pinned and unlocked, and one buffer is free for the blocks
  of the log.
\<close>

definition commit_ready :: "nat \<Rightarrow> 'z lmach_scheme \<Rightarrow> bool" where
  "commit_ready p s \<longleftrightarrow> calm p s \<and> cinv s \<and> log_geom s \<and> 0 < lh_n (log_lh (lg s)) \<and> homes_ok s (nlog s) \<and>
     inuse s < NBUF \<and> fresh s (log_start (lg s)) \<and>
     (\<forall>j<nlog s. fresh s (logb s j) \<and> fresh s (homeb s j) \<and> refs s (homeb s j) \<noteq> 0)"

definition commit_writes :: "'z lmach_scheme \<Rightarrow> (nat \<times> byte list) list" where
  "commit_writes s = at_nat (log_writes s 0 (nlog s)) @ [(unat (log_start (lg s)), header s)] @
     map (\<lambda>j. (unat (homeb s j), content s (homeb s j))) [0..<nlog s] @
     [(unat (log_start (lg s)), erased (header s))]"

lemma fst_log_writes: "fst ` set (log_writes s 0 n) = logb s ` {0..<n}"
  by (simp add: log_writes_def image_image)

lemma start_not_log: "log_geom s \<Longrightarrow> n \<le> LOGSIZE \<Longrightarrow> log_start (lg s) \<notin> logb s ` {0..<n}"
  using logb_start by (metis imageE atLeastLessThan_iff order_less_le_trans)

lemma start_not_home: "homes_ok s n \<Longrightarrow> log_start (lg s) \<notin> homeb s ` {0..<n}"
  using homeb_start by (metis imageE atLeastLessThan_iff)

lemma commit_readyD:
  assumes "commit_ready p s"
  shows "calm p s" "cinv s" "log_geom s" "homes_ok s (nlog s)" "inuse s < NBUF" "fresh s (log_start (lg s))"
    "0 < lh_n (log_lh (lg s))" "nlog s \<le> LOGSIZE"
    "j < nlog s \<Longrightarrow> fresh s (logb s j)" "j < nlog s \<Longrightarrow> fresh s (homeb s j)" "j < nlog s \<Longrightarrow> refs s (homeb s j) \<noteq> 0"
  using assms by (auto simp: commit_ready_def homes_ok_def)

text \<open>The state after the header has been written, the commit point.\<close>

definition logged :: "'z lmach_scheme \<Rightarrow> 'z lmach_scheme \<Rightarrow> bool" where
  "logged s t \<longleftrightarrow> goes s t (refs s) ((upds (log_writes s 0 (nlog s)) (content s))(log_start (lg s) := header s))
     (upds (at_nat (log_writes s 0 (nlog s)) @ [(unat (log_start (lg s)), header s)]) (disk s))
     (rev (at_nat (log_writes s 0 (nlog s)) @ [(unat (log_start (lg s)), header s)]) @ dhist s)"

lemma commit_log_part:
  fixes s :: "'z lmach_scheme"
  assumes cr: "commit_ready p s"
  shows "\<exists>t u. write_log s = Ok () t \<and> write_head t = Ok () u \<and> logged s u"
proof -
  note c = commit_readyD [OF cr]
  obtain t where t: "write_log_loop 0 (nlog s) s = Ok () t" "goes s t (refs s) (upds (log_writes s 0 (nlog s)) (content s))
      (upds (at_nat (log_writes s 0 (nlog s))) (disk s)) (rev (at_nat (log_writes s 0 (nlog s))) @ dhist s)"
    using write_log_loop_ok [OF c(1-3) _ c(5), of 0 "nlog s"] c(4,9-11) by auto
  have st: "bstate s t" and e: "refs t = refs s" "blocked t = blocked s" using t(2) by (auto simp: goes_def)
  have lt: "lg t = lg s" by (rule lg_bstate [OF st])
  have h: "header t = header s"
    using t(2) upds_other [of "log_start (lg s)" "log_writes s 0 (nlog s)"] start_not_log [OF c(3,8)]
    by (simp add: header_def nlog_def lt goes_def fst_log_writes)
  have f: "fresh t (log_start (lg t))" "inuse t < NBUF" using c(5,6) by (simp_all add: fresh_def inuse_def e lt)
  obtain u where u: "write_head t = Ok () u" "goes t u (refs t) ((content t)(log_start (lg s) := header s))
      ((disk t)(unat (log_start (lg s)) := header s)) ((unat (log_start (lg s)), header s) # dhist t)"
    using write_head_ok [OF bstate_calm [OF st c(1)] bstate_cinv [OF st] _ f] c(3,7,8)
    by (auto simp: log_names [OF st] lt h)
  have "logged s u"
    using t(2) u(2) bstate_trans by (auto simp: goes_def logged_def)
  with t(1) u(1) show ?thesis by (auto simp: write_log_def nlog_def)
qed

definition home_copies :: "'z lmach_scheme \<Rightarrow> (u32 \<times> byte list) list" where
  "home_copies s = map (\<lambda>j. (homeb s j, content s (homeb s j))) [0..<nlog s]"

definition home_unpins :: "'z lmach_scheme \<Rightarrow> (u32 \<times> nat) list" where
  "home_unpins s = map (\<lambda>j. (homeb s j, refs s (homeb s j) - 1)) [0..<nlog s]"

lemma commit_install_part:
  fixes s :: "'z lmach_scheme" and t :: "'z lmach_scheme"
  assumes cr: "commit_ready p s" and lgd: "logged s t"
  shows "\<exists>u. install_trans t = Ok () u \<and> goes t u (upds (home_unpins s) (refs s)) (upds (home_copies s) (content t))
    (upds (at_nat (home_copies s)) (disk t)) (rev (at_nat (home_copies s)) @ dhist t)"
proof -
  note c = commit_readyD [OF cr]
  let ?n = "nlog s"
  have st: "bstate s t" and e: "refs t = refs s" "blocked t = blocked s"
      "content t = (upds (log_writes s 0 ?n) (content s))(log_start (lg s) := header s)"
    using lgd by (auto simp: goes_def logged_def)
  note nm = log_names [OF st]
  have ct: "calm p t" "cinv t" using bstate_calm [OF st c(1)] bstate_cinv [OF st] .
  have "distinct (map fst (log_writes s 0 ?n))"
    using logb_inj [OF c(3)] c(8) by (auto simp: log_writes_def distinct_map inj_on_def comp_def)
  then have cl: "content t (logb s j) = content s (homeb s j)" if "j < ?n" for j
    using upds_distinct [of "log_writes s 0 ?n" "logb s j" "content s (homeb s j)" "content s"] that logb_start [OF c(3), of j] c(8)
    by (auto simp: e(3) log_writes_def)
  have hw: "home_writes t 0 ?n = home_copies s" "home_refs t 0 ?n = home_unpins s"
    using cl c(11) by (auto simp: home_writes_def home_refs_def home_copies_def home_unpins_def nm e(1) unpinned_def)
  have "install_room t 0 ?n" using c(5,11) by (simp add: install_room_def inuse_def e(1) nm)
  moreover have "fresh t = fresh s" by (simp add: fresh_def fun_eq_iff e)
  ultimately have "\<exists>u. install_trans_loop 0 ?n t = Ok () u \<and>
      goes t u (upds (home_refs t 0 ?n) (refs t)) (upds (home_writes t 0 ?n) (content t))
        (upds (at_nat (home_writes t 0 ?n)) (disk t)) (rev (at_nat (home_writes t 0 ?n)) @ dhist t)"
    using c(3,4,9,10) by (intro install_loop_ok [OF ct]) (auto simp: nm)
  then show ?thesis unfolding hw e(1) using nm(3) by (simp add: install_trans_def nlog_def)
qed

lemma fst_home: "fst ` set (home_copies s) = homeb s ` {0..<nlog s}" "fst ` set (home_unpins s) = homeb s ` {0..<nlog s}"
  by (simp_all add: home_copies_def home_unpins_def image_image)

lemma commit_erase_part:
  fixes s :: "'z lmach_scheme" and t :: "'z lmach_scheme" and u :: "'z lmach_scheme"
  assumes cr: "commit_ready p s" and lgd: "logged s t"
    and go: "goes t u (upds (home_unpins s) (refs s)) (upds (home_copies s) (content t)) d h"
  defines "v \<equiv> set_lg (\<lambda>l. l\<lparr>log_lh := (log_lh l)\<lparr>lh_n := 0\<rparr>\<rparr>) u"
  shows "\<exists>w. write_head v = Ok () w \<and> goes v w (refs u) ((content u)(log_start (lg s) := erased (header s)))
    ((disk u)(unat (log_start (lg s)) := erased (header s))) ((unat (log_start (lg s)), erased (header s)) # dhist u) \<and>
    calm p w \<and> nlog w = 0"
proof -
  note c = commit_readyD [OF cr]
  let ?k = "log_start (lg s)"
  have st: "bstate s t" and e: "blocked t = blocked s" "content t ?k = header s"
    using lgd by (auto simp: goes_def logged_def)
  have tu: "bstate t u" using go by (simp add: goes_def)
  have su: "bstate s u" by (rule bstate_trans [OF st tu])
  have lu: "lg u = lg s" by (rule lg_bstate [OF su])
  have gv: "log_geom v" "nlog v = 0" "log_start (lg v) = ?k" "lh_n (log_lh (lg v)) = 0"
    using c(3) by (simp_all add: log_geom_def nlog_def lu v_def)
  note kh = start_not_home [OF c(4)]
  have "content u ?k = header s"
    using go kh e(2) upds_other [of ?k "home_copies s"] by (simp add: goes_def fst_home)
  then have hv: "header v = erased (header s)" unfolding header_def gv by (simp add: erased_def v_def)
  have ru: "refs u = upds (home_unpins s) (refs s)" using go by (simp add: goes_def)
  have "refs u ?k = refs s ?k" using kh upds_other [of ?k "home_unpins s"] by (simp add: ru fst_home)
  then have fv: "fresh v (log_start (lg v))"
    unfolding gv using c(6) go e(1) by (simp add: fresh_def goes_def v_def)
  have "refs s k \<noteq> 0" if "refs u k \<noteq> 0" for k
    using that c(11) upds_other [of k "home_unpins s" "refs s"] by (cases "k \<in> homeb s ` {0..<nlog s}") (auto simp: ru fst_home)
  then have iv: "inuse v < NBUF" using inuse_mono [of u s] c(5) by (simp add: v_def)
  have cv: "calm p v" "cinv v" using bstate_calm [OF su c(1)] bstate_cinv [OF su] by (simp_all add: v_def)
  obtain w where w: "write_head v = Ok () w" "goes v w (refs v) ((content v)(?k := erased (header s)))
      ((disk v)(unat ?k := erased (header s))) ((unat ?k, erased (header s)) # dhist v)"
    using write_head_ok [OF cv gv(1) fv iv] unfolding gv hv by auto
  have vw: "bstate v w" using w(2) by (simp add: goes_def)
  then have "nlog w = 0" "calm p w" using gv(2) log_names(3) [OF vw] bstate_calm [OF vw cv(1)] by simp_all
  with w show ?thesis by (auto simp: v_def)
qed

lemma commit_ok:
  fixes s :: "'z lmach_scheme"
  assumes cr: "commit_ready p s"
  shows "\<exists>t. commit s = Ok () t \<and> calm p t \<and> cinv t \<and> dhist t = rev (commit_writes s) @ dhist s \<and>
    disk t = upds (commit_writes s) (disk s) \<and> nlog t = 0 \<and> blocked t = blocked s \<and>
    refs t = upds (home_unpins s) (refs s) \<and> (\<forall>k. unat k \<notin> log_area s \<longrightarrow> content t k = content s k)"
proof -
  note c = commit_readyD [OF cr]
  obtain t1 t where t: "write_log s = Ok () t1" "write_head t1 = Ok () t" "logged s t" using commit_log_part [OF cr] by blast
  obtain u where u: "install_trans t = Ok () u" "goes t u (upds (home_unpins s) (refs s)) (upds (home_copies s) (content t))
    (upds (at_nat (home_copies s)) (disk t)) (rev (at_nat (home_copies s)) @ dhist t)"
    using commit_install_part [OF cr t(3)] by blast
  let ?k = "log_start (lg s)" and ?u = "set_lg (\<lambda>l. l\<lparr>log_lh := (log_lh l)\<lparr>lh_n := 0\<rparr>\<rparr>) u"
  obtain w where w: "write_head ?u = Ok () w" "goes ?u w (refs u) ((content u)(?k := erased (header s)))
    ((disk u)(unat ?k := erased (header s))) ((unat ?k, erased (header s)) # dhist u)" "calm p w" "nlog w = 0"
    using commit_erase_part [OF cr t(3) u(2)] by blast
  have eq: "commit s = Ok () w" using t u(1) w(1) c(7) by (simp add: commit_def set_lh_set_lg)
  have hc: "map (\<lambda>j. (unat (homeb s j), content s (homeb s j))) [0..<nlog s] = at_nat (home_copies s)"
    by (simp add: home_copies_def at_nat_def)
  have "content w k = content s k" if "unat k \<notin> log_area s" for k
  proof -
    have "k \<noteq> ?k" using that by (auto simp: log_area_def)
    moreover have "k \<notin> logb s ` {0..<nlog s}" using that logb_area [OF c(3)] c(8) by force
    ultimately have "content t k = content s k"
      using t(3) upds_other [of k "log_writes s 0 (nlog s)"] by (simp add: logged_def goes_def fst_log_writes)
    then have "upds (home_copies s) (content t) k = content s k"
      using upds_const [of k "home_copies s" "content t"] by (auto simp: home_copies_def)
    with \<open>k \<noteq> ?k\<close> show ?thesis using w(2) u(2) by (simp add: goes_def)
  qed
  moreover have "cinv w" using w(2) bstate_cinv by (auto simp: goes_def)
  ultimately show ?thesis
    using eq w t(3) u(2) by (auto simp: goes_def logged_def commit_writes_def hc)
qed

section \<open>A crash between two writes\<close>

lemma upds_hit: "a \<in> fst ` set ws \<Longrightarrow> upds ws f a = upds ws g a"
proof (induction ws arbitrary: f g)
  case (Cons w ws)
  show ?case
  proof (cases "a \<in> fst ` set ws")
    case True
    obtain x y where w: "w = (x, y)" by (cases w)
    show ?thesis unfolding w upds_simps by (rule Cons.IH [OF True])
  next
    case False
    with Cons.prems show ?thesis by (cases w) (simp add: upds_other)
  qed
qed simp

lemma upds_again: "upds ws (upds (take m ws) f) a = upds ws f a"
proof (cases "a \<in> fst ` set ws")
  case True
  then show ?thesis by (rule upds_hit)
next
  case False
  then have "a \<notin> fst ` set (take m ws)" by (meson image_mono set_take_subset subsetD)
  with False show ?thesis by (simp add: upds_other)
qed

definition committed :: "'z lmach_scheme \<Rightarrow> nat \<Rightarrow> byte list" where
  "committed s b = (if b \<in> (\<lambda>j. unat (homeb s j)) ` {..<nlog s} then content s (of_nat b) else disk s b)"

lemma fst_at_nat: "fst ` set (at_nat ws) = unat ` fst ` set ws"
  by (force simp: at_nat_def)

lemma upds_home_copies:
  assumes "homes_ok s (nlog s)"
  shows "upds (at_nat (home_copies s)) (disk s) = committed s"
proof
  fix b
  show "upds (at_nat (home_copies s)) (disk s) b = committed s b"
  proof (cases "b \<in> (\<lambda>j. unat (homeb s j)) ` {..<nlog s}")
    case True
    then obtain j where j: "j < nlog s" "b = unat (homeb s j)" by auto
    have "inj_on (\<lambda>j. unat (homeb s j)) {..<nlog s}"
      using assms by (simp add: homes_ok_def inj_on_def word_eq_iff_unat)
    then have "distinct (map fst (at_nat (home_copies s)))"
      by (simp add: at_nat_def home_copies_def distinct_map comp_def inj_on_def)
    moreover have "(b, content s (homeb s j)) \<in> set (at_nat (home_copies s))"
      using j by (auto simp: at_nat_def home_copies_def)
    ultimately show ?thesis using j True by (simp add: upds_distinct committed_def)
  next
    case False
    then have "b \<notin> fst ` set (at_nat (home_copies s))" by (auto simp: fst_at_nat fst_home)
    with False show ?thesis by (simp add: upds_other committed_def)
  qed
qed

lemma log_writes_area:
  assumes "log_geom s" and "nlog s \<le> LOGSIZE" and "b \<notin> log_area s \<or> b = unat (log_start (lg s))"
  shows "b \<notin> fst ` set (at_nat (log_writes s 0 (nlog s)))"
proof
  assume "b \<in> fst ` set (at_nat (log_writes s 0 (nlog s)))"
  then obtain j where j: "j < nlog s" "b = unat (logb s j)" by (auto simp: fst_at_nat fst_log_writes)
  then have "j < LOGSIZE" using assms(2) by simp
  with assms(1,3) j show False using logb_area [of s j] unat_logb [of s j] by auto
qed

text \<open>The three kinds of disk that a crash during a commit leaves.\<close>

lemma crash_before:
  assumes "log_geom s" and "nlog s \<le> LOGSIZE" and "k \<le> nlog s" and "b \<notin> log_area s \<or> b = unat (log_start (lg s))"
  shows "upds (take k (commit_writes s)) (disk s) b = disk s b"
proof -
  have "take k (commit_writes s) = take k (at_nat (log_writes s 0 (nlog s)))"
    using assms(3) by (simp add: commit_writes_def log_writes_def at_nat_def)
  moreover have "b \<notin> fst ` set (take k (at_nat (log_writes s 0 (nlog s))))"
    using log_writes_area [OF assms(1,2,4)] by (meson image_mono set_take_subset subsetD)
  ultimately show ?thesis by (simp add: upds_other)
qed

lemma commit_writes_alt:
  "commit_writes s = at_nat (log_writes s 0 (nlog s)) @ [(unat (log_start (lg s)), header s)] @ at_nat (home_copies s) @
     [(unat (log_start (lg s)), erased (header s))]"
  by (simp add: commit_writes_def home_copies_def at_nat_def)

lemma homes_not_area: "homes_ok s (nlog s) \<Longrightarrow> b \<in> log_area s \<Longrightarrow> b \<notin> fst ` set (at_nat (home_copies s))"
  by (auto simp: fst_at_nat fst_home homes_ok_def)

lemma crash_between:
  assumes cr: "commit_ready p s" and k: "nlog s < k" "k \<le> 2 * nlog s + 1"
  defines "d \<equiv> upds (take k (commit_writes s)) (disk s)"
  shows "d (unat (log_start (lg s))) = header s" "j < nlog s \<Longrightarrow> d (unat (logb s j)) = content s (homeb s j)"
    "b \<notin> log_area s \<Longrightarrow> \<exists>m. d b = upds (take m (at_nat (home_copies s))) (disk s) b"
proof -
  note c = commit_readyD [OF cr]
  let ?L = "at_nat (log_writes s 0 (nlog s))" and ?H = "at_nat (home_copies s)" and ?k = "unat (log_start (lg s))"
  let ?m = "k - nlog s - 1"
  have len: "length ?L = nlog s" "length ?H = nlog s" by (simp_all add: at_nat_def log_writes_def home_copies_def)
  have d: "d = upds (take ?m ?H) ((upds ?L (disk s))(?k := header s))"
    using k len by (simp add: d_def commit_writes_alt take_Cons')
  have nh: "b \<notin> fst ` set (take ?m ?H)" if "b \<in> log_area s" for b
    using homes_not_area [OF c(4) that] by (meson image_mono set_take_subset subsetD)
  show "d ?k = header s" using nh [of ?k] by (simp add: d upds_other log_area_def)
  show "d (unat (logb s j)) = content s (homeb s j)" if j: "j < nlog s"
  proof -
    have jl: "j < LOGSIZE" using j c(8) by simp
    have inj: "inj_on (\<lambda>j. unat (logb s j)) {0..<nlog s}"
      using logb_inj [OF c(3)] c(8) by (simp add: inj_on_def word_eq_iff_unat)
    then have "distinct (map fst ?L)" by (simp add: at_nat_def log_writes_def distinct_map comp_def inj_on_def)
    moreover have "(unat (logb s j), content s (homeb s j)) \<in> set ?L"
      using j by (force simp: at_nat_def log_writes_def)
    ultimately have "upds ?L (disk s) (unat (logb s j)) = content s (homeb s j)" by (rule upds_distinct)
    moreover have "unat (logb s j) \<noteq> ?k" using unat_logb [OF c(3) jl] by simp
    ultimately show ?thesis using nh [OF logb_area [OF c(3) jl]] by (simp add: d upds_other)
  qed
  show "\<exists>m. d b = upds (take m ?H) (disk s) b" if b: "b \<notin> log_area s"
  proof (cases "b \<in> fst ` set (take ?m ?H)")
    case True
    then show ?thesis unfolding d by (metis upds_hit)
  next
    case False
    then have "d b = disk s b"
      using log_writes_area [OF c(3,8), of b] b by (auto simp: d upds_other log_area_def)
    then show ?thesis by (intro exI [of _ 0]) simp
  qed
qed

lemma crash_after:
  assumes cr: "commit_ready p s" and k: "2 * nlog s + 1 < k"
  defines "d \<equiv> upds (take k (commit_writes s)) (disk s)"
  shows "d (unat (log_start (lg s))) = erased (header s)" "b \<notin> log_area s \<Longrightarrow> d b = committed s b"
proof -
  note c = commit_readyD [OF cr]
  let ?L = "at_nat (log_writes s 0 (nlog s))" and ?H = "at_nat (home_copies s)" and ?k = "unat (log_start (lg s))"
  have "length (commit_writes s) \<le> k" using k by (simp add: commit_writes_def at_nat_def log_writes_def)
  then have d: "d = (upds ?H ((upds ?L (disk s))(?k := header s)))(?k := erased (header s))"
    by (simp add: d_def commit_writes_alt)
  then show "d ?k = erased (header s)" by simp
  show "d b = committed s b" if b: "b \<notin> log_area s"
  proof -
    have "b \<noteq> ?k" using b by (auto simp: log_area_def)
    then have "((upds ?L (disk s))(?k := header s)) b = disk s b"
      using log_writes_area [OF c(3,8), of b] b by (simp add: upds_other)
    then have "upds ?H ((upds ?L (disk s))(?k := header s)) b = upds ?H (disk s) b"
      by (cases "b \<in> fst ` set ?H") (auto simp: upds_other intro: upds_hit)
    then show ?thesis using \<open>b \<noteq> ?k\<close> by (simp add: d upds_home_copies [OF c(4)])
  qed
qed

section \<open>Booting\<close>

definition log_init :: "u32 \<Rightarrow> u32 \<Rightarrow> 'z lmach_scheme \<Rightarrow> 'z lmach_scheme" where
  "log_init st nl r =
     set_lg (\<lambda>l. l\<lparr>log_start := st, log_size := sint nl, log_dev := rdev\<rparr>) (initlock LogLock ''log'' r)"

lemma initlock_abs [simp]:
  fixes s :: "'z bmach_scheme"
  shows "refs (initlock lk nm s) = refs s" "blocked (initlock lk nm s) = blocked s" "cinv (initlock lk nm s) = cinv s"
    "disk (initlock lk nm s) = disk s"
proof -
  have e: "bufs (initlock lk nm s) = bufs s" "slocks (initlock lk nm s) = slocks s" by (simp_all add: initlock_def)
  show d: "disk (initlock lk nm s) = disk s" by (simp add: initlock_def)
  show "refs (initlock lk nm s) = refs s" by (rule ext) (simp only: refs_def e)
  show "blocked (initlock lk nm s) = blocked s" by (rule ext) (simp only: blocked_def caches_def e)
  show "cinv (initlock lk nm s) = cinv s" by (simp only: cinv_def buf_ok_def clean_def e d)
qed

lemma calm_initlock: "calm p s \<Longrightarrow> calm p (initlock lk nm s)"
  using lock_free_initlock [of _ s lk nm] by (auto simp: calm_def intr_ok_def) (simp_all add: initlock_def mycpu_def cpuid_def)

lemma log_init_facts:
  fixes r :: "'z lmach_scheme"
  assumes "rebooted q r" and "unat st + LOGSIZE < 2 ^ 31"
  shows "initlog rdev st nl r = recover_from_log (log_init st nl r)" "rebooted q (log_init st nl r)"
    "log_geom (log_init st nl r)" "disk (log_init st nl r) = disk r" "log_start (lg (log_init st nl r)) = st"
    "log_area (log_init st nl r) = {unat st .. unat st + LOGSIZE}" "logb (log_init st nl r) j = st + of_nat j + 1"
proof -
  have l: "lg (initlock LogLock ''log'' r) = lg r" by (simp add: initlock_def)
  show "initlog rdev st nl r = recover_from_log (log_init st nl r)"
    by (simp add: initlog_def log_init_def Let_def BSIZE_def LOGSIZE_def MAXOPBLOCKS_def)
  show "rebooted q (log_init st nl r)"
    using assms(1) by (simp add: rebooted_def log_init_def calm_initlock l)
  show "log_geom (log_init st nl r)" using assms by (simp add: log_geom_def log_init_def l rebooted_def)
  show "disk (log_init st nl r) = disk r" "log_start (lg (log_init st nl r)) = st"
    "log_area (log_init st nl r) = {unat st .. unat st + LOGSIZE}" "logb (log_init st nl r) j = st + of_nat j + 1"
    by (simp_all add: log_init_def log_area_def logb_def)
qed

lemma initlog_ok:
  fixes r :: "'z lmach_scheme"
  assumes rb: "rebooted q r" and st: "unat st + LOGSIZE < 2 ^ 31" and hd: "head_ok (log_init st nl r) (disk r (unat st))"
  shows "\<exists>u. initlog rdev st nl r = Ok () u \<and> calm q u \<and> cinv u \<and> blocked u = (\<lambda>_. False) \<and>
    refs u = upds (recovery_refs (log_init st nl r)) (\<lambda>_. 0) \<and>
    disk u = (upds (recovery_writes (log_init st nl r)) (disk r))(unat st := erased (disk r (unat st)))"
proof -
  note f = log_init_facts [OF rb st, of nl]
  show ?thesis using recover_ok [OF f(2,3)] hd unfolding f(1,4,5) by blast
qed

lemma recover_crash:
  fixes s :: "'z lmach_scheme" and r :: "'z lmach_scheme"
  assumes cr: "commit_ready p s" and nb: "nlog s < NBUF" and h0: "hb_n (disk s (unat (log_start (lg s)))) = 0"
    and rb: "rebooted q r" and dk: "disk r = upds (take k (commit_writes s)) (disk s)"
  shows "\<exists>u. initlog rdev (log_start (lg s)) nl r = Ok () u \<and> hb_n (disk u (unat (log_start (lg s)))) = 0 \<and>
    (\<forall>b. b \<notin> log_area s \<longrightarrow> disk u b = (if k \<le> nlog s then disk s b else committed s b))"
proof -
  note c = commit_readyD [OF cr]
  let ?st = "log_start (lg s)" and ?r = "log_init (log_start (lg s)) nl r"
  let ?d = "disk r (unat ?st)"
  have s31: "unat ?st + LOGSIZE < 2 ^ 31" using c(3) by (simp add: log_geom_def)
  note f = log_init_facts [OF rb s31, of nl]
  have ar: "log_area ?r = log_area s" unfolding f(6) unfolding log_area_def ..
  have len: "length ?d = BSIZE" using rb by (simp add: rebooted_def cinv_def)
  have kb: "b \<noteq> unat ?st" if "b \<notin> log_area s" for b using that by (auto simp: log_area_def)
  have fin: "\<exists>u. initlog rdev ?st nl r = Ok () u \<and> hb_n (disk u (unat ?st)) = 0 \<and>
      (\<forall>b. b \<notin> log_area s \<longrightarrow> disk u b = upds (recovery_writes ?r) (disk r) b)" if "head_ok ?r ?d"
    using initlog_ok [OF rb s31 that] erased_fields [OF len] kb by fastforce
  show ?thesis
  proof (cases "nlog s < k \<and> k \<le> 2 * nlog s + 1")
    case True
    note b = crash_between [OF cr conjunct1 [OF True] conjunct2 [OF True], folded dk]
    have h: "hb_n ?d = lh_n (log_lh (lg s))" "j < nlog s \<Longrightarrow> hb_block ?d j = homeb s j" for j
      using header_fields(2,3) [OF c(2) _ c(8)] c(7) by (simp_all add: b(1))
    have n: "nat (hb_n ?d) = nlog s" by (simp add: h nlog_def)
    have "0 \<le> hb_n ?d" using h(1) c(7) by simp
    then have "head_ok ?r ?d"
      unfolding head_ok_def n ar using nb c(4) h(2) by (auto simp: homes_ok_def inj_on_def)
    moreover have rw: "recovery_writes ?r = at_nat (home_copies s)"
      using b(2) h(2) by (simp add: recovery_writes_def f(4,5,7) n home_copies_def at_nat_def Let_def logb_def [of s])
    have "upds (recovery_writes ?r) (disk r) b = committed s b" if nb: "b \<notin> log_area s" for b
    proof -
      obtain m where "disk r b = upds (take m (at_nat (home_copies s))) (disk s) b" using b(3) [OF nb] by blast
      then have "upds (at_nat (home_copies s)) (disk r) b = upds (at_nat (home_copies s)) (disk s) b"
        by (cases "b \<in> fst ` set (at_nat (home_copies s))") (metis upds_hit, metis upds_other upds_again)
      then show ?thesis by (simp add: rw upds_home_copies [OF c(4)])
    qed
    ultimately show ?thesis using fin True by auto
  next
    case False
    have "hb_n ?d = 0 \<and> (\<forall>b. b \<notin> log_area s \<longrightarrow> disk r b = (if k \<le> nlog s then disk s b else committed s b))"
    proof (cases "k \<le> nlog s")
      case True
      then show ?thesis using crash_before [OF c(3,8) True, folded dk] h0 by auto
    next
      case k: False
      then have "2 * nlog s + 1 < k" using False by simp
      note a = crash_after [OF cr this, folded dk]
      have "length (header s) = BSIZE" using header_fields(1) [OF c(2) _ c(8)] c(7) by simp
      then show ?thesis using a k erased_fields by auto
    qed
    moreover from this have "head_ok ?r ?d" "recovery_writes ?r = []"
      by (simp_all add: head_ok_def recovery_writes_def f NBUF_def MAXOPBLOCKS_def)
    ultimately show ?thesis using fin by auto
  qed
qed

end
