(* ===== verification/Log_Tx.thy ===== *)
theory Log_Tx
  imports Log_Crash
begin

text \<open>
  Transactions: what log_write records, and the properties of the log as a whole.
\<close>

definition logged_blocks :: "'z lmach_scheme \<Rightarrow> u32 list" where
  "logged_blocks s = take (nlog s) (lh_block (log_lh (lg s)))"

section \<open>Nested critical sections\<close>

text \<open>A section of the cache inside a section of the log restores the state but for its own update.\<close>

lemma nested_section:
  fixes u :: "'z bmach_scheme"
  assumes "lock_free lk u" and "intr_ok u" and "note_intena u = u"
  shows "bnd (acquire lk u) (\<lambda>_ s. release lk (set_buf b f s)) = Ok () (set_buf b f u)"
proof -
  have "release lk (set_buf b f (enter lk u)) =
      Ok () ((set_buf b f (enter lk u))\<lparr>sie := sie u, cpus := cpus (note_intena u), locks := locks u\<rparr>)"
    by (rule release_enter [OF assms(1,2)]) (simp_all add: set_buf_def)
  also have "(set_buf b f (enter lk u))\<lparr>sie := sie u, cpus := cpus (note_intena u), locks := locks u\<rparr> = set_buf b f u"
    unfolding assms(3) by (rule bmach.equality) (simp_all add: set_buf_def enter_def push_off_def cpu_defs Let_def)
  finally show ?thesis by (simp add: acquire_free [OF assms(1)])
qed

lemma set_lg_mach [simp]:
  fixes s :: "'z lmach_scheme"
  shows "intr_ok (set_lg f s) = intr_ok s" "lock_free lk (set_lg f s) = lock_free lk s"
    "note_intena (set_lg f s) = set_lg f (note_intena s)" "same_mach u (set_lg f s) = same_mach u s"
    "cpus (set_lg f s) = cpus s"
  by (simp_all add: set_lg_def intr_ok_def lock_free_def note_intena_def cpu_defs same_mach_def)

lemma absorb_index_find:
  "absorb_index i n k bl = i + length (takeWhile (\<lambda>x. x \<noteq> k) (take n (drop i bl)))" if "i + n \<le> length bl"
  using that
proof (induction n arbitrary: i)
  case (Suc n)
  then have "drop i bl = bl ! i # drop (Suc i) bl" by (simp add: Cons_nth_drop_Suc)
  with Suc show ?case by simp
qed simp

lemma takeWhile_short: "x \<in> set xs \<Longrightarrow> \<not> P x \<Longrightarrow> length (takeWhile P xs) < length xs"
  by (induction xs) auto

lemma absorb_index_eq:
  assumes "n \<le> length bl"
  shows "absorb_index 0 n k bl = n \<longleftrightarrow> k \<notin> set (take n bl)"
    "k \<in> set (take n bl) \<Longrightarrow> absorb_index 0 n k bl < n \<and> bl ! absorb_index 0 n k bl = k"
proof -
  let ?w = "takeWhile (\<lambda>x. x \<noteq> k) (take n bl)"
  have e: "absorb_index 0 n k bl = length ?w" using absorb_index_find [of 0 n bl k] assms by simp
  have le: "length ?w \<le> n" using length_takeWhile_le [of "\<lambda>x. x \<noteq> k" "take n bl"] assms by simp
  have hit: "length ?w < n \<and> bl ! length ?w = k" if "k \<in> set (take n bl)"
  proof -
    have "length ?w < length (take n bl)"
      using that by (rule takeWhile_short) simp
    moreover from nth_length_takeWhile [OF this] have "take n bl ! length ?w = k" by simp
    ultimately show ?thesis by simp
  qed
  then show "k \<in> set (take n bl) \<Longrightarrow> absorb_index 0 n k bl < n \<and> bl ! absorb_index 0 n k bl = k" by (simp add: e)
  have "length ?w = n" if "k \<notin> set (take n bl)"
  proof -
    have "?w = take n bl" unfolding takeWhile_eq_all_conv using that by blast
    then have "length ?w = length (take n bl)" by (rule arg_cong)
    then show ?thesis using assms by simp
  qed
  with hit show "absorb_index 0 n k bl = n \<longleftrightarrow> k \<notin> set (take n bl)" by (auto simp: e)
qed

section \<open>Recording a block\<close>

definition tx_open :: "'z lmach_scheme \<Rightarrow> bool" where
  "tx_open s \<longleftrightarrow> 1 \<le> log_outstanding (lg s) \<and> 0 \<le> lh_n (log_lh (lg s)) \<and> lh_n (log_lh (lg s)) < int LOGSIZE \<and>
     lh_n (log_lh (lg s)) < log_size (lg s) - 1 \<and> length (lh_block (log_lh (lg s))) = LOGSIZE"

definition record_block :: "u32 \<Rightarrow> log \<Rightarrow> log" where
  "record_block n l =
     (let h = log_lh l; k = nat (lh_n h)
      in if n \<in> set (take k (lh_block h)) then l
         else l\<lparr>log_lh := h\<lparr>lh_n := lh_n h + 1, lh_block := (lh_block h)[k := n]\<rparr>\<rparr>)"

lemma release_log:
  fixes s :: "'z lmach_scheme"
  assumes "calm p s"
  shows "\<exists>t. release LogLock (set_lg f (set_buf b g (enter LogLock s))) = Ok () t \<and> same_mach s t \<and> slocks t = slocks s \<and>
    bufs t = (bufs s)(b := g (bufs s b)) \<and> brest t = brest (set_lg f s)"
proof -
  let ?u = "set_lg f (set_buf b g (enter LogLock s))"
  have "same_mach (enter LogLock s) ?u" "cpus ?u = cpus (enter LogLock s)" by (auto simp: set_buf_def)
  from release_bufs [OF assms this]
  obtain t where t: "release LogLock ?u = Ok () t" "same_mach s t" "slocks t = slocks ?u" "bufs t = bufs ?u" "brest t = brest ?u"
    by blast
  have "brest ?u = brest (set_lg f s)" 
    by (cases s) (simp add: brest_def set_lg_def set_buf_def enter_def push_off_def cpu_defs Let_def)
  with t show ?thesis by (auto simp: set_buf_def)
qed

lemma log_write_eq:
  fixes s :: "'z lmach_scheme"
  assumes "calm p s" and "tx_open s" and "b_blockno (bufs s b) = n"
  shows "log_write b s = release LogLock (set_lg (record_block n)
    (set_buf b (\<lambda>x. if n \<in> set (logged_blocks s) then x else x\<lparr>b_refcnt := b_refcnt x + 1\<rparr>) (enter LogLock s)))"
proof -
  let ?h = "log_lh (lg s)"
  let ?k = "nat (lh_n ?h)"
  have lg: "lg (enter LogLock s) = lg s" by (simp add: enter_def push_off_def cpu_defs Let_def)
  have le: "?k \<le> length (lh_block ?h)" "\<not> (lh_n ?h \<ge> int LOGSIZE \<or> lh_n ?h \<ge> log_size (lg s) - 1)" "\<not> log_outstanding (lg s) < 1"
    using assms(2) by (auto simp: tx_open_def)
  note ix = absorb_index_eq [OF le(1), of n]
  let ?i = "absorb_index 0 ?k n (lh_block ?h)"
  let ?t = "set_lh (\<lambda>h. h\<lparr>lh_block := (lh_block h)[?i := n]\<rparr>) (enter LogLock s)"
  have lb: "logged_blocks s = take ?k (lh_block ?h)" by (simp add: logged_blocks_def nlog_def)
  have eq: "log_write b s = (if ?i = ?k
      then bnd (bpin b ?t) (\<lambda>_ s. release LogLock (set_lh (\<lambda>h. h\<lparr>lh_n := lh_n h + 1\<rparr>) s)) else release LogLock ?t)"
    unfolding log_write_def acquire_free [OF calmD(3) [OF assms(1)]] bnd.simps Let_def lg bufs_enter assms(3)
    using le(2,3) by simp
  show ?thesis
  proof (cases "n \<in> set (take ?k (lh_block ?h))")
    case True
    have "(lh_block ?h)[?i := n] = lh_block ?h"
      using ix(2) [OF True] le(1) by (simp add: list_update_same_conv)
    then have "?t = enter LogLock s" by (simp add: set_lh_set_lg set_lg_def lg)
    moreover have "set_lg (record_block n) (set_buf b (\<lambda>x. x) (enter LogLock s)) = enter LogLock s"
      using True by (simp add: set_lg_def record_block_def Let_def lg set_buf_def)
    ultimately show ?thesis unfolding eq lb using True ix(1) by simp
  next
    case False
    let ?u = "set_lh (\<lambda>h. h\<lparr>lh_block := (lh_block h)[?k := n]\<rparr>) (enter LogLock s)"
    have u: "lock_free BcacheLock ?u" "intr_ok ?u" "note_intena ?u = ?u"
      using enter_ok(1,2) [OF assms(1), of LogLock] enter_ok(4) [OF assms(1), of BcacheLock LogLock]
      by (simp_all add: set_lh_set_lg)
    have "bpin b ?u = Ok () (set_buf b (\<lambda>x. x\<lparr>b_refcnt := b_refcnt x + 1\<rparr>) ?u)"
      unfolding bpin_def by (rule nested_section [OF u])
    moreover have "set_lh (\<lambda>h. h\<lparr>lh_n := lh_n h + 1\<rparr>) (set_buf b f ?u) = set_lg (record_block n) (set_buf b f (enter LogLock s))" for f
      using False by (simp add: set_lh_set_lg set_lg_def set_buf_def record_block_def Let_def lg)
    ultimately show ?thesis unfolding eq lb using False ix(1) by simp
  qed
qed

lemma logged_blocks_record:
  assumes "tx_open s" and "lg t = record_block n (lg s)"
  shows "logged_blocks t = (if n \<in> set (logged_blocks s) then logged_blocks s else logged_blocks s @ [n])"
proof -
  let ?h = "log_lh (lg s)"
  have k: "nat (lh_n ?h) < length (lh_block ?h)" "nat (lh_n ?h + 1) = Suc (nat (lh_n ?h))"
    using assms(1) by (auto simp: tx_open_def)
  have "take (Suc (nat (lh_n ?h))) ((lh_block ?h)[nat (lh_n ?h) := n]) = take (nat (lh_n ?h)) (lh_block ?h) @ [n]"
    using k(1) by (simp add: take_Suc_conv_app_nth)
  then show ?thesis
    using k by (simp add: logged_blocks_def nlog_def assms(2) record_block_def Let_def)
qed

lemma log_write_ok:
  fixes s :: "'z lmach_scheme"
  assumes "calm p s" and "cinv s" and "owned p s b n" and "tx_open s" and "refs s n < 2 ^ 32 - 1"
  shows "\<exists>t. log_write b s = Ok () t \<and> bstate (set_lg (record_block n) s) t \<and> blocked t = blocked s \<and>
    content t = content s \<and> disk t = disk s \<and> dhist t = dhist s \<and> (\<forall>c m. owned p s c m \<longrightarrow> owned p t c m) \<and>
    refs t = (if n \<in> set (logged_blocks s) then refs s else (refs s)(n := refs s n + 1))"
proof -
  let ?in = "n \<in> set (logged_blocks s)" and ?s = "set_lg (record_block n) s"
  let ?g = "\<lambda>x. if ?in then x else x\<lparr>b_refcnt := b_refcnt x + 1\<rparr>"
  have b: "caches s b n" "b_blockno (bufs s b) = n" "b_dev (bufs s b) = rdev" "held p (BufLock b) s"
    using assms(3) by (auto simp: owned_def caches_def)
  obtain t where t: "log_write b s = Ok () t" "same_mach s t" "slocks t = slocks s" "bufs t = (bufs s)(b := ?g (bufs s b))"
      "brest t = brest ?s"
    using release_log [OF assms(1), of "record_block n" b ?g] log_write_eq [OF assms(1,4) b(2)] by auto
  let ?r = "b_refcnt (bufs s b) + (if ?in then 0 else 1)"
  have gr: "?g (bufs s b) = (bufs s b)\<lparr>b_refcnt := ?r\<rparr>" by simp
  have rn: "refs s n = unat (b_refcnt (bufs s b))" by (rule refs_cached [OF assms(2) b(1)])
  then have ur: "unat ?r = refs s n + (if ?in then 0 else 1)"
    using assms(5) unat_add_small [of "b_refcnt (bufs s b)" 1] by simp
  have nz: "?r \<noteq> 0" using ur blocked_refs [OF assms(2) blocked_owned [OF assms(3)]] by (metis add_is_0 unat_0)
  have "binv (bufs t)" unfolding t(4) gr using assms(2) by (intro binv_replace) (simp_all add: cinv_def)
  moreover have "same_mach ?s t" using t(2) by (simp add: same_mach_def set_lg_def)
  ultimately have rc: "recount ?s b ?r t"
    using t(3,5) nz b(3) assms(2) by (intro recountI) (auto simp: t(4) gr)
  have os: "owned p ?s b n" using assms(3) by simp
  have sl: "slocks t (BufLock c) = slocks ?s (BufLock c)" for c by (simp add: t(3))
  note a = recount_abs [OF _ os rc sl]
  have bt: "blocked t = blocked s"
    using a(6) assms(2) blocked_owned [OF assms(3)] b(4) by (simp add: t(3) held_def fun_eq_iff)
  have "owned p t b n" using a(8,9) b(4) assms(2) by (simp add: owned_def held_def t(3) same_mach_proc [OF t(2)])
  then have "owned p t c m" if "owned p s c m" for c m
    using that a(7) [of c m] owned_unique [OF assms(2,3)] assms(2) by (cases "m = n") auto
  moreover have "refs t = (if ?in then refs s else (refs s)(n := refs s n + 1))"
    using a(2) assms(2) by (simp add: ur fun_eq_iff)
  ultimately show ?thesis using t(1) a(1,3-5) assms(2) bt by simp
qed

section \<open>Opening a transaction\<close>

definition admits :: "'z lmach_scheme \<Rightarrow> bool" where
  "admits s \<longleftrightarrow> \<not> log_committing (lg s) \<and>
     lh_n (log_lh (lg s)) + (log_outstanding (lg s) + 1) * int MAXOPBLOCKS \<le> int LOGSIZE"

lemma begin_op_admits:
  fixes s :: "'z lmach_scheme"
  assumes "calm p s" and "admits s"
  shows "\<exists>t. begin_op s = Ok () t \<and> calm p t \<and> lg t = (lg s)\<lparr>log_outstanding := log_outstanding (lg s) + 1\<rparr> \<and>
    slocks t = slocks s \<and> bufs t = bufs s \<and> disk t = disk s \<and> dhist t = dhist s"
proof -
  let ?f = "\<lambda>l. l\<lparr>log_outstanding := log_outstanding l + 1\<rparr>"
  have lg: "lg (enter LogLock s) = lg s" by (simp add: enter_def push_off_def cpu_defs Let_def)
  have "set_buf 0 (\<lambda>x. x) (enter LogLock s) = enter LogLock s" by (simp add: set_buf_def)
  then obtain t where t: "release LogLock (set_lg ?f (enter LogLock s)) = Ok () t" "same_mach s t" "slocks t = slocks s"
      "bufs t = bufs s" "brest t = brest (set_lg ?f s)"
    using release_log [OF assms(1), of ?f 0 "\<lambda>x. x"] by auto
  have "begin_op s = Ok () t"
    using t(1) assms(2) lg
    by (simp add: begin_op_def begin_op_loop_def acquire_free [OF calmD(3) [OF assms(1)]] admits_def)
  moreover have "lg t = ?f (lg s)" using t(5) by (cases s, cases t) (simp add: brest_def set_lg_def)
  moreover have "disk t = disk s" "dhist t = dhist s" using t(5) by (simp_all add: brest_def set_lg_def)
  ultimately show ?thesis using calm_same [OF assms(1) t(2)] t(3,4) by simp
qed

lemma begin_op_waits:
  assumes "calm p s" and "\<not> admits s"
  shows "begin_op s = sleep LogChan LogLock (enter LogLock s)"
proof -
  have lg: "lg (enter LogLock s) = lg s" by (simp add: enter_def push_off_def cpu_defs Let_def)
  show ?thesis
    using assms(2) lg
    by (auto simp: begin_op_def begin_op_loop_def acquire_free [OF calmD(3) [OF assms(1)]] admits_def not_le)
qed

section \<open>An example\<close>

definition log0 :: log where
  "log0 = \<lparr>log_start = 2, log_size = 30, log_outstanding = 1, log_committing = False, log_dev = rdev,
     log_lh = \<lparr>lh_n = 0, lh_block = replicate LOGSIZE 0\<rparr>\<rparr>"

definition lboot :: "(nat \<Rightarrow> byte list) \<Rightarrow> lmach" where
  "lboot d = bmach.extend (busy0\<lparr>disk := d\<rparr>) (lmach.fields log0)"

lemma lboot_simps [simp]:
  "bufs (lboot d) = bufs busy0" "disk (lboot d) = d" "slocks (lboot d) = slocks busy0" "lg (lboot d) = log0"
  by (simp_all add: lboot_def bmach.defs lmach.defs)

lemma busy0_unused: "b_dev (bufs busy0 b) = 0 \<and> b_refcnt (bufs busy0 b) = 0"
proof -
  let ?s = "set_buf bhead (\<lambda>x. x\<lparr>b_prev := bhead, b_next := bhead\<rparr>) (initlock BcacheLock ''bcache''
    (bmach0\<lparr>cpus := (\<lambda>_. \<lparr>cpu_proc = Some 0, cpu_context = kcontext0, noff = 0, intena = False\<rparr>)\<rparr>))"
  have "payload (bufs busy0 b) = payload (bufs ?s b)"
    using binit_loop_frame [of ?s 0 NBUF b] by (simp add: busy0_def binit_def Let_def)
  then show ?thesis by (auto simp: payload_iff buf0_def split: if_splits)
qed

lemma rebooted_lboot:
  assumes "\<And>n. length (d n) = BSIZE"
  shows "rebooted 0 (lboot d)"
proof -
  have nc: "\<not> caches (lboot d) b n" for b n using busy0_unused rdev_nz by (simp add: caches_def)
  have "refs (lboot d) = (\<lambda>_. 0)" by (rule ext) (rule refs_uncached [OF nc])
  moreover have "blocked (lboot d) = (\<lambda>_. False)" by (rule ext) (simp add: blocked_def nc)
  moreover have "cinv (lboot d)"
    using cinv_busy0 assms busy0_unused rdev_nz by (simp add: cinv_def buf_ok_def clean_def)
  moreover have "calm 0 (lboot d)"
    using calm_busy0 by (simp add: lboot_def bmach.defs lmach.defs calm_def intr_ok_def lock_free_def mycpu_def cpuid_def)
  ultimately show ?thesis by (simp add: rebooted_def log0_def)
qed

definition tx0 :: lmach where
  "tx0 = lboot (\<lambda>_. replicate BSIZE 0)"

lemma tx0_facts:
  "calm 0 tx0" "cinv tx0" "refs tx0 = (\<lambda>_. 0)" "blocked tx0 = (\<lambda>_. False)" "lg tx0 = log0" "disk tx0 = (\<lambda>_. replicate BSIZE 0)"
  using rebooted_lboot [of "\<lambda>_. replicate BSIZE 0"] by (simp_all add: tx0_def rebooted_def)

lemma tx0_read:
  "\<exists>b t. bread rdev 50 tx0 = Ok b t \<and> calm 0 t \<and> cinv t \<and> owned 0 t b 50 \<and> lg t = log0 \<and>
    refs t = (\<lambda>_. 0)(50 := 1) \<and> blocked t = (\<lambda>_. False)(50 := True) \<and> disk t = (\<lambda>_. replicate BSIZE 0)"
proof -
  have "readable tx0 50" by (simp add: readable_def tx0_facts NBUF_def MAXOPBLOCKS_def)
  then obtain b t where t: "bread rdev 50 tx0 = Ok b t" "bstate tx0 t" "owned 0 t b 50" "refs t = (refs tx0)(50 := refs tx0 50 + 1)"
      "blocked t = (blocked tx0)(50 := True)" "disk t = disk tx0"
    using bread_abs [OF tx0_facts(1,2)] by blast
  then show ?thesis
    using bstate_calm [OF t(2) tx0_facts(1)] bstate_cinv [OF t(2)] lg_bstate [OF t(2)] by (auto simp: tx0_facts)
qed

text \<open>A transaction that has changed block 50 and is about to commit.\<close>

lemma tx_example:
  "\<exists>b t u s. bread rdev 50 tx0 = Ok b t \<and> log_write b (set_data b (replicate BSIZE 7) t) = Ok () u \<and> brelse b u = Ok () s \<and>
    commit_ready 0 s \<and> nlog s = 1 \<and> homeb s 0 = 50 \<and> content s 50 = replicate BSIZE 7 \<and> log_start (lg s) = 2 \<and>
    disk s = (\<lambda>_. replicate BSIZE 0)"
proof -
  obtain b t where t: "bread rdev 50 tx0 = Ok b t" "calm 0 t" "cinv t" "owned 0 t b 50" "lg t = log0"
      "refs t = (\<lambda>_. 0)(50 := 1)" "blocked t = (\<lambda>_. False)(50 := True)" "disk t = (\<lambda>_. replicate BSIZE 0)"
    using tx0_read by blast
  let ?d = "set_data b (replicate BSIZE 7) t"
  note d = set_data_abs [OF t(3,4), of "replicate BSIZE 7", simplified, folded set_data_def]
  have cd: "calm 0 ?d" "cinv ?d" "owned 0 ?d b 50" using bstate_calm [OF d(1) t(2)] bstate_cinv [OF d(1)] d(7) t(4) by auto
  have tx: "tx_open ?d" "logged_blocks ?d = []"
    by (simp_all add: tx_open_def t(5) log0_def LOGSIZE_def MAXOPBLOCKS_def logged_blocks_def nlog_def)
  have "refs ?d 50 < 2 ^ 32 - 1" by (simp add: d(2) t(6))
  then obtain u where u: "log_write b ?d = Ok () u" "bstate (set_lg (record_block 50) ?d) u" "blocked u = blocked ?d"
      "content u = content ?d" "disk u = disk ?d" "owned 0 u b 50" "refs u = (refs ?d)(50 := refs ?d 50 + 1)"
    using log_write_ok [OF cd tx(1)] cd(3) unfolding tx(2) by (auto split: if_splits)
  have cu: "calm 0 u" "cinv u" using bstate_calm [OF u(2)] bstate_cinv [OF u(2)] cd by simp_all
  have "refs u 50 \<noteq> 1" by (simp add: u(7) d(2) t(6))
  then obtain s where s: "brelse b u = Ok () s" "bstate u s" "refs s = (refs u)(50 := refs u 50 - 1)"
      "blocked s = (blocked u)(50 := False)" "content s = content u" "disk s = disk u"
    using brelse_abs [OF cu u(6)] by blast
  have "lg s = record_block 50 log0" using lg_bstate(1) [OF s(2)] lg_bstate(1) [OF u(2)] t(5) by simp
  then have ls: "lg s = log0\<lparr>log_lh := \<lparr>lh_n = 1, lh_block = (replicate LOGSIZE 0)[0 := 50]\<rparr>\<rparr>"
    by (simp add: record_block_def log0_def)
  have rs: "refs s = (\<lambda>_. 0)(50 := 1)" "blocked s = (\<lambda>_. False)" "content s 50 = replicate BSIZE 7"
    by (simp_all add: s(3-5) u(3,4,7) d(2-4) t(6,7) fun_eq_iff)
  have nm: "nlog s = 1" "homeb s 0 = 50" "log_start (lg s) = 2" "lh_n (log_lh (lg s)) = 1"
    by (simp_all add: nlog_def homeb_def ls LOGSIZE_def MAXOPBLOCKS_def log0_def)
  have "{k. refs s k \<noteq> 0} = {50}" by (auto simp: rs)
  then have iu: "inuse s = 1" by (simp add: inuse_def)
  have gm: "log_geom s" "log_area s = {2..32}"
    by (simp_all add: log_geom_def log_area_def ls LOGSIZE_def MAXOPBLOCKS_def log0_def)
  have "commit_ready 0 s"
    using bstate_calm [OF s(2) cu(1)] bstate_cinv [OF s(2)] gm
    by (simp add: commit_ready_def nm iu homes_ok_def LOGSIZE_def NBUF_def MAXOPBLOCKS_def fresh_def rs logb_def inj_on_def)
  with t(1) u(1) s(1) nm rs show ?thesis by (auto simp: s(6) u(5) d(5) t(8))
qed

section \<open>Properties\<close>



text \<open>C25: Recovery ruins the reference counters of the blocks it installs. When initlog finds a committed
  transaction, install_trans calls bunpin on buffers that nobody has pinned: every installed block ends
  with the counter 2^32 - 1. The next bread of such a block therefore hands out a locked buffer whose
  counter is 0, which the search for unused buffers takes as free, and the cache is no longer
  consistent.\<close>

theorem recovery_counter_wraps:
  fixes r :: "'z lmach_scheme"
  assumes "rebooted q r" and "unat st + LOGSIZE < 2 ^ 31" and "head_ok (log_init st nl r) (disk r (unat st))"
    and "j < nat (hb_n (disk r (unat st)))"
  shows "\<exists>u b v. initlog rdev st nl r = Ok () u \<and> refs u (hb_block (disk r (unat st)) j) = 2 ^ 32 - 1 \<and>
    bread rdev (hb_block (disk r (unat st)) j) u = Ok b v \<and> b_refcnt (bufs v b) = 0 \<and> sl_locked (slocks v (BufLock b)) \<and> \<not> cinv v"
proof -
  let ?d = "disk r (unat st)"
  let ?h = "hb_block ?d j"
  note f = log_init_facts [OF assms(1,2), of nl]
  obtain u where u: "initlog rdev st nl r = Ok () u" "calm q u" "cinv u" "blocked u = (\<lambda>_. False)"
      "refs u = upds (recovery_refs (log_init st nl r)) (\<lambda>_. 0)"
    using initlog_ok [OF assms(1-3)] by blast
  have rr: "recovery_refs (log_init st nl r) = map (\<lambda>j. (hb_block ?d j, 2 ^ 32 - 1)) [0..<nat (hb_n ?d)]"
    by (simp add: recovery_refs_def f(4,5) Let_def)
  have "distinct (map fst (recovery_refs (log_init st nl r)))"
    using assms(3) by (simp add: rr distinct_map comp_def head_ok_def inj_on_def)
  moreover have "(?h, 2 ^ 32 - 1) \<in> set (recovery_refs (log_init st nl r))" using assms(4) by (auto simp: rr)
  ultimately have ru: "refs u ?h = 2 ^ 32 - 1" unfolding u(5) by (rule upds_distinct)
  obtain b where b: "caches u b ?h" using refs_uncached [of u ?h] ru by fastforce
  have "unat (b_refcnt (bufs u b)) = unat (-1 :: u32)" using refs_cached [OF u(3) b] ru unat_m1 by simp
  then have m1: "b_refcnt (bufs u b) = -1" by (simp add: word_eq_iff_unat)
  have nl: "\<not> sl_locked (slocks u (BufLock b))" using u(4) b by (auto simp: blocked_def fun_eq_iff)
  obtain w where w: "bget rdev ?h u = Ok b w" "slocks w = taken q (BufLock b) u"
      "bufs w = (bufs u)(b := (bufs u b)\<lparr>b_refcnt := b_refcnt (bufs u b) + 1\<rparr>)"
    using bget_hit [OF u(2,3) b nl] by blast
  have bb: "b < NBUF" "unat (b_blockno (bufs w b)) < 2 ^ 31"
    using u(3) b by (auto simp: w(3) cinv_def buf_ok_def caches_def)
  obtain v where v: "bread_fill b w = Ok b v" "slocks v = slocks w"
      "b_refcnt (bufs v b) = b_refcnt (bufs w b)"
    using bread_fill_ok [OF bb(2)] by force
  have z: "b_refcnt (bufs v b) = 0" "sl_locked (slocks v (BufLock b))" by (simp_all add: v w m1 taken_def)
  then have "\<not> cinv v" using bb(1) by (auto simp: cinv_def buf_ok_def)
  with u(1) ru w(1) v(1) z show ?thesis by (auto simp: bread_def)
qed

theorem recovery_counter_wraps_witness:
  "\<exists>d u b v. initlog rdev 2 30 (lboot d) = Ok () u \<and> refs u 50 = 2 ^ 32 - 1 \<and> bread rdev 50 u = Ok b v \<and> \<not> cinv v"
proof -
  obtain s :: lmach where s: "commit_ready 0 s" "nlog s = 1" "homeb s 0 = 50" "log_start (lg s) = 2" using tx_example by blast
  note c = commit_readyD [OF s(1)]
  have n: "lh_n (log_lh (lg s)) = 1" using s(2) c(7) by (simp add: nlog_def)
  have h: "length (header s) = BSIZE" "hb_n (header s) = 1" "hb_block (header s) 0 = 50"
    using header_fields [OF c(2) _ c(8)] n s(2,3) by simp_all
  let ?d = "(\<lambda>_. replicate BSIZE 0)(2 := header s)"
  have rb: "rebooted 0 (lboot ?d)" by (rule rebooted_lboot) (simp add: h)
  have st: "unat (2 :: u32) + LOGSIZE < 2 ^ 31" by (simp add: LOGSIZE_def MAXOPBLOCKS_def)
  have "head_ok (log_init 2 30 (lboot ?d)) (disk (lboot ?d) (unat (2 :: u32)))"
    using h by (simp add: head_ok_def NBUF_def LOGSIZE_def MAXOPBLOCKS_def log_init_facts(6) [OF rb st] inj_on_def)
  from recovery_counter_wraps [OF rb st this, of 0] h show ?thesis by (auto intro: exI [of _ ?d])
qed

text \<open>C15: log_write on every branch. It panics when the log holds LOGSIZE blocks or all but one of the log's
  blocks, and outside a transaction. Otherwise a block that is already logged is absorbed, a new one is
  appended to the logged blocks and its buffer is pinned by one reference; contents, disk and locks stay
  as they are.\<close>

theorem log_write_correct:
  fixes s :: "'z lmach_scheme"
  assumes "calm p s" and "cinv s" and "owned p s b n" and "refs s n < 2 ^ 32 - 1"
    and "0 \<le> lh_n (log_lh (lg s))" and "length (lh_block (log_lh (lg s))) = LOGSIZE"
  shows "if lh_n (log_lh (lg s)) \<ge> int LOGSIZE \<or> lh_n (log_lh (lg s)) \<ge> log_size (lg s) - 1
         then log_write b s = Panic ''too big a transaction''
         else if log_outstanding (lg s) < 1 then log_write b s = Panic ''log_write outside of trans''
         else \<exists>t. log_write b s = Ok () t \<and> calm p t \<and> cinv t \<and> content t = content s \<and> disk t = disk s \<and>
           dhist t = dhist s \<and> blocked t = blocked s \<and> owned p t b n \<and>
           logged_blocks t = (if n \<in> set (logged_blocks s) then logged_blocks s else logged_blocks s @ [n]) \<and>
           refs t = (if n \<in> set (logged_blocks s) then refs s else (refs s)(n := refs s n + 1))"
proof -
  have ?thesis if tx: "tx_open s"
  proof -
    obtain t where t: "log_write b s = Ok () t" "bstate (set_lg (record_block n) s) t" "blocked t = blocked s"
        "content t = content s" "disk t = disk s" "dhist t = dhist s" "owned p t b n"
        "refs t = (if n \<in> set (logged_blocks s) then refs s else (refs s)(n := refs s n + 1))"
      using log_write_ok [OF assms(1-3) tx assms(4)] assms(3) by blast
    have "lg t = record_block n (lg s)" using lg_bstate [OF t(2)] by simp
    then have "logged_blocks t = (if n \<in> set (logged_blocks s) then logged_blocks s else logged_blocks s @ [n])"
      by (rule logged_blocks_record [OF tx])
    then show ?thesis
      using t tx bstate_calm [OF t(2)] bstate_cinv [OF t(2)] assms(1) by (auto simp: tx_open_def)
  qed
  moreover have ?thesis if "\<not> tx_open s"
    using that assms(5,6) by (auto simp: tx_open_def log_write_def not_less)
  ultimately show ?thesis by blast
qed

theorem log_write_correct_witness:
  "\<exists>b t u. bread rdev 50 tx0 = Ok b t \<and> log_write b t = Ok () u \<and> logged_blocks u = [50] \<and> refs u 50 = 2"
proof -
  obtain b t where t: "bread rdev 50 tx0 = Ok b t" "calm 0 t" "cinv t" "owned 0 t b 50" "lg t = log0" "refs t = (\<lambda>_. 0)(50 := 1)"
    using tx0_read by blast
  then show ?thesis
    using log_write_correct [OF t(2-4)] by (auto simp: log0_def LOGSIZE_def MAXOPBLOCKS_def logged_blocks_def nlog_def)
qed



end
