(* ===== verification/Boot_State.thy ===== *)
theory Boot_State
  imports Log_Tx File Vm_User
begin

text \<open>
  A concrete state of the whole kernel for the concrete inputs of the properties: process 0 runs
  on hart 0, no lock is held, the buffer cache is as binit leaves it, one transaction is open on a file system of
  200 blocks, and all tables are empty.
\<close>

definition sb0 :: superblock where
  "sb0 = \<lparr>sb_magic = 0x10203040, sb_size = 200, sb_nblocks = 100, sb_ninodes = 20, sb_nlog = 30, sb_logstart = 2,
     sb_inodestart = 32, sb_bmapstart = 45\<rparr>"

definition inode0 :: inode where
  "inode0 = \<lparr>i_dev = 0, i_inum = 0, i_ref = 0, i_valid = False, i_type = 0, i_major = 0, i_minor = 0, i_nlink = 0, i_size = 0,
     i_addrs = replicate 13 0\<rparr>"

definition fboot :: "(nat \<Rightarrow> byte list) \<Rightarrow> fmach" where
  "fboot d = lmach.extend (lboot d) (fmach.fields sb0 (\<lambda>_. inode0))"

definition cons0 :: cons where
  "cons0 = \<lparr>cons_buf = replicate 128 0, cons_r = 0, cons_w = 0, cons_e = 0\<rparr>"

definition uboot :: "(nat \<Rightarrow> byte list) \<Rightarrow> umach" where
  "uboot d = fmach.extend (fboot d) (umach.fields False True (replicate 32 0) 0 0 [] [] [] cons0
     (\<lambda>_. \<lparr>dev_read = None, dev_write = None\<rparr>))"

definition file0 :: kfile where
  "file0 = \<lparr>f_type = FD_NONE, f_ref = 0, f_readable = False, f_writable = False, f_pipe = 0, f_ip = 0, f_off = 0, f_major = 0\<rparr>"

definition pipe0 :: pipe where
  "pipe0 = \<lparr>pipe_data = replicate PIPESIZE 0, pipe_nread = 0, pipe_nwrite = 0, pipe_readopen = True, pipe_writeopen = True\<rparr>"

definition kboot :: "(nat \<Rightarrow> byte list) \<Rightarrow> kmach" where
  "kboot d = umach.extend (uboot d) (kmach.fields (\<lambda>_. file0) (\<lambda>_. pipe0))"

lemmas boot_exts = bmach.defs lmach.defs fmach.defs umach.defs kmach.defs lboot_def fboot_def uboot_def kboot_def

lemma calm_lboot: "calm 0 (lboot d)"
  using calm_busy0 by (simp add: lboot_def bmach.defs lmach.defs calm_def intr_ok_def lock_free_def mycpu_def cpuid_def)

lemma calm_boot: "calm 0 (fboot d)" "calm 0 (uboot d)" "calm 0 (kboot d)"
  using calm_lboot [of d] by (simp_all add: calm_def boot_exts intr_ok_def lock_free_def mycpu_def cpuid_def)

lemma kboot_simps [simp]:
  "pipes (kboot d) = (\<lambda>_. pipe0)" "ftable (kboot d) = (\<lambda>_. file0)" "console (kboot d) = cons0"
  "disk (kboot d) = d" "icache (kboot d) = (\<lambda>_. inode0)" "sb (kboot d) = sb0" "lg (kboot d) = log0"
  "bufs (kboot d) = bufs busy0" "slocks (kboot d) = slocks busy0"
  "uart_tx_buf (kboot d) = replicate 32 0" "uart_tx_r (kboot d) = 0" "uart_tx_w (kboot d) = 0" "u_lsr (kboot d) = []"
  "panicked (kboot d) = False"
  by (simp_all add: boot_exts)

text \<open>Process 0 has the one-page address space of the example.\<close>

definition kboot_user :: kmach where
  "kboot_user = (kboot (\<lambda>_. replicate BSIZE 0))\<lparr>pmem := demo_mem,
     procs := (procs (kboot (\<lambda>_. replicate BSIZE 0)))(0 := proc0\<lparr>p_pagetable := 0x80001000, p_sz := 4096, p_state := RUNNING\<rparr>)\<rparr>"

lemma kboot_user_simps [simp]:
  "pmem kboot_user = demo_mem" "p_pagetable (procs kboot_user 0) = 0x80001000" "pipes kboot_user = (\<lambda>_. pipe0)" "console kboot_user = cons0"
  by (simp_all add: kboot_user_def)

lemma calm_kboot_user: "calm 0 kboot_user"
  using calm_boot(3) [of "\<lambda>_. replicate BSIZE 0"]
  by (simp add: calm_def kboot_user_def intr_ok_def lock_free_def mycpu_def cpuid_def)

end
