(* ===== verification/Fifo.thy ===== *)
theory Fifo
  imports Xv6_Prelude
begin

text \<open>
  The kernel has three byte queues in rings: the pipe, the input of the console and the output of the
  UART. This theory holds their common contract, a bounded first-in first-out queue, with what follows
  from it for any sequence of calls, and the arithmetic of rings that are indexed by wrapping counters.
\<close>

locale fifo =
  fixes inv :: "'q \<Rightarrow> bool"
    and items :: "'q \<Rightarrow> 'c list"
    and cap :: nat
    and full :: "'q \<Rightarrow> bool"
    and vacant :: "'q \<Rightarrow> bool"
    and put :: "'c \<Rightarrow> 'q \<Rightarrow> 'q"
    and front :: "'q \<Rightarrow> 'c"
    and get :: "'q \<Rightarrow> 'q"
  assumes bound: "inv q \<Longrightarrow> length (items q) \<le> cap"
    and full_iff: "inv q \<Longrightarrow> full q \<longleftrightarrow> length (items q) = cap"
    and vacant_iff: "inv q \<Longrightarrow> vacant q \<longleftrightarrow> items q = []"
    and inv_put: "inv q \<Longrightarrow> \<not> full q \<Longrightarrow> inv (put c q)"
    and items_put: "inv q \<Longrightarrow> \<not> full q \<Longrightarrow> items (put c q) = items q @ [c]"
    and inv_get: "inv q \<Longrightarrow> \<not> vacant q \<Longrightarrow> inv (get q)"
    and items_get: "inv q \<Longrightarrow> \<not> vacant q \<Longrightarrow> items q = front q # items (get q)"
begin

text \<open>A run of puts (\<open>Some\<close>) and gets (\<open>None\<close>): calls on a full or empty queue have no effect.\<close>

primrec run :: "'c option list \<Rightarrow> 'q \<Rightarrow> 'c list \<times> 'c list \<times> 'q" where
  "run [] q = ([], [], q)"
| "run (a # as) q =
     (case a of
        Some c \<Rightarrow> if full q then run as q
                  else (case run as (put c q) of (ins, outs, q') \<Rightarrow> (c # ins, outs, q'))
      | None \<Rightarrow> if vacant q then run as q
                else (case run as (get q) of (ins, outs, q') \<Rightarrow> (ins, front q # outs, q')))"

lemma run_fifo:
  "inv q \<Longrightarrow> run as q = (ins, outs, q') \<Longrightarrow> inv q' \<and> items q @ ins = outs @ items q'"
proof (induction as arbitrary: q ins outs)
  case (Cons a as)
  show ?case
  proof (cases a)
    case None
    show ?thesis
    proof (cases "vacant q")
      case True
      with Cons None show ?thesis by simp
    next
      case False
      obtain xs ys where r: "run as (get q) = (xs, ys, q')" "ins = xs" "outs = front q # ys"
        using Cons.prems(2) None False by (auto split: prod.splits)
      have "inv q' \<and> items (get q) @ xs = ys @ items q'" by (rule Cons.IH [OF inv_get [OF Cons.prems(1) False] r(1)])
      with items_get [OF Cons.prems(1) False] r show ?thesis by simp
    qed
  next
    case (Some c)
    show ?thesis
    proof (cases "full q")
      case True
      with Cons Some show ?thesis by simp
    next
      case False
      obtain xs ys where r: "run as (put c q) = (xs, ys, q')" "ins = c # xs" "outs = ys"
        using Cons.prems(2) Some False by (auto split: prod.splits)
      have "inv q' \<and> items (put c q) @ xs = ys @ items q'" by (rule Cons.IH [OF inv_put [OF Cons.prems(1) False] r(1)])
      with items_put [OF Cons.prems(1) False] r show ?thesis by simp
    qed
  qed
qed simp

lemma puts_room:
  "inv q \<Longrightarrow> length (items q) + length cs \<le> cap \<Longrightarrow>
     inv (fold put cs q) \<and> items (fold put cs q) = items q @ cs"
proof (induction cs arbitrary: q)
  case (Cons c cs)
  then have nf: "\<not> full q" by (simp add: full_iff)
  show ?case using Cons.IH [OF inv_put [OF Cons.prems(1) nf, of c]] Cons.prems items_put [OF Cons.prems(1) nf, of c] by simp
qed simp

end

section \<open>Rings with wrapping counters\<close>

text \<open>
  The bytes between the read counter \<open>r\<close> and the write counter \<open>w\<close> of a ring of \<open>N\<close> bytes. The counters
  run through all 32-bit values and are reduced modulo \<open>N\<close> at each access; they agree with the ring
  across their wrap-around because \<open>N\<close> divides 2^32.
\<close>

definition ring_items :: "nat \<Rightarrow> byte list \<Rightarrow> 32 word \<Rightarrow> 32 word \<Rightarrow> byte list" where
  "ring_items N buf r w = map (\<lambda>k. buf ! (unat (r + of_nat k) mod N)) [0..<unat (w - r)]"

lemma length_ring_items [simp]: "length (ring_items N buf r w) = unat (w - r)"
  by (simp add: ring_items_def)

lemma ring_index:
  assumes "N dvd 2 ^ 32"
  shows "unat (r + of_nat k :: 32 word) mod N = (unat r + k) mod N"
proof -
  have "unat (r + of_nat k) = (unat r + k) mod 2 ^ 32" by (simp add: unat_word_ariths unat_of_nat mod_simps)
  then show ?thesis using assms by (simp add: mod_mod_cancel)
qed

lemma ring_window:
  assumes "N dvd 2 ^ 32" and "k < unat (w - r :: 32 word)" and "unat (w - r) < N"
  shows "unat (r + of_nat k) mod N \<noteq> unat w mod N"
proof
  let ?d = "unat (w - r)"
  have "w = r + of_nat ?d" by simp
  then have "unat w mod N = (unat r + ?d) mod N" using ring_index [OF assms(1), of r ?d] by simp
  moreover assume "unat (r + of_nat k) mod N = unat w mod N"
  ultimately have "(unat r + k) mod N = (unat r + ?d) mod N" using ring_index [OF assms(1)] by simp
  then have "(?d - k) mod N = 0"
    using assms(2) mod_eq_dvd_iff_nat [of "unat r + k" "unat r + ?d" N] by (metis add_diff_cancel_left add_le_cancel_left
        dvd_imp_mod_0 less_imp_le)
  with assms(2,3) show False by simp
qed

lemma ring_put:
  assumes "N dvd 2 ^ 32" and "N < 2 ^ 32" and "length buf = N" and "unat (w - r) < N"
  shows "ring_items N (buf[unat w mod N := c]) r (w + 1) = ring_items N buf r w @ [c]"
proof -
  let ?d = "unat (w - r)"
  have "unat (w - r + 1) = ?d + 1" using assms(2,4) unat_add_small [of "w - r" 1] by simp
  then have d: "unat (w + 1 - r) = Suc ?d" by (simp add: algebra_simps)
  have w: "r + of_nat ?d = w" by simp
  have "unat w mod N < N" using assms(4) by simp
  moreover have "buf[unat w mod N := c] ! (unat (r + of_nat k) mod N) = buf ! (unat (r + of_nat k) mod N)" if "k < ?d" for k
    using ring_window [OF assms(1) that assms(4)] by simp
  ultimately show ?thesis using assms(3) by (simp add: ring_items_def d w)
qed

lemma ring_get:
  assumes "w \<noteq> r"
  shows "ring_items N buf r w = buf ! (unat r mod N) # ring_items N buf (r + 1) w"
proof -
  have "unat (w - r) = Suc (unat (w - (r + 1)))"
    using assms unat_minus_one [of "w - r"] by (simp add: diff_diff_eq unat_gt_0)
  then show ?thesis unfolding ring_items_def by (simp only: map_upt_Suc) (simp add: add.assoc)
qed

lemma ring_get_room:
  assumes "w \<noteq> r"
  shows "unat (w - (r + 1)) = unat (w - r :: 32 word) - 1"
  using assms unat_minus_one [of "w - r"] by (simp add: diff_diff_eq)

lemma ring_full:
  assumes "N < 2 ^ 32"
  shows "w = r + of_nat N \<longleftrightarrow> unat (w - r :: 32 word) = N"
proof
  assume "w = r + of_nat N"
  then show "unat (w - r) = N" using assms by (simp add: unat_of_nat)
next
  assume "unat (w - r) = N"
  then have "w - r = of_nat N" using word_unat_eq_iff [of "w - r" "of_nat N"] assms by (simp add: unat_of_nat)
  then show "w = r + of_nat N" by (simp add: algebra_simps)
qed

lemma ring_items_empty: "ring_items N buf r w = [] \<longleftrightarrow> r = w"
  by (auto simp: ring_items_def unat_eq_zero)

end
