(* ===== verification/Outcome_Ends.thy ===== *)
theory Outcome_Ends
  imports Outcome_Frame Vm_User
begin

text \<open>
  Two-state properties of an outcome that also speak of the result, with the rules that follow them
  through a function, and the frame of the functions that access user memory.
\<close>

text \<open>The state in which a call stops, with its result if it has returned.\<close>

fun ends :: "('a option \<Rightarrow> 's \<Rightarrow> bool) \<Rightarrow> ('s, 'a) res \<Rightarrow> bool" where
  "ends Q (Ok a t) = Q (Some a) t"
| "ends Q (Sched t) = Q None t"
| "ends Q (Spin l t) = Q None t"
| "ends Q (Panic m) = True"
| "ends Q Fuel = True"

lemma ends_bnd:
  "every P r \<Longrightarrow> (\<And>t. P t \<Longrightarrow> Q None t) \<Longrightarrow> (\<And>a t. r = Ok a t \<Longrightarrow> P t \<Longrightarrow> ends Q (k a t)) \<Longrightarrow> ends Q (bnd r k)"
  by (cases r) auto

lemma bnd_not_Ok: "(\<And>a t. k a t \<noteq> Ok x u) \<Longrightarrow> bnd r k \<noteq> Ok x u"
  by (cases r) simp_all

lemma sched_not_Ok: "sched s \<noteq> Ok x t"
  unfolding sched_def by (intro bnd_not_Ok) (simp split: option.split)

lemma sleep_not_Ok: "sleep ch lk s \<noteq> Ok x t"
  unfolding sleep_def
  by (intro bnd_not_Ok) (simp add: bnd_not_Ok sched_not_Ok split: option.split)

lemma ends_mono: "ends Q r \<Longrightarrow> (\<And>a t. Q a t \<Longrightarrow> R a t) \<Longrightarrow> ends R r"
  by (cases r) auto

lemma ends_every:
  "every P r \<Longrightarrow> (\<And>t. P t \<Longrightarrow> Q None t) \<Longrightarrow> (\<And>a t. r = Ok a t \<Longrightarrow> P t \<Longrightarrow> Q (Some a) t) \<Longrightarrow> ends Q r"
  by (cases r) auto

lemma ends_bnd_ends:
  "ends P r \<Longrightarrow> (\<And>t. P None t \<Longrightarrow> Q None t) \<Longrightarrow> (\<And>a t. P (Some a) t \<Longrightarrow> ends Q (k a t)) \<Longrightarrow> ends Q (bnd r k)"
  by (cases r) auto

section \<open>User memory\<close>

lemma every_walk_noalloc [every_intros]:
  "mach.more s = m \<Longrightarrow> every (\<lambda>t. mach.more t = m) (walk_loop l pt va False s)"
  by (induction l arbitrary: pt) (simp_all add: Let_def)

lemma every_walkaddr [every_intros]: "mach.more s = m \<Longrightarrow> every (\<lambda>t. mach.more t = m) (walkaddr pt va s)"
  unfolding walkaddr_def walk_def Let_def by (intro every_intros) simp_all

lemma every_copyin [every_intros]: "mach.more s = m \<Longrightarrow> every (\<lambda>t. mach.more t = m) (copyin pt va len s)"
proof (induction len arbitrary: va s rule: less_induct)
  case (less len)
  have "every (\<lambda>t. mach.more t = m) (bnd (copyin pt (PGROUNDDOWN va + PGSIZE) (len - min (unat (page_rest va)) len) t)
      (\<lambda>(r, cs) s. Ok (r, load_bytes (pmem t) a (min (unat (page_rest va)) len) @ cs) s))"
    if "mach.more t = m" "0 < len" for t a
    using less.IH [of "len - min (unat (page_rest va)) len" t] that page_rest_pos [of va]
    by (intro every_bnd) auto
  then show ?case
    using less.prems by (subst copyin.simps) (auto intro!: every_bnd every_walkaddr simp: Let_def)
qed

lemma every_copyout [every_intros]: "mach.more s = m \<Longrightarrow> every (\<lambda>t. mach.more t = m) (copyout pt va src s)"
proof (induction "length src" arbitrary: va src s rule: less_induct)
  case less
  have "every (\<lambda>t. mach.more t = m) (copyout pt (PGROUNDDOWN va + PGSIZE) (drop (min (unat (page_rest va)) (length src)) src)
      (t\<lparr>pmem := x\<rparr>))" if "mach.more t = m" "src \<noteq> []" for t x
    using less.hyps [of "drop (min (unat (page_rest va)) (length src)) src" "t\<lparr>pmem := x\<rparr>"] that page_rest_pos [of va] by simp
  then show ?case
    using less.prems by (subst copyout.simps) (auto intro!: every_bnd every_walkaddr simp: Let_def)
qed

end
