(* ===== verification/Pipe_Fifo.thy ===== *)
theory Pipe_Fifo
  imports Boot_State Fifo Outcome_Ends
begin

text \<open>
  The pipe of pipe.c as a bounded queue of bytes. Whatever the other harts do, a call of pipewrite
  appends to the queue and a call of piperead takes from its front; what an undisturbed write puts in,
  an undisturbed read gets out.
\<close>

section \<open>The ring as a queue\<close>

definition pipe_inv :: "pipe \<Rightarrow> bool" where
  "pipe_inv x \<longleftrightarrow> length (pipe_data x) = PIPESIZE \<and> unat (pipe_nwrite x - pipe_nread x) \<le> PIPESIZE"

definition pipe_items :: "pipe \<Rightarrow> byte list" where
  "pipe_items x = ring_items PIPESIZE (pipe_data x) (pipe_nread x) (pipe_nwrite x)"

lemma PIPESIZE_pow: "PIPESIZE dvd 2 ^ 32" "PIPESIZE < 2 ^ 32" "0 < PIPESIZE"
  by (simp_all add: PIPESIZE_def)

interpretation pipeq: fifo pipe_inv pipe_items PIPESIZE pipe_full pipe_empty pipe_put pipe_front pipe_get
proof
  fix x c
  assume i: "pipe_inv x"
  then have d: "unat (pipe_nwrite x - pipe_nread x) \<le> PIPESIZE" "length (pipe_data x) = PIPESIZE" by (simp_all add: pipe_inv_def)
  show "length (pipe_items x) \<le> PIPESIZE" using d by (simp add: pipe_items_def)
  show f: "pipe_full x \<longleftrightarrow> length (pipe_items x) = PIPESIZE"
    unfolding pipe_full_def using ring_full [OF PIPESIZE_pow(2)] by (simp add: pipe_items_def)
  show e: "pipe_empty x \<longleftrightarrow> pipe_items x = []" by (simp add: pipe_empty_def pipe_items_def ring_items_empty)
  { assume "\<not> pipe_full x"
    then have l: "unat (pipe_nwrite x - pipe_nread x) < PIPESIZE" using f d by (simp add: pipe_items_def)
    show it: "pipe_items (pipe_put c x) = pipe_items x @ [c]"
      using ring_put [OF PIPESIZE_pow(1,2) d(2) l, of c] by (simp add: pipe_items_def pipe_put_def)
    then have "length (pipe_items (pipe_put c x)) = length (pipe_items x) + 1" by simp
    then show "pipe_inv (pipe_put c x)" using l d by (simp add: pipe_inv_def pipe_items_def pipe_put_def) }
  { assume "\<not> pipe_empty x"
    then have ne: "pipe_nwrite x \<noteq> pipe_nread x" by (simp add: pipe_empty_def)
    show "pipe_inv (pipe_get x)" using ring_get_room [OF ne] d by (simp add: pipe_inv_def pipe_get_def)
    show "pipe_items x = pipe_front x # pipe_items (pipe_get x)"
      using ring_get [OF ne] by (simp add: pipe_items_def pipe_get_def pipe_front_def) }
qed

section \<open>Every outcome\<close>

lemma pipes_of_more:
  fixes s :: "'z kmach_scheme" and t :: "'z kmach_scheme"
  shows "mach.more t = mach.more s \<Longrightarrow> pipes t = pipes s"
  by (cases s, cases t) simp

lemma pipes_frame: "every (\<lambda>t. mach.more t = mach.more s) r \<Longrightarrow> every (\<lambda>t. pipes t = pipes s) r" for s :: "'z kmach_scheme"
  by (erule every_mono) (rule pipes_of_more)

lemmas every_pipes =
  pipes_frame [OF every_acquire [OF refl]] pipes_frame [OF every_release [OF refl]]
  pipes_frame [OF every_myproc [OF refl]] pipes_frame [OF every_sleep [OF refl]]
  pipes_frame [OF every_sleep_resume [OF refl]] pipes_frame [OF every_wakeup [OF refl]]
  pipes_frame [OF every_copyin [OF refl]] pipes_frame [OF every_copyout [OF refl]]

text \<open>
  \<open>cs\<close> has been appended to the pipe or taken from its front, \<open>k\<close> bytes long at most;
  the other pipes are as before.
\<close>

definition sent :: "u64 \<Rightarrow> 'z kmach_scheme \<Rightarrow> 'z kmach_scheme \<Rightarrow> byte list \<Rightarrow> bool" where
  "sent pi s t cs \<longleftrightarrow> pipe_inv (pipes t pi) \<and> pipe_items (pipes t pi) = pipe_items (pipes s pi) @ cs \<and>
     (\<forall>x. x \<noteq> pi \<longrightarrow> pipes t x = pipes s x)"

definition received :: "u64 \<Rightarrow> 'z kmach_scheme \<Rightarrow> 'z kmach_scheme \<Rightarrow> byte list \<Rightarrow> bool" where
  "received pi s t cs \<longleftrightarrow> pipe_inv (pipes t pi) \<and> pipe_items (pipes s pi) = cs @ pipe_items (pipes t pi) \<and>
     (\<forall>x. x \<noteq> pi \<longrightarrow> pipes t x = pipes s x)"

lemma sent_pipes: "pipes t = pipes s \<Longrightarrow> sent pi s t [] \<longleftrightarrow> pipe_inv (pipes s pi)"
  by (simp add: sent_def)

lemma received_pipes: "pipes t = pipes s \<Longrightarrow> received pi s t [] \<longleftrightarrow> pipe_inv (pipes s pi)"
  by (simp add: received_def)

lemma sent_put:
  "pipe_inv (pipes s pi) \<Longrightarrow> \<not> pipe_full (pipes s pi) \<Longrightarrow> sent pi (set_pipe pi (pipe_put c) s) t cs \<Longrightarrow> sent pi s t (c # cs)"
  by (simp add: sent_def set_pipe_def pipeq.items_put)

lemma received_get:
  "pipe_inv (pipes s pi) \<Longrightarrow> \<not> pipe_empty (pipes s pi) \<Longrightarrow> received pi (set_pipe pi pipe_get s) t cs \<Longrightarrow>
   received pi s t (pipe_front (pipes s pi) # cs)"
  by (auto simp: received_def set_pipe_def pipeq.items_get)


definition wrote :: "u64 \<Rightarrow> 'z kmach_scheme \<Rightarrow> nat \<Rightarrow> nat \<Rightarrow> int option \<Rightarrow> 'z kmach_scheme \<Rightarrow> bool" where
  "wrote pi s i n r t \<longleftrightarrow>
     (\<exists>cs. sent pi s t cs \<and> length cs \<le> n \<and> (case r of None \<Rightarrow> True | Some k \<Rightarrow> k = -1 \<or> k = int (i + length cs)))"

lemma wrote_none: "pipe_inv (pipes s pi) \<Longrightarrow> pipes t = pipes s \<Longrightarrow> r \<in> {None, Some (-1), Some (int i)} \<Longrightarrow> wrote pi s i n r t"
  by (auto simp: wrote_def sent_pipes intro!: exI [of _ "[]"])

lemma wrote_same: "pipes u = pipes s \<Longrightarrow> wrote pi u = wrote pi s"
  by (intro ext) (simp add: wrote_def sent_def)

lemma pipewrite_done:
  assumes "pipe_inv (pipes s pi)" "r \<in> {-1, int i}"
  shows "ends (wrote pi s i n) (bnd (release (PipeLock pi) s) (\<lambda>_ s. Ok r s))"
    and "ends (wrote pi s i n) (bnd (wakeup (PipeReadChan pi) s) (\<lambda>_ s. bnd (release (PipeLock pi) s) (\<lambda>_ s. Ok r s)))"
proof -
  have k: "ends (wrote pi s i n) (bnd (release (PipeLock pi) t) (\<lambda>_ s. Ok r s))" if "pipes t = pipes s" for t
    using assms that by (intro ends_bnd [OF every_pipes(2)]) (auto intro!: wrote_none)
  show "ends (wrote pi s i n) (bnd (release (PipeLock pi) s) (\<lambda>_ s. Ok r s))" by (rule k) simp
  show "ends (wrote pi s i n) (bnd (wakeup (PipeReadChan pi) s) (\<lambda>_ s. bnd (release (PipeLock pi) s) (\<lambda>_ s. Ok r s)))"
    using assms by (intro ends_bnd [OF every_pipes(6)] k) (auto intro!: wrote_none)
qed

lemma pipewrite_sleep:
  assumes "pipe_inv (pipes s pi)"
  shows "ends (wrote pi s i n) (bnd (wakeup (PipeReadChan pi) s) (\<lambda>_ s.
     bnd (sleep (PipeWriteChan pi) (PipeLock pi) s) (\<lambda>_ s. Ok 0 s)))"
  using assms by (intro ends_bnd [OF every_pipes(6)] ends_bnd [OF every_pipes(4)]) (auto intro!: wrote_none simp: sleep_not_Ok)

lemma wrote_step:
  assumes "pipe_inv (pipes s pi)" "\<not> pipe_full (pipes s pi)" "pipes u = pipes s" "wrote pi (set_pipe pi (pipe_put c) u) (Suc i) n r t"
  shows "wrote pi s i (Suc n) r t"
proof -
  obtain cs where cs: "sent pi (set_pipe pi (pipe_put c) u) t cs" "length cs \<le> n"
    and r: "case r of None \<Rightarrow> True | Some k \<Rightarrow> k = -1 \<or> k = int (Suc i + length cs)" using assms(4) by (auto simp: wrote_def)
  have "sent pi u t (c # cs)" by (rule sent_put [OF _ _ cs(1)]) (use assms in simp_all)
  then have "sent pi s t (c # cs)" using assms(3) by (simp add: sent_def)
  then show ?thesis unfolding wrote_def using cs(2) r by (intro exI [of _ "c # cs"]) (auto split: option.splits)
qed

lemma pipewrite_loop_ends: "pipe_inv (pipes s pi) \<Longrightarrow> ends (wrote pi s i n) (pipewrite_loop p pi addr i n s)"
proof (induction n arbitrary: i s)
  case 0
  then show ?case by (simp add: pipewrite_done)
next
  case (Suc n)
  have "ends (wrote pi s i (Suc n)) (pipewrite_loop p pi addr (Suc i) n (set_pipe pi (pipe_put c) u))"
    if "pipes u = pipes s" "\<not> pipe_full (pipes s pi)" for u c
  proof (rule ends_mono [OF Suc.IH])
    show "pipe_inv (pipes (set_pipe pi (pipe_put c) u) pi)"
      using that Suc.prems by (simp add: set_pipe_def pipeq.inv_put)
  qed (rule wrote_step [OF Suc.prems that(2,1)])
  moreover have "ends (wrote pi s i (Suc n)) (bnd (wakeup (PipeReadChan pi) u) (\<lambda>_ s. bnd (release (PipeLock pi) s) (\<lambda>_ s. Ok (int i) s)))"
    if "pipes u = pipes s" for u
    using pipewrite_done(2) [of u pi "int i" i "Suc n"] that Suc.prems by (simp add: wrote_same [OF that])
  ultimately show ?case
    using Suc.prems
    by (auto simp: pipewrite_done pipewrite_sleep intro!: ends_bnd [OF every_pipes(7)] wrote_none)
qed


definition took :: "u64 \<Rightarrow> 'z kmach_scheme \<Rightarrow> nat \<Rightarrow> nat \<Rightarrow> int option \<Rightarrow> 'z kmach_scheme \<Rightarrow> bool" where
  "took pi s i n r t \<longleftrightarrow>
     (\<exists>cs. received pi s t cs \<and> length cs \<le> n \<and>
       (case r of None \<Rightarrow> True | Some k \<Rightarrow> k = -1 \<or> k = int (i + length cs) \<or> k + 1 = int (i + length cs)))"

lemma took_none: "pipe_inv (pipes s pi) \<Longrightarrow> pipes t = pipes s \<Longrightarrow> r \<in> {None, Some (-1), Some (int i)} \<Longrightarrow> took pi s i n r t"
  by (auto simp: took_def received_pipes intro!: exI [of _ "[]"])

lemma took_step:
  assumes "pipe_inv (pipes s pi)" "\<not> pipe_empty (pipes s pi)" "pipes u = pipes (set_pipe pi pipe_get s)" "took pi u (Suc i) n r t"
  shows "took pi s i (Suc n) r t"
proof -
  obtain cs where cs: "received pi u t cs" "length cs \<le> n"
    and r: "case r of None \<Rightarrow> True | Some k \<Rightarrow> k = -1 \<or> k = int (Suc i + length cs) \<or> k + 1 = int (Suc i + length cs)"
    using assms(4) by (auto simp: took_def)
  have "received pi (set_pipe pi pipe_get s) t cs" using cs(1) assms(3) by (simp add: received_def)
  then have "received pi s t (pipe_front (pipes s pi) # cs)" by (rule received_get [OF assms(1,2)])
  then show ?thesis unfolding took_def using cs(2) r
    by (intro exI [of _ "pipe_front (pipes s pi) # cs"]) (auto split: option.splits)
qed

lemma piperead_copy_ends:
  "pipe_inv (pipes s pi) \<Longrightarrow> ends (\<lambda>r t. took pi s i n (map_option int r) t) (piperead_copy p pi addr i n s)"
proof (induction n arbitrary: i s)
  case 0
  then show ?case by (simp add: took_none)
next
  case (Suc n)
  show ?case
  proof (cases "pipe_empty (pipes s pi)")
    case True
    with Suc.prems show ?thesis by (simp add: took_none)
  next
    case False
    let ?s = "set_pipe pi pipe_get s"
    have inv: "pipe_inv (pipes ?s pi)" using pipeq.inv_get [OF Suc.prems False] by (simp add: set_pipe_def)
    have lost: "took pi s i (Suc n) r t" if "pipes t = pipes ?s" "r = None \<or> r = Some (int i)" for r t
      unfolding took_def using that received_get [OF Suc.prems False, of t "[]"] inv
      by (intro exI [of _ "[pipe_front (pipes s pi)]"]) (auto simp: received_pipes)
    have "ends (\<lambda>r t. took pi s i (Suc n) (map_option int r) t) (piperead_copy p pi addr (Suc i) n u)" if "pipes u = pipes ?s" for u
      using inv that by (intro ends_mono [OF Suc.IH] took_step [OF Suc.prems False that]) simp_all
    then show ?thesis using False lost
      by (auto simp: Let_def intro!: ends_bnd [OF every_pipes(8)])
  qed
qed

lemma took_pipes: "pipes u = pipes t \<Longrightarrow> took pi s i n r t \<Longrightarrow> took pi s i n r u"
  by (simp add: took_def received_def)

lemma took_same: "pipes u = pipes s \<Longrightarrow> took pi u = took pi s"
  by (intro ext) (simp add: took_def received_def)

lemma took_weaken: "took pi s i n r t \<Longrightarrow> took pi s i n None t"
  by (auto simp: took_def)

lemma piperead_loop_ends:
  assumes "pipe_inv (pipes s pi)"
  shows "ends (took pi s 0 (nat n)) (piperead_loop p pi addr n s)"
proof -
  have "ends (took pi s 0 (nat n)) (bnd (release (PipeLock pi) s) (\<lambda>_ s. Ok (-1) s))"
    using assms by (intro ends_bnd [OF every_pipes(2)]) (auto intro!: took_none)
  moreover have "ends (took pi s 0 (nat n)) (bnd (sleep (PipeReadChan pi) (PipeLock pi) s) (\<lambda>_ s. Ok 0 s))"
    using assms by (intro ends_bnd [OF every_pipes(4)]) (auto intro!: took_none simp: sleep_not_Ok)
  moreover have "ends (took pi s 0 (nat n)) (bnd (wakeup (PipeWriteChan pi) t) (\<lambda>_ s. bnd (release (PipeLock pi) s) (\<lambda>_ s. Ok (int i) s)))"
    if "took pi s 0 (nat n) (Some (int i)) t" for i t
    using took_pipes that took_pipes [OF _ took_weaken [OF that]]
    by (intro ends_bnd [OF every_pipes(6)] ends_bnd [OF every_pipes(2)]) auto
  ultimately show ?thesis
    unfolding piperead_loop_def using piperead_copy_ends [OF assms, of 0 "nat n" p addr]
    by (auto intro!: ends_bnd_ends [where P = "\<lambda>r t. took pi s 0 (nat n) (map_option int r) t"])
qed


section \<open>Undisturbed calls\<close>

lemma set_pipe_mach [simp]:
  fixes s :: "'z kmach_scheme"
  shows "same_mach u (set_pipe pi f s) = same_mach u s" "cpus (set_pipe pi f s) = cpus s" "pmem (set_pipe pi f s) = pmem s"
    "procs (set_pipe pi f s) = procs s"
  by (simp_all add: set_pipe_def same_mach_def)

lemma pipes_enter [simp]: "pipes (enter lk s) = pipes s"
  by (simp add: enter_def push_off_def cpu_defs Let_def)

text \<open>The end of both functions: wakeup and release.\<close>

lemma wake_release:
  fixes s :: "'z kmach_scheme" and u :: "'z kmach_scheme"
  assumes "calm p s" and "same_mach (enter (PipeLock pi) s) u" and "cpus u = cpus (enter (PipeLock pi) s)"
  shows "\<exists>t. bnd (wakeup ch u) (\<lambda>_ s. bnd (release (PipeLock pi) s) (\<lambda>_ s. Ok r s)) = Ok r t \<and> same_mach s t \<and> pipes t = pipes u"
proof -
  obtain v where v: "wakeup ch u = Ok () v" "same_mach (enter (PipeLock pi) s) v" "cpus v = cpus (enter (PipeLock pi) s)"
      "mach.more v = mach.more u"
    using wakeup_enter [OF assms] by (metis lockid.distinct lockid.simps)
  obtain t where "release (PipeLock pi) v = Ok () t" "same_mach s t" "mach.more t = mach.more v"
    using release_same [OF calmD(3) [OF assms(1)] calmD(2) [OF assms(1)] v(2,3)] by blast
  with v show ?thesis using pipes_of_more by force
qed

lemma pipewrite_loop_calm:
  fixes s :: "'z kmach_scheme" and u :: "'z kmach_scheme"
  assumes "calm p s" and "same_mach (enter (PipeLock pi) s) u" and "cpus u = cpus (enter (PipeLock pi) s)"
    and "pipe_inv (pipes u pi)" and "length (pipe_items (pipes u pi)) + n \<le> PIPESIZE"
    and "pt_wf kend (pmem s) root" and "root = p_pagetable (procs s p)" and "urange (pmem s) root (addr + of_nat i) n"
  shows "\<exists>t. pipewrite_loop p pi addr i n u = Ok (int (i + n)) t \<and> same_mach s t \<and>
    pipe_inv (pipes t pi) \<and> pipe_items (pipes t pi) = pipe_items (pipes u pi) @ ubytes (pmem s) root (addr + of_nat i) n \<and>
    pipe_writeopen (pipes t pi) = pipe_writeopen (pipes u pi)"
  using assms(2-5,8)
proof (induction n arbitrary: i u)
  case 0
  obtain t where "pipewrite_loop p pi addr i 0 u = Ok (int i) t" "same_mach s t" "pipes t = pipes u"
    using wake_release [OF assms(1) 0(1,2), of "PipeReadChan pi" "int i"] unfolding pipewrite_loop.simps by blast
  with 0(3) show ?case by (intro exI [of _ t]) (simp add: ubytes_def)
next
  case (Suc n)
  have pm: "pmem u = pmem s" "p_pagetable (procs u p) = root"
    using Suc.prems(1) same_mach_proc(2) [OF Suc.prems(1), of p] assms(7) by (simp_all add: same_mach_def)
  have nf: "\<not> pipe_full (pipes u pi)" using pipeq.full_iff [OF Suc.prems(3)] Suc.prems(4) by simp
  have ur: "urange (pmem s) root (addr + of_nat i) 1" "urange (pmem s) root (addr + of_nat (Suc i)) n"
    using Suc.prems(5) urange_add [of "pmem s" root "addr + of_nat i" 1 n] by (simp_all add: ac_simps)
  let ?c = "ubyte (pmem s) root (addr + of_nat i)"
  let ?v = "set_pipe pi (pipe_put ?c) u"
  have "copyin root (addr + of_nat i) 1 u = Ok (0, [?c]) u"
    using copyin_reads [of kend u root "addr + of_nat i" 1] ur(1) assms(6) by (simp add: pm ubytes_def)
  then have eq: "pipewrite_loop p pi addr i (Suc n) u = pipewrite_loop p pi addr (Suc i) n ?v"
    using nf by (simp add: pm)
  have items: "pipe_items (pipes ?v pi) = pipe_items (pipes u pi) @ [?c]" "pipe_inv (pipes ?v pi)"
    "pipe_writeopen (pipes ?v pi) = pipe_writeopen (pipes u pi)"
    using pipeq.items_put [OF Suc.prems(3) nf] pipeq.inv_put [OF Suc.prems(3) nf] by (simp_all add: set_pipe_def pipe_put_def)
  have "ubytes (pmem s) root (addr + of_nat i) (Suc n) = ?c # ubytes (pmem s) root (addr + of_nat (Suc i)) n"
    using ubytes_add [of "pmem s" root "addr + of_nat i" 1 n] by (simp add: ubytes_def ac_simps)
  moreover obtain t where "pipewrite_loop p pi addr (Suc i) n ?v = Ok (int (Suc i + n)) t" "same_mach s t" "pipe_inv (pipes t pi)"
      "pipe_items (pipes t pi) = pipe_items (pipes ?v pi) @ ubytes (pmem s) root (addr + of_nat (Suc i)) n"
      "pipe_writeopen (pipes t pi) = pipe_writeopen (pipes ?v pi)"
    using Suc.IH [of ?v "Suc i", OF _ _ items(2) _ ur(2)] Suc.prems(1,2,4) items(1) by fastforce
  ultimately show ?case unfolding eq using items by (intro exI [of _ t]) simp
qed

lemma piperead_copy_calm:
  fixes u :: "'z kmach_scheme"
  assumes "pipe_inv (pipes u pi)" and "pipe_items (pipes u pi) = bs @ rest"
    and "user_sep kend (pmem u) root" and "root = p_pagetable (procs u p)" and "urange (pmem u) root (addr + of_nat i) (length bs)"
    and "length bs < 2 ^ 64"
  shows "\<exists>m x. piperead_copy p pi addr i (length bs) u = Ok (i + length bs) (u\<lparr>pmem := m, pipes := (pipes u)(pi := x)\<rparr>) \<and>
    pipe_inv x \<and> pipe_items x = rest \<and> user_sep kend m root \<and> upage m root = upage (pmem u) root \<and>
    uonly (pmem u) root (addr + of_nat i) (length bs) m \<and> uwritten (pmem u) root (addr + of_nat i) bs m"
  using assms
proof (induction bs arbitrary: i u)
  case Nil
  then show ?case by (intro exI [of _ "pmem u"] exI [of _ "pipes u pi"]) (simp add: uonly_def uwritten_def)
next
  case (Cons c bs)
  have ne: "\<not> pipe_empty (pipes u pi)" using pipeq.vacant_iff [OF Cons.prems(1)] Cons.prems(2) by simp
  have it: "pipe_front (pipes u pi) = c" "pipe_items (pipe_get (pipes u pi)) = bs @ rest" "pipe_inv (pipe_get (pipes u pi))"
    using pipeq.items_get [OF Cons.prems(1) ne] Cons.prems(2) pipeq.inv_get [OF Cons.prems(1) ne] by simp_all
  let ?v = "set_pipe pi pipe_get u"
  have ur: "urange (pmem u) root (addr + of_nat i) 1" "urange (pmem u) root (addr + of_nat (Suc i)) (length bs)"
    using Cons.prems(5) urange_add [of "pmem u" root "addr + of_nat i" 1 "length bs"] by (simp_all add: ac_simps)
  obtain m1 where m1: "copyout root (addr + of_nat i) [c] ?v = Ok 0 (?v\<lparr>pmem := m1\<rparr>)" "user_sep kend m1 root"
      "upage m1 root = upage (pmem u) root" "uonly (pmem u) root (addr + of_nat i) 1 m1" "uwritten (pmem u) root (addr + of_nat i) [c] m1"
    using copyout_writes [of kend ?v root "[c]" "addr + of_nat i"] Cons.prems(3) ur(1) by (simp add: set_pipe_mach) blast
  let ?w = "?v\<lparr>pmem := m1\<rparr>"
  have "urange m1 root (addr + of_nat (Suc i)) (length bs)" using ur(2) by (simp add: urange_def m1(3))
  then obtain m x where r: "piperead_copy p pi addr (Suc i) (length bs) ?w = Ok (Suc i + length bs) (?w\<lparr>pmem := m, pipes := (pipes ?w)(pi := x)\<rparr>)"
      "pipe_inv x" "pipe_items x = rest" "user_sep kend m root" "upage m root = upage m1 root"
      "uonly m1 root (addr + of_nat (Suc i)) (length bs) m" "uwritten m1 root (addr + of_nat (Suc i)) bs m"
    using Cons.IH [of ?w "Suc i"] it(2,3) m1(2) Cons.prems(4,6) by (fastforce simp: set_pipe_def)
  have "uwritten (pmem u) root (addr + of_nat i) ([c] @ bs) m"
    by (rule uwritten_append [OF Cons.prems(3) m1(5)]) (use r(6,7) m1(3) ur(1) Cons.prems(6) in \<open>simp_all add: ac_simps\<close>)
  moreover have "uonly (pmem u) root (addr + of_nat i) (1 + length bs) m"
    by (rule uonly_trans [OF m1(4) _ m1(3)]) (use r(6) in \<open>simp add: ac_simps\<close>)
  moreover have "piperead_copy p pi addr i (Suc (length bs)) u = Ok (i + Suc (length bs)) (u\<lparr>pmem := m, pipes := (pipes u)(pi := x)\<rparr>)"
    using ne r(1) by (simp add: Let_def it(1) m1(1) Cons.prems(4) [symmetric]) (simp add: set_pipe_def)
  ultimately show ?case using r(2-5) m1(3) by (intro exI [of _ m] exI [of _ x]) (simp add: fun_upd_def del: piperead_copy.simps)
qed


lemma ubytes_simps [simp]: "length (ubytes m root va n) = n" "ubytes m root va n = [] \<longleftrightarrow> n = 0"
  by (simp_all add: ubytes_def)

lemma enter_pmem: "enter lk (s\<lparr>pmem := m\<rparr>) = (enter lk s)\<lparr>pmem := m\<rparr>"
  by (simp add: enter_def push_off_def cpu_defs Let_def)

lemma calm_pmem: "calm p (s\<lparr>pmem := m\<rparr>) = calm p s"
  by (simp add: calm_def intr_ok_def cpu_defs lock_free_def)

lemma pipewrite_calm:
  fixes s :: "'z kmach_scheme"
  assumes "calm p s" and "pipe_inv (pipes s pi)" and "length (pipe_items (pipes s pi)) + n \<le> PIPESIZE"
    and "pt_wf kend (pmem s) (p_pagetable (procs s p))" and "urange (pmem s) (p_pagetable (procs s p)) src n"
  shows "\<exists>t. pipewrite pi src (int n) s = Ok (int n) t \<and> same_mach s t \<and> pipe_inv (pipes t pi) \<and>
    pipe_items (pipes t pi) = pipe_items (pipes s pi) @ ubytes (pmem s) (p_pagetable (procs s p)) src n"
proof -
  let ?s = "note_intena s"
  have sm: "same_mach s ?s" ..
  have c: "calm p ?s" by (rule calm_same [OF assms(1) sm])
  have k: "pipes ?s = pipes s" "pmem ?s = pmem s" "procs ?s = procs s" by (simp_all add: note_intena_def cpu_defs)
  have eq: "pipewrite pi src (int n) s = pipewrite_loop p pi src 0 n (enter (PipeLock pi) ?s)"
    by (simp add: pipewrite_def myproc_eq calmD(1,2) [OF assms(1)] acquire_free [OF calmD(3) [OF c]])
  obtain t where "pipewrite_loop p pi src 0 n (enter (PipeLock pi) ?s) = Ok (int n) t" "same_mach ?s t" "pipe_inv (pipes t pi)"
      "pipe_items (pipes t pi) = pipe_items (pipes s pi) @ ubytes (pmem s) (p_pagetable (procs s p)) src n"
    using pipewrite_loop_calm [OF c, of pi "enter (PipeLock pi) ?s" n kend "p_pagetable (procs s p)" src 0] assms(2-5)
    by (fastforce simp: k)
  with eq same_mach_trans [OF sm] show ?thesis by auto
qed

lemma piperead_calm:
  fixes s :: "'z kmach_scheme"
  assumes "calm p s" and "pipe_inv (pipes s pi)" and "pipe_items (pipes s pi) = bs @ rest" and "bs \<noteq> []"
    and "user_sep kend (pmem s) (p_pagetable (procs s p))" and "urange (pmem s) (p_pagetable (procs s p)) dst (length bs)"
    and "length bs < 2 ^ 64"
  shows "\<exists>t. piperead pi dst (int (length bs)) s = Ok (int (length bs)) t \<and> pipe_items (pipes t pi) = rest \<and>
    ubytes (pmem t) (p_pagetable (procs s p)) dst (length bs) = bs \<and> uonly (pmem s) (p_pagetable (procs s p)) dst (length bs) (pmem t)"
proof -
  let ?s = "note_intena s" and ?root = "p_pagetable (procs s p)" and ?lk = "PipeLock pi"
  have c: "calm p ?s" by (rule calm_same [OF assms(1) same_mach_note_intena])
  have k: "pipes ?s = pipes s" "pmem ?s = pmem s" "procs ?s = procs s" by (simp_all add: note_intena_def cpu_defs)
  have ne: "\<not> pipe_empty (pipes s pi)" using pipeq.vacant_iff [OF assms(2)] assms(3,4) by simp
  have e: "pipes (enter ?lk ?s) = pipes s" "pmem (enter ?lk ?s) = pmem s" "procs (enter ?lk ?s) = procs s" by (simp_all add: k)
  have z: "dst + of_nat 0 = dst" by simp
  obtain m x where m: "piperead_copy p pi dst 0 (length bs) (enter ?lk ?s) = Ok (length bs) ((enter ?lk ?s)\<lparr>pmem := m, pipes := (pipes s)(pi := x)\<rparr>)"
      "pipe_items x = rest" "upage m ?root = upage (pmem s) ?root" "uonly (pmem s) ?root dst (length bs) m" "uwritten (pmem s) ?root dst bs m"
    using piperead_copy_calm [of "enter ?lk ?s" pi bs rest kend ?root p dst 0, unfolded e z add_0,
        OF assms(2,3,5) refl assms(6,7)] by blast
  let ?u = "(enter ?lk ?s)\<lparr>pmem := m, pipes := (pipes s)(pi := x)\<rparr>"
  have u: "same_mach (enter ?lk (?s\<lparr>pmem := m\<rparr>)) ?u" "cpus ?u = cpus (enter ?lk (?s\<lparr>pmem := m\<rparr>))"
    unfolding enter_pmem by (simp_all add: same_mach_def)
  obtain t where t: "bnd (wakeup (PipeWriteChan pi) ?u) (\<lambda>_ s. bnd (release ?lk s) (\<lambda>_ s. Ok (int (length bs)) s)) = Ok (int (length bs)) t"
      "same_mach (?s\<lparr>pmem := m\<rparr>) t" "pipes t = pipes ?u"
    using wake_release [OF calm_pmem [THEN iffD2, OF c] u, of "PipeWriteChan pi" "int (length bs)"] by blast
  have "piperead pi dst (int (length bs)) s = Ok (int (length bs)) t"
    using ne t(1) m(1)
    by (simp add: piperead_def piperead_loop_def myproc_eq calmD(1,2) [OF assms(1)] acquire_free [OF calmD(3) [OF c]] k)
  moreover have "pmem t = m" using t(2) by (simp add: same_mach_def)
  moreover have "ubytes m ?root dst (length bs) = bs"
    using m(5) by (auto simp: ubytes_def ubyte_def upa_def m(3) uwritten_def intro!: nth_equalityI)
  ultimately show ?thesis using m(2,4) t(3) by (intro exI [of _ t]) simp
qed

section \<open>Properties\<close>


lemma pipe_inv_pipe0: "pipe_inv pipe0" "pipe_items pipe0 = []"
  by (simp_all add: pipe_inv_def pipe0_def pipe_items_def ring_items_empty)


text \<open>C22: What one process writes to an empty pipe, the next reader gets. In an undisturbed run a write of n bytes, at most
  PIPESIZE, from mapped user memory returns n and does not block; any process that afterwards reads n bytes from the pipe into mapped
  memory of its own gets n, finds there exactly the bytes the writer had in its memory, in order, and leaves the pipe
  empty; nothing of physical memory outside the reader's destination range changes.\<close>

theorem pipe_round_trip:
  fixes s :: "'z kmach_scheme"
  assumes "calm p s" and "pipe_inv (pipes s pi)" and "pipe_items (pipes s pi) = []" and "n \<le> PIPESIZE" and "0 < n"
    and "pt_wf kend (pmem s) (p_pagetable (procs s p))" and "urange (pmem s) (p_pagetable (procs s p)) src n"
  shows "\<exists>t. pipewrite pi src (int n) s = Ok (int n) t \<and> same_mach s t \<and>
    (\<forall>q (v :: 'z kmach_scheme). calm q v \<and> pipes v pi = pipes t pi \<and> user_sep kend (pmem v) (p_pagetable (procs v q)) \<and>
        urange (pmem v) (p_pagetable (procs v q)) dst n \<longrightarrow>
      (\<exists>u. piperead pi dst (int n) v = Ok (int n) u \<and> pipe_items (pipes u pi) = [] \<and>
        ubytes (pmem u) (p_pagetable (procs v q)) dst n = ubytes (pmem s) (p_pagetable (procs s p)) src n \<and>
        uonly (pmem v) (p_pagetable (procs v q)) dst n (pmem u)))"
proof -
  obtain t where t: "pipewrite pi src (int n) s = Ok (int n) t" "same_mach s t" "pipe_inv (pipes t pi)"
      "pipe_items (pipes t pi) = ubytes (pmem s) (p_pagetable (procs s p)) src n"
    using pipewrite_calm [OF assms(1,2) _ assms(6,7)] assms(3,4) by auto
  have "\<exists>u. piperead pi dst (int n) v = Ok (int n) u \<and> pipe_items (pipes u pi) = [] \<and>
        ubytes (pmem u) (p_pagetable (procs v q)) dst n = ubytes (pmem s) (p_pagetable (procs s p)) src n \<and>
        uonly (pmem v) (p_pagetable (procs v q)) dst n (pmem u)"
    if v: "calm q v" "pipes v pi = pipes t pi" "user_sep kend (pmem v) (p_pagetable (procs v q))"
      "urange (pmem v) (p_pagetable (procs v q)) dst n" for q and v :: "'z kmach_scheme"
  proof -
    have "pipe_inv (pipes v pi)" using t(3) v(2) by simp
    moreover have "pipe_items (pipes v pi) = ubytes (pmem s) (p_pagetable (procs s p)) src n @ []" using t(4) v(2) by simp
    ultimately show ?thesis
      using piperead_calm [OF v(1) _ _ _ v(3), of pi "ubytes (pmem s) (p_pagetable (procs s p)) src n" "[]" dst] v(4) assms(4,5)
      by (simp add: PIPESIZE_def)
  qed
  with t(1,2) show ?thesis by blast
qed

theorem pipe_round_trip_witness:
  "\<exists>t u. pipewrite 5 10 3 kboot_user = Ok 3 t \<and> piperead 5 100 3 t = Ok 3 u \<and>
     ubytes (pmem u) 0x80001000 100 3 = ubytes demo_mem 0x80001000 10 3"
proof -
  have m: "urange demo_mem 0x80001000 va 3" if "unat va < 4000" for va
    using that by (auto simp: urange_def demo_mapped)
  have wf: "pt_wf 0x80000000 demo_mem 0x80001000" using demo_user_sep by (simp add: user_sep_def)
  obtain t where t: "pipewrite 5 10 3 kboot_user = Ok 3 t" "same_mach kboot_user t"
    and r: "\<forall>q (v :: kmach). calm q v \<and> pipes v 5 = pipes t 5 \<and> user_sep 0x80000000 (pmem v) (p_pagetable (procs v q)) \<and>
        urange (pmem v) (p_pagetable (procs v q)) 100 3 \<longrightarrow>
      (\<exists>u. piperead 5 100 3 v = Ok 3 u \<and> pipe_items (pipes u 5) = [] \<and>
        ubytes (pmem u) (p_pagetable (procs v q)) 100 3 = ubytes demo_mem 0x80001000 10 3 \<and>
        uonly (pmem v) (p_pagetable (procs v q)) 100 3 (pmem u))"
    using pipe_round_trip [OF calm_kboot_user, of 5 3 "0x80000000" 10 100] m [of 10] wf
    by (auto simp: pipe_inv_pipe0 PIPESIZE_def)
  have "pmem t = demo_mem" "p_pagetable (procs t 0) = 0x80001000"
    using t(2) same_mach_proc(2) [OF t(2), of 0] by (simp_all add: same_mach_def)
  with r [rule_format, of 0 t] calm_same [OF calm_kboot_user t(2)] demo_user_sep m [of 100] show ?thesis
    using t(1) by auto
qed

end
