(* ===== verification/Console_Line.thy ===== *)
theory Console_Line
  imports Console Fifo Outcome_Ends
begin

text \<open>
  The console as a line discipline. The ring of the input side is read as two byte strings, the
  complete input that consoleread may take and the line that is still being edited; the interrupt
  handler is an editor on them. The ring of the output side is a bounded queue, and what it has held
  reaches the transmit register in order.
\<close>

section \<open>The input ring\<close>

lemma ring_split:
  assumes "unat (w - r) + unat (e - w) < 2 ^ 32"
  shows "unat (e - r) = unat (w - r) + unat (e - w)" "ring_items N buf r e = ring_items N buf r w @ ring_items N buf w e"
proof -
  have "unat ((w - r) + (e - w)) = unat (w - r) + unat (e - w)" using assms by (intro unat_add_small) simp
  then show u: "unat (e - r) = unat (w - r) + unat (e - w)" by simp
  show "ring_items N buf r e = ring_items N buf r w @ ring_items N buf w e"
  proof (rule nth_equalityI)
    show "length (ring_items N buf r e) = length (ring_items N buf r w @ ring_items N buf w e)" by (simp add: u)
  next
    fix i assume i: "i < length (ring_items N buf r e)"
    show "ring_items N buf r e ! i = (ring_items N buf r w @ ring_items N buf w e) ! i"
    proof (cases "i < unat (w - r)")
      case True
      with i show ?thesis by (simp add: nth_append ring_items_def)
    next
      case False
      then have "w + of_nat (i - unat (w - r)) = r + of_nat i" by (simp add: of_nat_diff)
      with False i u show ?thesis by (simp add: nth_append ring_items_def add.commute)
    qed
  qed
qed

lemma ring_back:
  assumes "e \<noteq> w"
  shows "ring_items N buf w (e - 1) = butlast (ring_items N buf w e)" "unat (e - 1 - w) = unat (e - w) - 1"
    "last (ring_items N buf w e) = buf ! (unat (e - 1) mod N)"
proof -
  have nz: "e - w \<noteq> 0" using assms by simp
  show u: "unat (e - 1 - w) = unat (e - w) - 1" using unat_minus_one [OF nz] by (simp add: algebra_simps)
  have p: "unat (e - w) = Suc (unat (e - w) - 1)" using nz by (metis Suc_pred' unat_gt_0 word_gt_0)
  then have up: "[0..<unat (e - w)] = [0..<unat (e - w) - 1] @ [unat (e - w) - 1]" by (metis upt_Suc_append zero_le)
  show "ring_items N buf w (e - 1) = butlast (ring_items N buf w e)" unfolding ring_items_def u up by simp
  have "1 \<le> unat (e - w)" using p by linarith
  then have "w + of_nat (unat (e - w) - 1) = e - 1" by (simp add: of_nat_diff)
  then show "last (ring_items N buf w e) = buf ! (unat (e - 1) mod N)" unfolding ring_items_def up by simp
qed

definition ready :: "cons \<Rightarrow> byte list" where
  "ready k = ring_items INPUT_BUF (cons_buf k) (cons_r k) (cons_w k)"

definition pending :: "cons \<Rightarrow> byte list" where
  "pending k = ring_items INPUT_BUF (cons_buf k) (cons_w k) (cons_e k)"

definition cons_inv :: "cons \<Rightarrow> bool" where
  "cons_inv k \<longleftrightarrow> length (cons_buf k) = INPUT_BUF \<and> length (ready k) + length (pending k) \<le> INPUT_BUF \<and> 10 \<notin> set (pending k)"

definition cons_abs :: "cons \<Rightarrow> byte list \<times> byte list" where
  "cons_abs k = (ready k, pending k)"

text \<open>What a character from the line does to the complete input and the line being edited.\<close>

definition edit :: "byte \<Rightarrow> byte list \<times> byte list \<Rightarrow> byte list \<times> byte list" where
  "edit c q =
     (case q of (rd, ln) \<Rightarrow>
        if c = C_P then (rd, ln)
        else if c = C_U then (rd, [])
        else if c = C_H \<or> c = 0x7f then (rd, butlast ln)
        else if c \<noteq> 0 \<and> length rd + length ln < INPUT_BUF then
          (let c = (if c = 13 then 10 else c); ln = ln @ [c]
           in if c = 10 \<or> c = C_D \<or> length rd + length ln = INPUT_BUF then (rd @ ln, []) else (rd, ln))
        else (rd, ln))"

lemma INPUT_pow: "INPUT_BUF dvd 2 ^ 32" "INPUT_BUF < 2 ^ 32" "0 < INPUT_BUF"
  by (simp_all add: INPUT_BUF_def)

lemma cons_split:
  assumes "cons_inv k"
  shows "unat (cons_e k - cons_r k) = length (ready k) + length (pending k)"
    "ring_items INPUT_BUF (cons_buf k) (cons_r k) (cons_e k) = ready k @ pending k"
proof -
  have l: "unat (cons_w k - cons_r k) + unat (cons_e k - cons_w k) < 2 ^ 32"
    using assms by (simp add: cons_inv_def ready_def pending_def INPUT_BUF_def)
  show "unat (cons_e k - cons_r k) = length (ready k) + length (pending k)"
    "ring_items INPUT_BUF (cons_buf k) (cons_r k) (cons_e k) = ready k @ pending k"
    using ring_split [OF l] by (simp_all add: ready_def pending_def)
qed

lemma cons_room:
  assumes "cons_inv k"
  shows "cons_e k - cons_r k < of_nat INPUT_BUF \<longleftrightarrow> length (ready k) + length (pending k) < INPUT_BUF"
  using cons_split(1) [OF assms] by (simp add: word_less_nat_alt INPUT_BUF_def)

lemma pending_empty: "pending k = [] \<longleftrightarrow> cons_e k = cons_w k"
  by (auto simp: pending_def ring_items_empty)

lemma cons_erase:
  assumes "cons_inv k" and "cons_e k \<noteq> cons_w k"
  defines "j \<equiv> k\<lparr>cons_e := cons_e k - 1\<rparr>"
  shows "cons_inv j" "ready j = ready k" "pending j = butlast (pending k)"
    "cons_buf k ! (unat (cons_e k - 1) mod INPUT_BUF) \<noteq> 10"
proof -
  note b = ring_back(1,3) [OF assms(2), of INPUT_BUF "cons_buf k"]
  show p: "pending j = butlast (pending k)" using b(1) by (simp add: j_def pending_def)
  show r: "ready j = ready k" by (simp add: j_def ready_def)
  show "cons_inv j" using assms(1) in_set_butlastD [of 10 "pending k"] unfolding cons_inv_def r p by (auto simp: j_def)
  have "pending k \<noteq> []" using assms(2) by (simp add: pending_empty)
  then have "last (pending k) \<noteq> 10" using assms(1) last_in_set unfolding cons_inv_def by metis
  then show "cons_buf k ! (unat (cons_e k - 1) mod INPUT_BUF) \<noteq> 10" using b(2) by (simp add: pending_def)
qed

lemma cons_append:
  fixes c :: byte and k :: cons
  assumes "cons_inv k" and "length (ready k) + length (pending k) < INPUT_BUF"
  defines "j \<equiv> k\<lparr>cons_buf := (cons_buf k)[unat (cons_e k) mod INPUT_BUF := c], cons_e := cons_e k + 1\<rparr>"
  shows "ready j = ready k" "pending j = pending k @ [c]" "length (cons_buf j) = INPUT_BUF"
    "ready (j\<lparr>cons_w := cons_e j\<rparr>) = ready k @ pending k @ [c]" "pending (j\<lparr>cons_w := cons_e j\<rparr>) = []"
    "cons_e j = cons_r j + of_nat INPUT_BUF \<longleftrightarrow> length (ready k) + length (pending k @ [c]) = INPUT_BUF"
proof -
  have n: "length (cons_buf k) = INPUT_BUF" using assms(1) by (simp add: cons_inv_def)
  have u: "unat (cons_e k - cons_r k) < INPUT_BUF" using cons_split(1) [OF assms(1)] assms(2) by simp
  have all: "ring_items INPUT_BUF (cons_buf j) (cons_r k) (cons_e k + 1) = ready k @ pending k @ [c]"
    using ring_put [OF INPUT_pow(1,2) n u, of c] cons_split(2) [OF assms(1)] by (simp add: j_def)
  have len: "unat (cons_e k + 1 - cons_w k) = Suc (length (pending k))"
  proof -
    have "unat ((cons_e k - cons_w k) + 1) = unat (cons_e k - cons_w k) + unat (1 :: u32)"
      using assms(2) by (intro unat_add_small) (simp add: pending_def INPUT_BUF_def)
    moreover have eq: "cons_e k + 1 - cons_w k = (cons_e k - cons_w k) + 1" by simp
    ultimately show ?thesis unfolding eq by (simp add: pending_def)
  qed
  have "unat (cons_w k - cons_r k) + unat (cons_e k + 1 - cons_w k) < 2 ^ 32"
    unfolding len using assms(2) by (simp add: ready_def INPUT_BUF_def)
  from ring_split(2) [OF this, of INPUT_BUF "cons_buf j"] all
  have "ring_items INPUT_BUF (cons_buf j) (cons_r k) (cons_w k) @ ring_items INPUT_BUF (cons_buf j) (cons_w k) (cons_e k + 1)
      = ready k @ pending k @ [c]" by simp
  then have "ring_items INPUT_BUF (cons_buf j) (cons_r k) (cons_w k) = ready k"
      "ring_items INPUT_BUF (cons_buf j) (cons_w k) (cons_e k + 1) = pending k @ [c]"
    by (simp_all add: append_eq_append_conv ready_def)
  then show "ready j = ready k" "pending j = pending k @ [c]" by (simp_all add: ready_def pending_def j_def)
  show "length (cons_buf j) = INPUT_BUF" by (simp add: j_def n)
  show "ready (j\<lparr>cons_w := cons_e j\<rparr>) = ready k @ pending k @ [c]" using all by (simp add: ready_def j_def)
  show "pending (j\<lparr>cons_w := cons_e j\<rparr>) = []" by (simp add: pending_empty)
  have "length (ready k @ pending k @ [c]) = unat (cons_e k + 1 - cons_r k)" unfolding all [symmetric] by simp
  then show "cons_e j = cons_r j + of_nat INPUT_BUF \<longleftrightarrow> length (ready k) + length (pending k @ [c]) = INPUT_BUF"
    using ring_full [OF INPUT_pow(2), of "cons_e k + 1" "cons_r k"] by (simp add: j_def)
qed

lemma cons_take:
  assumes "cons_inv k" and "cons_r k \<noteq> cons_w k"
  defines "j \<equiv> k\<lparr>cons_r := cons_r k + 1\<rparr>"
  shows "cons_inv j" "ready k = cons_buf k ! (unat (cons_r k) mod INPUT_BUF) # ready j" "pending j = pending k"
proof -
  show r: "ready k = cons_buf k ! (unat (cons_r k) mod INPUT_BUF) # ready j"
    using ring_get [OF assms(2) [symmetric], of INPUT_BUF "cons_buf k"] by (simp add: ready_def j_def)
  show p: "pending j = pending k" by (simp add: pending_def j_def)
  have "length (ready k) = Suc (length (ready j))" unfolding r by simp
  then show "cons_inv j" using assms(1) unfolding cons_inv_def p by (simp add: j_def)
qed

section \<open>What leaves the input alone\<close>

lemma console_of_more:
  fixes s :: "'z umach_scheme" and t :: "'z umach_scheme"
  shows "mach.more t = mach.more s \<Longrightarrow> console t = console s"
  by (cases s, cases t) simp

lemma console_frame: "every (\<lambda>t. mach.more t = mach.more s) r \<Longrightarrow> every (\<lambda>t. console t = console s) r" for s :: "'z umach_scheme"
  by (erule every_mono) (rule console_of_more)

lemma every_either_copyout [every_intros]:
  "mach.more s = m \<Longrightarrow> every (\<lambda>t. mach.more t = m) (either_copyout u dst src s)"
  unfolding either_copyout_def by (intro every_intros) simp_all

lemmas every_console =
  console_frame [OF every_acquire [OF refl]] console_frame [OF every_release [OF refl]]
  console_frame [OF every_myproc [OF refl]] console_frame [OF every_sleep [OF refl]]
  console_frame [OF every_sleep_resume [OF refl]] console_frame [OF every_wakeup [OF refl]]
  console_frame [OF every_either_copyout [OF refl]] console_frame [OF every_pop_off [OF refl]]

lemma console_upds [simp]:
  "console (push_off s) = console s" "console (WriteReg r v s) = console s" "console (s\<lparr>u_lsr := x\<rparr>) = console s"
  "console (set_cons f s) = f (console s)"
  by (simp_all add: push_off_def cpu_defs Let_def WriteReg_def set_cons_def)

lemma pop_off_returns: "ends (\<lambda>r t. r \<noteq> None) (pop_off s)"
  by (simp add: pop_off_def Let_def)

text \<open>Echoing never waits for another process.\<close>

definition echoed :: "cons \<Rightarrow> unit option \<Rightarrow> 'z umach_scheme \<Rightarrow> bool" where
  "echoed k r t \<longleftrightarrow> r \<noteq> None \<and> console t = k"

lemma uartputc_sync_ends: "ends (echoed (console s)) (uartputc_sync c s)"
proof -
  have "ends (echoed (console u)) (pop_off u)" for u :: "'a umach_scheme"
    using pop_off_returns [of u] every_console(8) [of u] by (cases "pop_off u") (auto simp: echoed_def)
  from this [of "WriteReg THR c ((push_off s)\<lparr>u_lsr := vs\<rparr>)" for vs] show ?thesis
    by (auto simp: uartputc_sync_def Let_def split: option.split)
qed

lemma ends_bnd_echoed:
  "ends (echoed k) r \<Longrightarrow> (\<And>t. console t = k \<Longrightarrow> ends Q (f () t)) \<Longrightarrow> ends Q (bnd r f)"
  by (cases r) (auto simp: echoed_def)

lemma consputc_ends: "console s = k \<Longrightarrow> ends (echoed k) (consputc c s)"
proof -
  assume k: "console s = k"
  have u: "console t = k \<Longrightarrow> ends (echoed k) (uartputc_sync d t)" for d and t :: "'a umach_scheme"
    using uartputc_sync_ends [of t d] by simp
  show ?thesis unfolding consputc_def
    by (cases c; simp only: option.case; (rule ends_bnd_echoed u k | assumption)+)
qed

lemma every_consputc: "console s = k \<Longrightarrow> every (\<lambda>t. console t = k) (consputc c s)"
  using consputc_ends [of s k c] by (cases "consputc c s") (auto simp: echoed_def)

lemma every_putchars: "console s = k \<Longrightarrow> every (\<lambda>t. console t = k) (putchars cs s)"
  by (induction cs arbitrary: s) (auto intro!: every_bnd every_consputc)

lemma every_parg:
  "(\<And>x as. every P (f x as)) \<Longrightarrow> every P (case args of PInt x # as \<Rightarrow> f x as | _ \<Rightarrow> Panic m)"
  "(\<And>x as. every P (g x as)) \<Longrightarrow> every P (case args of PPtr x # as \<Rightarrow> g x as | _ \<Rightarrow> Panic m)"
  "(\<And>x as. every P (h x as)) \<Longrightarrow> every P (case args of PStr x # as \<Rightarrow> h x as | _ \<Rightarrow> Panic m)"
  by (simp_all split: list.split parg.split)

lemma every_printf_loop: "console s = k \<Longrightarrow> every (\<lambda>t. console t = k) (printf_loop fmt args s)"
proof (induction "length fmt" arbitrary: fmt args s rule: less_induct)
  case less
  consider "fmt = []" | c where "fmt = [c]" | c d rest where "fmt = c # d # rest" by (metis list.exhaust)
  then show ?case
  proof cases
    case (3 c d rest)
    have ih: "console t = k \<Longrightarrow> every (\<lambda>t. console t = k) (printf_loop rest as t)"
      "console t = k \<Longrightarrow> every (\<lambda>t. console t = k) (printf_loop (d # rest) as t)" for as and t :: "'a umach_scheme"
      using less.hyps [of rest] less.hyps [of "d # rest"] by (simp_all add: 3)
    show ?thesis unfolding 3 printf_loop.simps printint_def printptr_def
      by (intro every_if every_bnd every_consputc every_parg every_putchars ih less.prems)
  qed (simp_all add: every_consputc less.prems)
qed

lemma every_printf: "console s = k \<Longrightarrow> every (\<lambda>t. console t = k) (printf fmt args s)"
proof -
  assume k: "console s = k"
  have u: "console t = k \<Longrightarrow> every (\<lambda>t. console t = k) (acquire PrLock t)" "console t = k \<Longrightarrow> every (\<lambda>t. console t = k) (release PrLock t)"
    for t :: "'a umach_scheme" using every_console(1,2) [of t PrLock] by simp_all
  show ?thesis unfolding printf_def Let_def using k by (intro every_bnd every_if every_printf_loop u) simp_all
qed

lemma every_procdump: "every (\<lambda>t. console t = console s) (procdump s)"
proof -
  have "console s = k \<Longrightarrow> every (\<lambda>t. console t = k) (procdump_loop p n s)" for k p n and s :: "'a umach_scheme"
    by (induction n arbitrary: p s) (auto intro!: every_bnd every_printf)
  then show ?thesis unfolding procdump_def by (intro every_bnd every_printf) auto
qed


section \<open>The interrupt handler\<close>

lemma kill_line_ends:
  "cons_inv (console s) \<Longrightarrow> n = length (pending (console s)) \<Longrightarrow>
   ends (echoed ((console s)\<lparr>cons_e := cons_w (console s)\<rparr>)) (kill_line n s)"
proof (induction n arbitrary: s)
  case 0
  then have "cons_e (console s) = cons_w (console s)" using pending_empty by fastforce
  then show ?case by (simp add: echoed_def)
next
  case (Suc n)
  let ?k = "console s"
  let ?s = "set_cons (\<lambda>k. k\<lparr>cons_e := cons_e k - 1\<rparr>) s"
  have ne: "cons_e ?k \<noteq> cons_w ?k" using Suc.prems(2) pending_empty [of ?k] by auto
  note e = cons_erase [OF Suc.prems(1) ne]
  have "ends (echoed (?k\<lparr>cons_e := cons_w ?k\<rparr>)) (kill_line n t)" if "console t = console ?s" for t :: "'a umach_scheme"
    using Suc.IH [of t] e Suc.prems(2) [symmetric] that by simp
  then show ?case using ne e(4) by (auto simp: Let_def intro!: ends_bnd_echoed [OF consputc_ends [OF refl]])
qed

lemma cons_kill:
  assumes "cons_inv k"
  shows "cons_inv (k\<lparr>cons_e := cons_w k\<rparr>)" "ready (k\<lparr>cons_e := cons_w k\<rparr>) = ready k" "pending (k\<lparr>cons_e := cons_w k\<rparr>) = []"
  using assms by (simp_all add: cons_inv_def ready_def pending_def ring_items_def)

definition edited :: "byte \<Rightarrow> cons \<Rightarrow> unit option \<Rightarrow> 'z umach_scheme \<Rightarrow> bool" where
  "edited c k r t \<longleftrightarrow> cons_inv (console t) \<and>
     (cons_abs (console t) = edit c (cons_abs k) \<or> r = None \<and> cons_abs (console t) = cons_abs k)"

definition stored :: "byte \<Rightarrow> cons \<Rightarrow> cons" where
  "stored c k =
     (let j = k\<lparr>cons_buf := (cons_buf k)[unat (cons_e k) mod INPUT_BUF := c], cons_e := cons_e k + 1\<rparr>
      in if c = 10 \<or> c = C_D \<or> cons_e j = cons_r j + of_nat INPUT_BUF then j\<lparr>cons_w := cons_e j\<rparr> else j)"

lemma every_cons_store: "every (\<lambda>t. console t = stored c (console s)) (cons_store c s)"
proof -
  let ?s = "set_cons (\<lambda>k. k\<lparr>cons_buf := (cons_buf k)[unat (cons_e k) mod INPUT_BUF := c], cons_e := cons_e k + 1\<rparr>) s"
  have "every (\<lambda>t. console t = (console ?s)\<lparr>cons_w := cons_e (console ?s)\<rparr>)
      (wakeup ConsChan (set_cons (\<lambda>k. k\<lparr>cons_w := cons_e k\<rparr>) ?s))"
    using every_console(6) [of "set_cons (\<lambda>k. k\<lparr>cons_w := cons_e k\<rparr>) ?s" ConsChan] by (simp del: every.simps)
  then show ?thesis by (simp add: cons_store_def stored_def Let_def)
qed

lemma stored_ok:
  assumes "cons_inv k" and "length (ready k) + length (pending k) < INPUT_BUF"
  shows "cons_inv (stored c k) \<and> cons_abs (stored c k) =
    (if c = 10 \<or> c = C_D \<or> length (ready k) + length (pending k @ [c]) = INPUT_BUF
     then (ready k @ pending k @ [c], []) else (ready k, pending k @ [c]))"
proof -
  note a = cons_append [OF assms, of c]
  have "10 \<notin> set (pending k)" using assms(1) by (simp add: cons_inv_def)
  then show ?thesis using a assms(2) by (simp add: stored_def Let_def cons_inv_def cons_abs_def)
qed

lemma every_echoed: "ends (echoed k) r \<Longrightarrow> every (\<lambda>t. console t = k) r"
  by (cases r) (auto simp: echoed_def)

lemma consoleintr_body:
  fixes s :: "'z umach_scheme"
  assumes "cons_inv (console s)"
  shows "every (\<lambda>t. cons_inv (console t) \<and> cons_abs (console t) = edit c (cons_abs (console s)))
    (if c = C_P then procdump s
     else if c = C_U then kill_line (unat (cons_e (console s) - cons_w (console s))) s
     else if c = C_H \<or> c = 0x7f then
       (if cons_e (console s) \<noteq> cons_w (console s)
        then consputc None (set_cons (\<lambda>k. k\<lparr>cons_e := cons_e k - 1\<rparr>) s)
        else Ok () s)
     else if c \<noteq> 0 \<and> cons_e (console s) - cons_r (console s) < of_nat INPUT_BUF then
       (let c = (if c = 13 then 10 else c)
        in bnd (consputc (Some c) s) (\<lambda>_ s. cons_store c s))
     else Ok () s)" (is "every ?P _")
proof -
  let ?k = "console s"
  have ne: "C_U \<noteq> C_P" "C_H \<noteq> C_P" "C_H \<noteq> C_U" "0x7f \<noteq> C_P" "0x7f \<noteq> C_U" by (simp_all add: C_U_def C_P_def C_H_def)
  have "every ?P (procdump s)" if "c = C_P"
    using every_mono [OF every_procdump [of s], of ?P] assms that by (simp add: edit_def cons_abs_def)
  moreover have "every ?P (kill_line (unat (cons_e ?k - cons_w ?k)) s)" if "c = C_U"
    using every_mono [OF every_echoed [OF kill_line_ends [OF assms]], of _ ?P] cons_kill [OF assms] that ne
    by (simp add: edit_def cons_abs_def pending_def)
  moreover have "every ?P (consputc None (set_cons (\<lambda>k. k\<lparr>cons_e := cons_e k - 1\<rparr>) s))"
    if "cons_e ?k \<noteq> cons_w ?k" "c = C_H \<or> c = 0x7f"
    using every_mono [OF every_consputc [of "set_cons (\<lambda>k. k\<lparr>cons_e := cons_e k - 1\<rparr>) s"], of _ ?P] cons_erase [OF assms that(1)] that(2) ne
    by (auto simp: edit_def cons_abs_def)
  moreover have "every ?P (let c = (if c = 13 then 10 else c) in bnd (consputc (Some c) s) (\<lambda>_ s. cons_store c s))"
    if r: "cons_e ?k - cons_r ?k < of_nat INPUT_BUF" "c \<noteq> C_P" "c \<noteq> C_U" "\<not> (c = C_H \<or> c = 0x7f)" "c \<noteq> 0"
  proof -
    have room: "length (ready ?k) + length (pending ?k) < INPUT_BUF" using cons_room [OF assms] r(1) by blast
    let ?c = "if c = 13 then 10 else c"
    have st: "cons_inv (stored ?c ?k) \<and> cons_abs (stored ?c ?k) = edit c (cons_abs ?k)"
      using stored_ok [OF assms room, of ?c] room r(2-5) by (auto simp: edit_def cons_abs_def Let_def)
    have "every ?P (cons_store ?c t)" if "console t = ?k" for t :: "'z umach_scheme"
      using every_mono [OF every_cons_store [of ?c t], of ?P] st that by simp
    then show ?thesis unfolding Let_def
      using consputc_ends [of s ?k "Some ?c"] by (cases "consputc (Some ?c) s") (auto simp: echoed_def)
  qed
  moreover have "?P s" if "c \<noteq> C_P" "c \<noteq> C_U" "\<not> (c = C_H \<or> c = 0x7f)" "\<not> (c \<noteq> 0 \<and> cons_e ?k - cons_r ?k < of_nat INPUT_BUF)"
    using that assms cons_room [OF assms] by (auto simp: edit_def cons_abs_def)
  moreover have "?P s" if "cons_e ?k = cons_w ?k" "c = C_H \<or> c = 0x7f"
    using that assms ne pending_empty [of ?k] by (auto simp: edit_def cons_abs_def)
  ultimately show ?thesis by (intro every_if) simp_all
qed

lemma consoleintr_edits:
  fixes s :: "'z umach_scheme"
  assumes "cons_inv (console s)"
  shows "ends (edited c (console s)) (consoleintr c s)"
proof -
  let ?k = "console s"
  have fin: "ends (edited c ?k) (release ConsLock t)"
    if "cons_inv (console t)" "cons_abs (console t) = edit c (cons_abs ?k)" for t :: "'z umach_scheme"
    using every_console(2) [of t ConsLock] that by (cases "release ConsLock t") (auto simp: edited_def)
  have body: "ends (edited c ?k) (bnd r (\<lambda>_ s. release ConsLock s))"
    if "every (\<lambda>t. cons_inv (console t) \<and> cons_abs (console t) = edit c (cons_abs ?k)) r" for r :: "('z umach_scheme, unit) res"
    using that fin by (cases r) (auto simp: edited_def)
  show ?thesis unfolding consoleintr_def
  proof (rule ends_bnd [OF every_console(1)])
    fix t :: "'z umach_scheme" assume t: "console t = ?k"
    then show "edited c ?k None t" using assms by (simp add: edited_def)
    note b = consoleintr_body [of t c, unfolded t, OF assms]
    show "ends (edited c ?k) (bnd (if c = C_P then procdump t
       else if c = C_U then kill_line (unat (cons_e (console t) - cons_w (console t))) t
       else if c = C_H \<or> c = 0x7f then
         (if cons_e (console t) \<noteq> cons_w (console t)
          then consputc None (set_cons (\<lambda>k. k\<lparr>cons_e := cons_e k - 1\<rparr>) t)
          else Ok () t)
       else if c \<noteq> 0 \<and> cons_e (console t) - cons_r (console t) < of_nat INPUT_BUF then
         (let c = (if c = 13 then 10 else c)
          in bnd (consputc (Some c) t) (\<lambda>_ s. cons_store c s))
       else Ok () t) (\<lambda>_ s. release ConsLock s))"
      unfolding t by (rule body [OF b])
  qed
qed


section \<open>The reader\<close>

text \<open>
  A reader that had \<open>i\<close> bytes before has taken \<open>cs\<close> from the complete input, at most up to the end of a line or an
  end-of-file mark.
\<close>

definition fetched :: "cons \<Rightarrow> int \<Rightarrow> nat \<Rightarrow> int option \<Rightarrow> 'z umach_scheme \<Rightarrow> bool" where
  "fetched k i n r t \<longleftrightarrow> cons_inv (console t) \<and> pending (console t) = pending k \<and>
     (\<exists>cs. ready k = cs @ ready (console t) \<and> length cs \<le> n \<and> 10 \<notin> set (butlast cs) \<and> C_D \<notin> set (butlast cs) \<and>
       (case r of None \<Rightarrow> True | Some j \<Rightarrow> j = -1 \<or> j = i + int (length cs) \<or> j + 1 = i + int (length cs)))"

lemma fetched_none: "cons_inv k \<Longrightarrow> console t = k \<Longrightarrow> r \<in> {None, Some (-1), Some i} \<Longrightarrow> fetched k i n r t"
  by (auto simp: fetched_def intro!: exI [of _ "[]"])

lemma fetched_one:
  assumes "cons_inv j" and "ready k = c # ready j" and "pending j = pending k" and "console t = j"
    and "r \<in> {None, Some i, Some (i + 1)}"
  shows "fetched k i (Suc n) r t"
  using assms by (auto simp: fetched_def intro!: exI [of _ "[c]"])

lemma fetched_step:
  assumes "ready k = c # ready j" and "pending j = pending k" and "c \<noteq> 10" and "c \<noteq> C_D" and "fetched j (i + 1) n r t"
  shows "fetched k i (Suc n) r t"
proof -
  obtain cs where cs: "ready j = cs @ ready (console t)" "length cs \<le> n" "10 \<notin> set (butlast cs)" "C_D \<notin> set (butlast cs)"
    and r: "case r of None \<Rightarrow> True | Some m \<Rightarrow> m = -1 \<or> m = i + 1 + int (length cs) \<or> m + 1 = i + 1 + int (length cs)"
    using assms(5) by (auto simp: fetched_def)
  have "ready k = (c # cs) @ ready (console t)" using assms(1) cs(1) by simp
  moreover have "10 \<notin> set (butlast (c # cs))" "C_D \<notin> set (butlast (c # cs))" using assms(3,4) cs(3,4) by auto
  moreover have "case r of None \<Rightarrow> True | Some m \<Rightarrow> m = -1 \<or> m = i + int (length (c # cs)) \<or> m + 1 = i + int (length (c # cs))"
    using r by (auto split: option.splits)
  moreover have "length (c # cs) \<le> Suc n" using cs(2) by simp
  moreover have "cons_inv (console t)" "pending (console t) = pending k" using assms(2,5) by (simp_all add: fetched_def)
  ultimately show ?thesis unfolding fetched_def by blast
qed

lemma consoleread_release:
  fixes s :: "'z umach_scheme"
  assumes "\<And>t :: 'z umach_scheme. console t = console s \<Longrightarrow> Q None t \<and> Q (Some j) t"
  shows "ends Q (bnd (release ConsLock s) (\<lambda>_ s. Ok j s))"
  by (rule ends_bnd [OF every_console(2)]) (use assms in auto)

lemma consoleread_wait:
  fixes s :: "'z umach_scheme"
  assumes "cons_inv (console s)"
  shows "ends (fetched (console s) i n) (bnd (myproc s) (\<lambda>cur s. case cur of
     None \<Rightarrow> Panic ''kerneltrap''
   | Some p \<Rightarrow>
       if p_killed (procs s p) then bnd (release ConsLock s) (\<lambda>_ s. Ok (-1) s)
       else bnd (sleep ConsChan ConsLock s) (\<lambda>_ s. Ok 0 s)))"
proof (rule ends_bnd [OF every_console(3)])
  fix cur and t :: "'z umach_scheme" assume t: "console t = console s"
  show "fetched (console s) i n None t" using assms t by (simp add: fetched_none)
  have "ends (fetched (console s) i n) (bnd (release ConsLock t) (\<lambda>_ s. Ok (-1) s))"
    by (rule consoleread_release) (simp add: t fetched_none [OF assms])
  moreover have "ends (fetched (console s) i n) (bnd (sleep ConsChan ConsLock t) (\<lambda>_ s. Ok 0 s))"
    by (rule ends_bnd [OF every_console(4)]) (simp_all add: t fetched_none [OF assms] sleep_not_Ok)
  ultimately show "ends (fetched (console s) i n) (case cur of None \<Rightarrow> Panic ''kerneltrap''
     | Some p \<Rightarrow> if p_killed (procs t p) then bnd (release ConsLock t) (\<lambda>_ s. Ok (-1) s)
         else bnd (sleep ConsChan ConsLock t) (\<lambda>_ s. Ok 0 s))" by (cases cur) simp_all
qed

lemma consoleread_loop_ends:
  fixes s :: "'z umach_scheme"
  assumes "cons_inv (console s)"
  shows "ends (fetched (console s) (int target - int n) n) (consoleread_loop u dst target n s)"
  using assms
proof (induction n arbitrary: dst s)
  case 0
  then show ?case by (auto intro!: consoleread_release fetched_none)
next
  case (Suc n)
  let ?k = "console s"
  define i where "i = int target - int (Suc n)"
  have i1: "int target - int n = i + 1" by (simp add: i_def)
  show ?case
  proof (cases "cons_r ?k = cons_w ?k")
    case True
    then show ?thesis using consoleread_wait [OF Suc.prems, of i "Suc n"] by (simp add: i_def)
  next
    case False
    let ?s = "set_cons (\<lambda>k. k\<lparr>cons_r := cons_r k + 1\<rparr>) s"
    define c where "c = cons_buf ?k ! (unat (cons_r ?k) mod INPUT_BUF)"
    have j: "cons_inv (console ?s)" "ready ?k = c # ready (console ?s)" "pending (console ?s) = pending ?k"
      using cons_take [OF Suc.prems False] by (simp_all add: c_def)
    note one = fetched_one [OF j, of _ _ i n]
    have stop: "ends (fetched ?k i (Suc n)) (bnd (release ConsLock t) (\<lambda>_ s. Ok r s))"
      if "console t = console ?s" "r = i \<or> r = i + 1" for t :: "'z umach_scheme" and r
      using that one [of _ None] one [of _ "Some r"] by (intro consoleread_release) auto
    have undo: "console (set_cons (\<lambda>k. k\<lparr>cons_r := cons_r k - 1\<rparr>) ?s) = ?k" by simp
    have put_back: "ends (fetched ?k i (Suc n)) (bnd (release ConsLock (set_cons (\<lambda>k. k\<lparr>cons_r := cons_r k - 1\<rparr>) ?s)) (\<lambda>_ s. Ok i s))"
      by (rule consoleread_release) (simp add: undo fetched_none [OF Suc.prems])
    have eof: "ends (fetched ?k i (Suc n)) (bnd (release ConsLock (if Suc n < target
        then set_cons (\<lambda>k. k\<lparr>cons_r := cons_r k - 1\<rparr>) ?s else ?s)) (\<lambda>_ s. Ok i s))"
      using stop [of ?s i] put_back by simp
    have next_byte: "ends (fetched ?k i (Suc n)) (consoleread_loop u (dst + 1) target n t)"
      if "console t = console ?s" "c \<noteq> 10" "c \<noteq> C_D" for t :: "'z umach_scheme"
    proof (rule ends_mono)
      show "ends (fetched (console t) (i + 1) n) (consoleread_loop u (dst + 1) target n t)"
        using Suc.IH [of t "dst + 1"] j(1) that(1) by (simp add: i1)
    next
      fix r and v :: "'z umach_scheme" assume "fetched (console t) (i + 1) n r v"
      then show "fetched ?k i (Suc n) r v"
        using fetched_step [OF j(2,3) that(2,3), of i n r v] that(1) by simp
    qed
    have copied: "ends (fetched ?k i (Suc n)) (bnd (either_copyout u dst [c] ?s) (\<lambda>r s.
        if r = -1 then bnd (release ConsLock s) (\<lambda>_ s. Ok i s)
        else if c = 10 then bnd (release ConsLock s) (\<lambda>_ s. Ok (i + 1) s)
        else consoleread_loop u (dst + 1) target n s))" if "c \<noteq> C_D"
      by (rule ends_bnd [OF every_console(7)]) (auto intro!: one stop next_byte simp: that)
    show ?thesis
      unfolding consoleread_loop.simps Let_def if_not_P [OF False] c_def [symmetric] i_def [symmetric] i1
      using eof copied by (cases "c = C_D") (simp_all only: if_True if_False simp_thms)
  qed
qed

end
