(* ===== verification/Uart_Fifo.thy ===== *)
theory Uart_Fifo
  imports Console_Line Boot_State
begin

text \<open>
  The output side of the console: the transmit ring as a bounded queue, the order in which bytes reach the
  transmit register, and what becomes of a write that finds the ring full.
\<close>

section \<open>The transmit ring\<close>

definition uart_inv :: "'z umach_scheme \<Rightarrow> bool" where
  "uart_inv s \<longleftrightarrow> length (uart_tx_buf s) = UART_TX_BUF_SIZE \<and> uart_tx_r s < UART_TX_BUF_SIZE \<and> uart_tx_w s < UART_TX_BUF_SIZE"

definition uart_count :: "'z umach_scheme \<Rightarrow> nat" where
  "uart_count s = (uart_tx_w s + UART_TX_BUF_SIZE - uart_tx_r s) mod UART_TX_BUF_SIZE"

definition uart_items :: "'z umach_scheme \<Rightarrow> byte list" where
  "uart_items s = map (\<lambda>k. uart_tx_buf s ! ((uart_tx_r s + k) mod UART_TX_BUF_SIZE)) [0..<uart_count s]"

lemma ring32:
  assumes "r < (32::nat)" and "w < 32"
  shows "(w + 32 - r) mod 32 = (if r \<le> w then w - r else w + 32 - r)" "(w + 1) mod 32 = (if w = 31 then 0 else w + 1)"
proof -
  have "w + 32 - r = (w - r) + 32" if "r \<le> w" using that by simp
  then show "(w + 32 - r) mod 32 = (if r \<le> w then w - r else w + 32 - r)" using assms by (auto simp: mod_if)
  show "(w + 1) mod 32 = (if w = 31 then 0 else w + 1)" using assms by (simp add: mod_if)
qed

lemma uart_count_steps:
  assumes "r < (32::nat)" and "w < 32"
  shows "(w + 1) mod 32 = r \<longleftrightarrow> (w + 32 - r) mod 32 = 31"
    "(w + 1) mod 32 \<noteq> r \<Longrightarrow> ((w + 1) mod 32 + 32 - r) mod 32 = (w + 32 - r) mod 32 + 1"
    "w \<noteq> r \<Longrightarrow> (w + 32 - (r + 1) mod 32) mod 32 + 1 = (w + 32 - r) mod 32"
    "w = r \<longleftrightarrow> (w + 32 - r) mod 32 = 0"
proof -
  have w: "(w + 1) mod 32 < 32" and r: "(r + 1) mod 32 < 32" by simp_all
  note e = ring32(1) [OF assms] ring32(2) [OF assms] ring32(1) [OF assms(1) w] ring32(1) [OF r assms(2)] ring32(2) [OF assms(2,1)]
  show "(w + 1) mod 32 = r \<longleftrightarrow> (w + 32 - r) mod 32 = 31" unfolding e using assms by auto
  show "(w + 1) mod 32 \<noteq> r \<Longrightarrow> ((w + 1) mod 32 + 32 - r) mod 32 = (w + 32 - r) mod 32 + 1" unfolding e(3) unfolding e using assms by (auto split: if_splits)
  show "w \<noteq> r \<Longrightarrow> (w + 32 - (r + 1) mod 32) mod 32 + 1 = (w + 32 - r) mod 32" unfolding e(4) unfolding e using assms by (auto split: if_splits)
  show "w = r \<longleftrightarrow> (w + 32 - r) mod 32 = 0" unfolding e using assms by auto
qed

lemma uart_slot:
  assumes "r < (32::nat)" and "w < 32"
  shows "k < (w + 32 - r) mod 32 \<Longrightarrow> (r + k) mod 32 \<noteq> w" "(r + (w + 32 - r) mod 32) mod 32 = w"
proof -
  have m: "(r + k) mod 32 = (if r + k < 32 then r + k else r + k - 32)" if "k < 32" for k
    using assms(1) that by (simp add: mod_if)
  show "k < (w + 32 - r) mod 32 \<Longrightarrow> (r + k) mod 32 \<noteq> w"
    using m [of k] assms unfolding ring32(1) [OF assms] by (auto split: if_splits)
  have "(w + 32 - r) mod 32 < 32" by simp
  from m [OF this] show "(r + (w + 32 - r) mod 32) mod 32 = w"
    using assms unfolding ring32(1) [OF assms] by (auto split: if_splits)
qed

lemma uart_put_items:
  assumes "uart_inv s" and "\<not> uart_full s"
  shows "uart_items (uart_put c s) = uart_items s @ [c]"
proof -
  have rw: "uart_tx_r s < 32" "uart_tx_w s < 32" "length (uart_tx_buf s) = 32" "(uart_tx_w s + 1) mod 32 \<noteq> uart_tx_r s"
    using assms by (simp_all add: uart_inv_def uart_full_def UART_TX_BUF_SIZE_def)
  have n: "uart_count (uart_put c s) = uart_count s + 1"
    using uart_count_steps(2) [OF rw(1,2,4)] by (simp add: uart_count_def uart_put_def UART_TX_BUF_SIZE_def)
  have "uart_tx_buf (uart_put c s) ! ((uart_tx_r s + k) mod 32) = uart_tx_buf s ! ((uart_tx_r s + k) mod 32)" if "k < uart_count s" for k
    using uart_slot(1) [OF rw(1,2), THEN not_sym, of k] that by (simp add: uart_count_def uart_put_def UART_TX_BUF_SIZE_def)
  moreover have "uart_tx_buf (uart_put c s) ! ((uart_tx_r s + uart_count s) mod 32) = c"
    using uart_slot(2) [OF rw(1,2)] rw(2,3) by (simp add: uart_count_def uart_put_def UART_TX_BUF_SIZE_def)
  moreover have "uart_tx_r (uart_put c s) = uart_tx_r s" by (simp add: uart_put_def)
  ultimately show ?thesis unfolding uart_items_def n by (simp add: UART_TX_BUF_SIZE_def)
qed


lemma uart_get_items:
  assumes "uart_inv s" and "\<not> uart_empty s"
  shows "uart_items s = uart_front s # uart_items (uart_get s)"
proof -
  have rw: "uart_tx_r s < 32" "uart_tx_w s < 32" "uart_tx_w s \<noteq> uart_tx_r s"
    using assms by (simp_all add: uart_inv_def uart_empty_def UART_TX_BUF_SIZE_def)
  have n: "uart_count s = Suc (uart_count (uart_get s))"
    using uart_count_steps(3) [OF rw] by (simp add: uart_count_def uart_get_def UART_TX_BUF_SIZE_def)
  have "(uart_tx_r s + Suc k) mod 32 = ((uart_tx_r s + 1) mod 32 + k) mod 32" for k by (simp add: mod_simps)
  then show ?thesis
    unfolding uart_items_def n map_upt_Suc using rw(1) by (simp add: uart_front_def uart_get_def UART_TX_BUF_SIZE_def)
qed

interpretation uartq: fifo uart_inv uart_items 31 uart_full uart_empty uart_put uart_front uart_get
proof
  fix s :: "'a umach_scheme" and c
  assume i: "uart_inv s"
  then have rw: "uart_tx_r s < 32" "uart_tx_w s < 32" by (simp_all add: uart_inv_def UART_TX_BUF_SIZE_def)
  have "(uart_tx_w s + 32 - uart_tx_r s) mod 32 < 32" by simp
  then show "length (uart_items s) \<le> 31" unfolding uart_items_def uart_count_def UART_TX_BUF_SIZE_def by simp
  show "uart_full s \<longleftrightarrow> length (uart_items s) = 31"
    using uart_count_steps(1) [OF rw] by (simp add: uart_full_def uart_items_def uart_count_def UART_TX_BUF_SIZE_def)
  show "uart_empty s \<longleftrightarrow> uart_items s = []"
    using uart_count_steps(4) [OF rw] by (simp add: uart_empty_def uart_items_def uart_count_def UART_TX_BUF_SIZE_def)
  show "uart_inv (uart_put c s)" using i by (simp add: uart_inv_def uart_put_def UART_TX_BUF_SIZE_def)
  show "uart_inv (uart_get s)" using i by (simp add: uart_inv_def uart_get_def UART_TX_BUF_SIZE_def)
  show "\<not> uart_full s \<Longrightarrow> uart_items (uart_put c s) = uart_items s @ [c]" by (rule uart_put_items [OF i])
  show "\<not> uart_empty s \<Longrightarrow> uart_items s = uart_front s # uart_items (uart_get s)" by (rule uart_get_items [OF i])
qed

section \<open>Bytes reach the transmitter in order\<close>

text \<open>The bytes written to the transmit register so far.\<close>

definition thr :: "'z umach_scheme \<Rightarrow> byte list" where
  "thr s = map snd (filter (\<lambda>(r, v). r = THR) (rev (u_writes s)))"

lemma thr_WriteReg [simp]: "thr (WriteReg THR c s) = thr s @ [c]"
  by (simp add: thr_def WriteReg_def)

text \<open>Everything that uartputc has accepted: sent, or waiting in the ring.\<close>

definition accepted :: "'z umach_scheme \<Rightarrow> byte list" where
  "accepted s = thr s @ uart_items s"

definition uart_state :: "'z umach_scheme \<Rightarrow> bool \<times> byte list \<times> nat \<times> nat \<times> byte list \<times> (nat \<times> byte) list" where
  "uart_state s = (panicked s, uart_tx_buf s, uart_tx_w s, uart_tx_r s, u_lsr s, u_writes s)"

lemma uart_state_of_more:
  fixes s :: "'z umach_scheme" and t :: "'z umach_scheme"
  shows "mach.more t = mach.more s \<Longrightarrow> uart_state t = uart_state s"
  by (cases s, cases t) (simp add: uart_state_def)

lemma uart_state_same:
  assumes "uart_state t = uart_state s"
  shows "uart_inv t = uart_inv s" "uart_items t = uart_items s" "thr t = thr s" "accepted t = accepted s" "uart_full t = uart_full s"
    "uart_empty t = uart_empty s" "u_lsr t = u_lsr s" "panicked t = panicked s"
  using assms by (simp_all add: uart_state_def uart_inv_def uart_items_def uart_count_def thr_def accepted_def uart_full_def uart_empty_def)

lemma uart_frame: "every (\<lambda>t. mach.more t = mach.more s) r \<Longrightarrow> every (\<lambda>t. uart_state t = uart_state s) r" for s :: "'z umach_scheme"
  by (erule every_mono) (rule uart_state_of_more)

lemmas every_uart =
  uart_frame [OF every_acquire [OF refl]] uart_frame [OF every_release [OF refl]] uart_frame [OF every_sleep [OF refl]]
  uart_frame [OF every_sleep_resume [OF refl]] uart_frame [OF every_wakeup [OF refl]]

lemma uart_upds:
  "uart_inv (s\<lparr>u_lsr := x\<rparr>) = uart_inv s" "uart_items (s\<lparr>u_lsr := x\<rparr>) = uart_items s" "thr (s\<lparr>u_lsr := x\<rparr>) = thr s"
  "uart_front (s\<lparr>u_lsr := x\<rparr>) = uart_front s" "uart_get (s\<lparr>u_lsr := x\<rparr>) = (uart_get s)\<lparr>u_lsr := x\<rparr>"
  "uart_inv (WriteReg r v s) = uart_inv s" "uart_items (WriteReg r v s) = uart_items s" "thr (uart_get s) = thr s" "thr (uart_put c s) = thr s"
  by (simp_all add: uart_inv_def uart_items_def uart_count_def thr_def uart_front_def uart_get_def uart_put_def WriteReg_def)

text \<open>The output is \<open>out\<close>; a call that has not returned may hold one byte between the ring and the register.\<close>

definition in_order :: "byte list \<Rightarrow> unit option \<Rightarrow> 'z umach_scheme \<Rightarrow> bool" where
  "in_order out r t \<longleftrightarrow> uart_inv t \<and> (accepted t = out \<or> r = None \<and> (\<exists>c. thr t @ c # uart_items t = out))"

lemma uartstart_loop_ends: "uart_inv s \<Longrightarrow> ends (in_order (accepted s)) (uartstart_loop n s)"
proof (induction n arbitrary: s)
  case 0
  then show ?case
    by (subst uartstart_loop.simps) (simp add: in_order_def ReadLSR_def accepted_def uart_upds split: list.split)
next
  case (Suc n)
  have step: "ends (in_order (accepted s)) (bnd (wakeup UartChan (uart_get (s\<lparr>u_lsr := vs\<rparr>))) (\<lambda>_ u. uartstart_loop n (WriteReg THR (uart_front s) u)))"
    if ne: "\<not> uart_empty s" for vs
  proof (rule ends_bnd [OF every_uart(5)])
    fix t :: "'a umach_scheme" assume t: "uart_state t = uart_state (uart_get (s\<lparr>u_lsr := vs\<rparr>))"
    note e = uart_state_same [OF t, unfolded uart_upds]
    have g: "uart_inv (uart_get s)" "uart_items s = uart_front s # uart_items (uart_get s)"
      using uartq.inv_get [OF Suc.prems ne] uartq.items_get [OF Suc.prems ne] by blast+
    show "in_order (accepted s) None t" using g by (auto simp: in_order_def accepted_def e)
    have "accepted (WriteReg THR (uart_front s) t) = accepted s" using g by (simp add: accepted_def uart_upds e)
    then show "ends (in_order (accepted s)) (uartstart_loop n (WriteReg THR (uart_front s) t))"
      using Suc.IH [of "WriteReg THR (uart_front s) t"] g(1) by (simp add: uart_upds e)
  qed
  show ?case using Suc.prems step
    by (subst uartstart_loop.simps) (auto simp: in_order_def ReadLSR_def accepted_def uart_upds Let_def split: list.split)
qed


text \<open>uartputc of \<open>c\<close>: when it has returned, \<open>c\<close> has been accepted after all earlier bytes; until then it may not have been.\<close>

definition queued :: "byte list \<Rightarrow> byte \<Rightarrow> unit option \<Rightarrow> 'z umach_scheme \<Rightarrow> bool" where
  "queued out c r t \<longleftrightarrow> in_order (out @ [c]) r t \<or> r = None \<and> in_order out None t"

lemma in_order_state: "uart_state t = uart_state s \<Longrightarrow> in_order out r t = in_order out r s"
  using uart_state_same [of t s] by (simp add: in_order_def)

lemma in_order_None: "in_order out (Some x) t \<Longrightarrow> in_order out r t"
  by (simp add: in_order_def)

lemma uartputc_loop_ends:
  fixes s :: "'z umach_scheme"
  assumes "uart_inv s"
  shows "ends (queued (accepted s) c) (uartputc_loop c s)"
proof (cases "uart_full s")
  case True
  have o: "in_order (accepted s) None s" using assms by (simp add: in_order_def)
  have "ends (queued (accepted s) c) (sleep UartChan UartTxLock s)"
  proof (rule ends_every [OF every_uart(3)])
    fix t :: "'z umach_scheme" assume "uart_state t = uart_state s"
    then show "queued (accepted s) c None t" using o in_order_state [of t s] by (simp add: queued_def)
  qed (simp add: sleep_not_Ok)
  with True show ?thesis by (simp add: uartputc_loop_def)
next
  case False
  let ?s = "uart_put c s" and ?out = "accepted s @ [c]"
  have "ends (in_order ?out) (uartstart ?s)"
    using uartstart_loop_ends [OF uartq.inv_put [OF assms False], of c UART_TX_BUF_SIZE] uartq.items_put [OF assms False, of c]
    by (simp add: uartstart_def accepted_def uart_upds)
  then have "ends (in_order ?out) (bnd (uartstart ?s) (\<lambda>_ s. release UartTxLock s))"
  proof (rule ends_bnd_ends)
    fix a and t :: "'z umach_scheme" assume t: "in_order ?out (Some a) t"
    show "ends (in_order ?out) (release UartTxLock t)"
      by (rule ends_every [OF every_uart(2)]) (simp_all add: in_order_state [of _ t] in_order_None [OF t])
  qed (auto simp: in_order_def)
  then have "ends (queued (accepted s) c) (bnd (uartstart ?s) (\<lambda>_ s. release UartTxLock s))"
    by (rule ends_mono) (simp add: queued_def)
  then show ?thesis using False by (simp add: uartputc_loop_def Let_def)
qed

lemma uartputc_loop_same:
  "uart_inv s \<Longrightarrow> uart_state t = uart_state s \<Longrightarrow> ends (queued (accepted s) c) (uartputc_loop c t)"
  using uartputc_loop_ends [of t c] uart_state_same [of t s] by simp

section \<open>Waiting with another lock held\<close>

lemma sleep_nested:
  assumes "cpu_proc (mycpu s) = Some p" and "intr_ok s" and "2 \<le> noff (mycpu s)" and "holding lk s"
    and "lock_free (ProcLock p) s" and "lk \<noteq> ProcLock p"
  shows "sleep ch lk s = Panic ''sched locks''"
proof -
  have n: "note_intena s = s" using assms(3) by (simp add: note_intena_def)
  have si: "\<not> sie s" using assms(2,3) by (simp add: intr_ok_def)
  have "bnd (release lk (enter (ProcLock p) s)) (\<lambda>_ s. sched (set_proc p f s)) = Panic ''sched locks''" for f
    using assms si
    by (simp add: release_def holding_def enter_def push_off_def pop_off_def cpu_defs Let_def sched_def myproc_def set_proc_def)
  then show ?thesis
    using assms(6) by (simp add: sleep_def myproc_eq [OF assms(2)] n assms(1) acquire_free [OF assms(5)])
qed


section \<open>Undisturbed transmission\<close>

definition idle :: "byte \<Rightarrow> bool" where
  "idle v \<longleftrightarrow> v AND LSR_TX_IDLE \<noteq> 0"

lemma uart_upd_mach [simp]:
  fixes s :: "'z umach_scheme"
  shows "same_mach u (s\<lparr>u_lsr := x\<rparr>) = same_mach u s" "same_mach u (uart_get s) = same_mach u s" "same_mach u (WriteReg r v s) = same_mach u s"
    "cpus (uart_get s) = cpus s" "cpus (WriteReg r v s) = cpus s" "u_lsr (uart_get s) = u_lsr s" "u_lsr (WriteReg r v s) = u_lsr s"
  by (simp_all add: same_mach_def uart_get_def WriteReg_def)

lemma uartstart_loop_calm:
  fixes s :: "'z umach_scheme" and u :: "'z umach_scheme"
  assumes "calm p s" and "same_mach (enter UartTxLock s) u" and "cpus u = cpus (enter UartTxLock s)" and "uart_inv u"
    and "length (uart_items u) \<le> n" and "length (uart_items u) \<le> length (u_lsr u)"
  shows "\<exists>t. uartstart_loop n u = Ok () t \<and> same_mach (enter UartTxLock s) t \<and> cpus t = cpus (enter UartTxLock s) \<and> uart_inv t \<and>
    thr t = thr u @ take (length (takeWhile idle (u_lsr u))) (uart_items u) \<and>
    uart_items t = drop (length (takeWhile idle (u_lsr u))) (uart_items u)"
  using assms(2-6)
proof (induction n arbitrary: u)
  case 0
  then have "uart_empty u" using uartq.vacant_iff by auto
  with 0 show ?case by (subst uartstart_loop.simps) simp
next
  case (Suc n)
  show ?case
  proof (cases "uart_empty u")
    case True
    then have "uart_items u = []" using uartq.vacant_iff [OF Suc.prems(3)] by simp
    with True Suc.prems show ?thesis by (subst uartstart_loop.simps) simp
  next
    case ne: False
    note g = uartq.items_get [OF Suc.prems(3) ne]
    then obtain v vs where l: "u_lsr u = v # vs" using Suc.prems(5) by (cases "u_lsr u") auto
    show ?thesis
    proof (cases "idle v")
      case False
      with ne l Suc.prems show ?thesis
        by (subst uartstart_loop.simps) (simp add: ReadLSR_def idle_def uart_upds)
    next
      case True
      let ?g = "uart_get (u\<lparr>u_lsr := vs\<rparr>)"
      have "same_mach (enter UartTxLock s) ?g" "cpus ?g = cpus (enter UartTxLock s)" using Suc.prems(1,2) by simp_all
      from wakeup_enter [OF assms(1) this, of UartChan] obtain w where
        w: "wakeup UartChan ?g = Ok () w" "same_mach (enter UartTxLock s) w" "cpus w = cpus (enter UartTxLock s)" "mach.more w = mach.more ?g"
        by auto
      note e = uart_state_same [OF uart_state_of_more [OF w(4)], unfolded uart_upds]
      let ?w = "WriteReg THR (uart_front u) w"
      have eq: "uartstart_loop (Suc n) u = uartstart_loop n ?w"
        using True ne by (subst uartstart_loop.simps) (simp add: ReadLSR_def l idle_def Let_def w(1) uart_upds(4))
      have iw: "uart_inv ?w" "uart_items ?w = uart_items (uart_get u)" "u_lsr ?w = vs" "thr ?w = thr u @ [uart_front u]"
        using uartq.inv_get [OF Suc.prems(3) ne] by (simp_all add: uart_upds e)
      obtain t where "uartstart_loop n ?w = Ok () t" "same_mach (enter UartTxLock s) t" "cpus t = cpus (enter UartTxLock s)" "uart_inv t"
          "thr t = thr ?w @ take (length (takeWhile idle (u_lsr ?w))) (uart_items ?w)"
          "uart_items t = drop (length (takeWhile idle (u_lsr ?w))) (uart_items ?w)"
        using Suc.IH [of ?w] w(2,3) iw(1) Suc.prems(4,5) unfolding iw(2,3) g l by auto
      then show ?thesis unfolding eq using True by (intro exI [of _ t]) (simp add: l g iw e uart_upds)
    qed
  qed
qed

lemma uart_enter:
  fixes s :: "'z umach_scheme"
  shows "uart_state (enter lk s) = uart_state s"
  by (rule uart_state_of_more) (simp add: enter_def push_off_def cpu_defs Let_def)

section \<open>Properties\<close>

text \<open>C9: The console's input side is a line editor. Whatever consoleintr is given and wherever it stops, the
  input ring is read as complete input and a line being edited, with at most INPUT_BUF bytes in all. When the handler
  returns, exactly the editing step of the character has happened - nothing for control-P, the line cleared for control-U, its last byte
  removed for backspace or delete, otherwise the byte appended with carriage return stored as newline, dropped if the
  ring is full, and the line handed over at a newline, at control-D or when the ring is full; before that, either nothing
  or that step. A reader takes bytes only from the front of the complete input, never beyond the end of a line or an end-of-file mark, never more
  than it asked for, and the count it returns is what it took, less the one byte which was an end-of-file mark or could not be stored.
  The indices may wrap around.\<close>

theorem console_line_discipline:
  fixes s :: "'z umach_scheme"
  assumes "cons_inv (console s)"
  shows "ends (\<lambda>r t. cons_inv (console t) \<and>
      ((ready (console t), pending (console t)) = edit c (ready (console s), pending (console s)) \<or>
       r = None \<and> (ready (console t), pending (console t)) = (ready (console s), pending (console s)))) (consoleintr c s) \<and>
    ends (fetched (console s) 0 (nat n)) (consoleread u dst n s) \<and>
    ends (fetched (console s) (int target - int m) m) (consoleread_resume p saved u dst target m s)"
proof (intro conjI)
  show "ends (\<lambda>r t. cons_inv (console t) \<and>
      ((ready (console t), pending (console t)) = edit c (ready (console s), pending (console s)) \<or>
       r = None \<and> (ready (console t), pending (console t)) = (ready (console s), pending (console s)))) (consoleintr c s)"
    using consoleintr_edits [OF assms, of c] by (rule ends_mono) (simp add: edited_def cons_abs_def)
  show "ends (fetched (console s) 0 (nat n)) (consoleread u dst n s)" unfolding consoleread_def
  proof (rule ends_bnd [OF every_console(1)])
    fix t :: "'z umach_scheme" assume t: "console t = console s"
    show "fetched (console s) 0 (nat n) None t" using assms t by (simp add: fetched_none)
    show "ends (fetched (console s) 0 (nat n)) (consoleread_loop u dst (nat n) (nat n) t)"
      using consoleread_loop_ends [of t "nat n" "nat n" u dst] assms t by simp
  qed
  show "ends (fetched (console s) (int target - int m) m) (consoleread_resume p saved u dst target m s)" unfolding consoleread_resume_def
  proof (rule ends_bnd [OF every_console(5)])
    fix t :: "'z umach_scheme" assume t: "console t = console s"
    show "fetched (console s) (int target - int m) m None t" using assms t by (simp add: fetched_none)
    show "ends (fetched (console s) (int target - int m) m) (consoleread_loop u dst target m t)"
      using consoleread_loop_ends [of t target m u dst] assms t by simp
  qed
qed

lemma cons_inv_cons0: "cons_inv cons0" "ready cons0 = []" "pending cons0 = []"
  by (simp_all add: cons_inv_def ready_def pending_def cons0_def ring_items_def INPUT_BUF_def)

theorem console_line_discipline_witness:
  "cons_inv (console kboot_user) \<and>
   ends (\<lambda>r t. (ready (console t), pending (console t)) = ([], [97]) \<or> r = None \<and> (ready (console t), pending (console t)) = ([], []))
     (consoleintr 97 kboot_user)"
proof -
  have "edit 97 ([], []) = ([], [97])" by (simp add: edit_def C_P_def C_U_def C_H_def C_D_def INPUT_BUF_def)
  then show ?thesis
    using console_line_discipline [of kboot_user 97, THEN conjunct1]
    by (auto simp: cons_inv_cons0 elim: ends_mono)
qed

text \<open>C23: Output keeps its order in every run. Call the bytes already written to the transmit register followed by those
  in the transmit ring the accepted output. Wherever uartputc stops, alone or after waiting, its byte has been accepted after
  everything accepted before, or the call has not returned and nothing new has been accepted; uartstart moves bytes from the ring to the
  register and changes nothing in that sequence. In a call that has not returned one byte may be on its
  way between the two.\<close>

theorem uart_output_in_order:
  fixes s :: "'z umach_scheme"
  assumes "uart_inv s"
  shows "ends (\<lambda>r t. uart_inv t \<and>
      (thr t @ uart_items t = thr s @ uart_items s @ [c] \<or>
       r = None \<and> (thr t @ uart_items t = thr s @ uart_items s \<or>
         (\<exists>d. thr t @ d # uart_items t \<in> {thr s @ uart_items s, thr s @ uart_items s @ [c]})))) (uartputc c s) \<and>
    ends (queued (thr s @ uart_items s) c) (uartputc_resume p saved c s) \<and>
    ends (in_order (thr s @ uart_items s)) (uartstart s)"
proof (intro conjI)
  have o: "queued (accepted s) c None t" if "uart_state t = uart_state s" for t :: "'z umach_scheme"
    using uart_state_same [OF that] assms by (simp add: queued_def in_order_def)
  have "ends (queued (accepted s) c) (uartputc c s)" unfolding uartputc_def
    by (rule ends_bnd [OF every_uart(1)]) (simp_all add: o uartputc_loop_same [OF assms])
  then show "ends (\<lambda>r t. uart_inv t \<and>
      (thr t @ uart_items t = thr s @ uart_items s @ [c] \<or>
       r = None \<and> (thr t @ uart_items t = thr s @ uart_items s \<or>
         (\<exists>d. thr t @ d # uart_items t \<in> {thr s @ uart_items s, thr s @ uart_items s @ [c]})))) (uartputc c s)"
    by (rule ends_mono) (auto simp: queued_def in_order_def accepted_def)
  have "ends (queued (accepted s) c) (uartputc_resume p saved c s)" unfolding uartputc_resume_def
    by (rule ends_bnd [OF every_uart(4)]) (simp_all add: o uartputc_loop_same [OF assms])
  then show "ends (queued (thr s @ uart_items s) c) (uartputc_resume p saved c s)" by (simp add: accepted_def)
  show "ends (in_order (thr s @ uart_items s)) (uartstart s)"
    using uartstart_loop_ends [OF assms] by (simp add: uartstart_def accepted_def)
qed

lemma uart_boot: "uart_inv (kboot d)" "uart_items (kboot d) = []"
  by (simp_all add: uart_inv_def uart_items_def uart_count_def UART_TX_BUF_SIZE_def)

theorem uart_output_in_order_witness:
  "uart_inv (kboot (\<lambda>_. [])) \<and> ends (in_order (thr (kboot (\<lambda>_. [])))) (uartstart (kboot (\<lambda>_. [])))"
  using uart_output_in_order [OF uart_boot(1) [of "\<lambda>_. []"]] by (simp add: uart_boot)

text \<open>C30: The transmit loop ends. In an undisturbed run with the lock held, uartstart returns after at most UART_TX_BUF_SIZE
  turns, whatever the ring holds; it has moved to the transmit register exactly as many bytes as the line status register reported the
  transmitter idle in a row, or all there were, oldest first, and left the others queued.\<close>

theorem uartstart_terminates:
  fixes s :: "'z umach_scheme"
  assumes "calm p s" and "uart_inv s" and "length (uart_items s) \<le> length (u_lsr s)"
  shows "\<exists>t u. acquire UartTxLock s = Ok () t \<and> uartstart t = Ok () u \<and> uart_inv u \<and>
    thr u = thr s @ take (length (takeWhile idle (u_lsr s))) (uart_items s) \<and>
    uart_items u = drop (length (takeWhile idle (u_lsr s))) (uart_items s)"
proof -
  let ?e = "enter UartTxLock s"
  note e = uart_state_same [OF uart_enter [of UartTxLock s]]
  have "length (uart_items ?e) \<le> UART_TX_BUF_SIZE" using uartq.bound [OF assms(2)] by (simp add: e UART_TX_BUF_SIZE_def)
  then show ?thesis
    using uartstart_loop_calm [OF assms(1), of ?e UART_TX_BUF_SIZE] assms(2,3)
    by (auto simp: acquire_free calmD(3) [OF assms(1)] uartstart_def e)
qed

theorem uartstart_terminates_witness:
  "\<exists>t u. acquire UartTxLock (uart_put 65 ((kboot (\<lambda>_. []))\<lparr>u_lsr := [LSR_TX_IDLE]\<rparr>)) = Ok () t \<and> uartstart t = Ok () u \<and>
     thr u = thr (kboot (\<lambda>_. [])) @ [65]"
proof -
  let ?b = "(kboot (\<lambda>_. []))\<lparr>u_lsr := [LSR_TX_IDLE]\<rparr>"
  have b: "uart_inv ?b" "uart_items ?b = []" by (simp_all add: uart_upds uart_boot)
  have nf: "\<not> uart_full ?b" using uartq.full_iff [OF b(1)] b(2) by simp
  have "calm 0 (uart_put 65 ?b)" using calm_boot(3) by (simp add: uart_put_def calm_def intr_ok_def cpu_defs lock_free_def)
  from uartstart_terminates [OF this uartq.inv_put [OF b(1) nf]] uartq.items_put [OF b(1) nf, of 65] b(2)
  show ?thesis by (auto simp: uart_upds uart_put_def idle_def LSR_TX_IDLE_def thr_def)
qed


text \<open>C26: A write to the console that finds the transmit ring full panics. consolewrite calls uartputc with the console lock held,
  and uartputc sleeps when the ring is full; sched refuses to switch while a second lock is held. So a process that writes a mapped byte to the
  console at such a moment brings the kernel down with "sched locks" instead of waiting.\<close>

theorem consolewrite_full_panics:
  fixes s :: "'z umach_scheme"
  assumes "calm p s" and "uart_full s" and "\<not> panicked s" and "0 < n"
    and "pt_wf kend (pmem s) (p_pagetable (procs s p))" and "upage (pmem s) (p_pagetable (procs s p)) src \<noteq> 0"
  shows "consolewrite True src n s = Panic ''sched locks''"
proof -
  let ?e = "enter ConsLock s"
  let ?f = "enter UartTxLock ?e"
  note e = enter_ok [OF assms(1), where lk = ConsLock]
  have noff: "0 \<le> noff (mycpu s)" using calmD(2) [OF assms(1)] by (simp add: intr_ok_def)
  have lf: "lock_free UartTxLock ?e" by (rule e(4)) simp
  obtain m where m: "nat n = Suc m" using assms(4) by (cases "nat n") auto
  have "urange (pmem s) (p_pagetable (procs s p)) src 1" using assms(6) by (simp add: urange_def)
  then obtain bs where "copyin (p_pagetable (procs s p)) src 1 ?e = Ok (0, bs) ?e"
    using copyin_reads [of kend ?e "p_pagetable (procs s p)" src 1] assms(5) by auto
  then have ci: "either_copyin True (src + of_nat 0) 1 ?e = Ok (0, bs) ?e"
    by (simp add: either_copyin_def myproc_eq [OF e(1)] e(2,3))
  have "uart_full ?f" "panicked ?f = panicked s"
    using assms(2) uart_state_same(5,8) [OF uart_enter [of UartTxLock ?e]] uart_state_same(5,8) [OF uart_enter [of ConsLock s]] by simp_all
  moreover have "sleep UartChan UartTxLock ?f = Panic ''sched locks''"
  proof (rule sleep_nested)
    show "cpu_proc (mycpu ?f) = Some p" using e(3) by (simp add: enter_def push_off_def cpu_defs Let_def)
    show "2 \<le> noff (mycpu ?f)" using noff by (simp add: noff_enter)
    then show "intr_ok ?f" by (simp add: intr_ok_def)
    show "holding UartTxLock ?f" by (simp add: holding_def enter_def cpu_defs)
    show "lock_free (ProcLock p) ?f" using e(4) [of "ProcLock p"] by (simp add: lock_free_def enter_def)
  qed simp
  ultimately have "uartputc (hd bs) ?e = Panic ''sched locks''"
    using assms(3) by (simp add: uartputc_def acquire_free [OF lf] uartputc_loop_def)
  then show ?thesis
    using ci by (simp add: consolewrite_def acquire_free calmD(3) [OF assms(1)] m)
qed

theorem consolewrite_full_panics_witness:
  "consolewrite True 10 1 (kboot_user\<lparr>uart_tx_w := 31\<rparr>) = Panic ''sched locks''"
proof (rule consolewrite_full_panics)
  let ?s = "kboot_user\<lparr>uart_tx_w := 31\<rparr>"
  show "calm 0 ?s" using calm_kboot_user by (simp add: calm_def intr_ok_def cpu_defs lock_free_def)
  show "uart_full ?s" "\<not> panicked ?s" by (simp_all add: uart_full_def kboot_user_def UART_TX_BUF_SIZE_def)
  show "pt_wf 0x80000000 (pmem ?s) (p_pagetable (procs ?s 0))" using demo_user_sep by (simp add: user_sep_def)
  show "upage (pmem ?s) (p_pagetable (procs ?s 0)) 10 \<noteq> 0" using demo_mapped [of 10 0] by simp
qed simp

end
