(* ===== verification/Ulib.thy ===== *)
theory Ulib
  imports Kstring
begin

text \<open>
  ulib.c: the C library of the user programs. A C string is the list of its bytes before the NUL;
  a buffer is a list of fixed length, and writing beyond it is \<open>None\<close>. Standard input is a list of
  chunks: a read call returns bytes of the first chunk, as many as it asks for at most, and no bytes
  at the end of the file.
\<close>

section \<open>Strings\<close>

fun strcpy :: "byte list \<Rightarrow> byte list \<Rightarrow> byte list option" where
  "strcpy [] cs = None"
| "strcpy (d # ds) [] = Some (0 # ds)"
| "strcpy (d # ds) (c # cs) = map_option ((#) c) (strcpy ds cs)"

fun strcmp :: "byte list \<Rightarrow> byte list \<Rightarrow> int" where
  "strcmp [] [] = 0"
| "strcmp [] (d # ds) = - uint d"
| "strcmp (c # cs) [] = uint c"
| "strcmp (c # cs) (d # ds) = (if c = d then strcmp cs ds else uint c - uint d)"

text \<open>The length counter is an int, the result an unsigned int.\<close>

fun strlen_from :: "u32 \<Rightarrow> byte list \<Rightarrow> u32" where
  "strlen_from n [] = n"
| "strlen_from n (c # cs) = strlen_from (n + 1) cs"

definition strlen :: "byte list \<Rightarrow> u32" where
  "strlen cs = strlen_from 0 cs"

text \<open>The index of the character found; the terminating NUL is not searched.\<close>

fun strchr :: "byte list \<Rightarrow> byte \<Rightarrow> nat option" where
  "strchr [] c = None"
| "strchr (d # ds) c = (if d = c then Some 0 else map_option Suc (strchr ds c))"

text \<open>The value is an int; the additions wrap around in 32 bits.\<close>

fun atoi_from :: "u32 \<Rightarrow> byte list \<Rightarrow> u32" where
  "atoi_from n [] = n"
| "atoi_from n (c # cs) =
     (if 0x30 \<le> c \<and> c \<le> 0x39 then atoi_from (n * 10 + ucast c - 0x30) cs else n)"

definition atoi :: "byte list \<Rightarrow> int" where
  "atoi cs = sint (atoi_from 0 cs)"

section \<open>Memory\<close>

definition memset :: "(u64 \<Rightarrow> byte) \<Rightarrow> u64 \<Rightarrow> u32 \<Rightarrow> u32 \<Rightarrow> (u64 \<Rightarrow> byte)" where
  "memset m dst c n = Kstring.memset m dst c (unat n)"

definition memmove :: "(u64 \<Rightarrow> byte) \<Rightarrow> u64 \<Rightarrow> u64 \<Rightarrow> int \<Rightarrow> (u64 \<Rightarrow> byte)" where
  "memmove m dst src n = (if dst < src then move_fwd m dst src (nat n) else move_bwd m dst src (nat n))"

fun memcmp :: "byte list \<Rightarrow> byte list \<Rightarrow> nat \<Rightarrow> int option" where
  "memcmp p q 0 = Some 0"
| "memcmp (c # p) (d # q) (Suc n) = (if c \<noteq> d then Some (uint c - uint d) else memcmp p q n)"
| "memcmp p q (Suc n) = None"

definition memcpy :: "(u64 \<Rightarrow> byte) \<Rightarrow> u64 \<Rightarrow> u64 \<Rightarrow> u32 \<Rightarrow> (u64 \<Rightarrow> byte)" where
  "memcpy m dst src n = memmove m dst src (sint n)"

section \<open>Input\<close>

type_synonym input = "byte list list"

fun uread :: "nat \<Rightarrow> input \<Rightarrow> byte list \<times> input" where
  "uread n [] = ([], [])"
| "uread n (c # cs) = (take n c, if length c \<le> n then cs else drop n c # cs)"

text \<open>
  gets: one byte is read at a time until the buffer is full, the file ends or a line ends. \<open>n\<close> is the room
  left beside the NUL; the result is the string in the buffer.
\<close>

fun gets_loop :: "nat \<Rightarrow> input \<Rightarrow> byte list \<times> input" where
  "gets_loop 0 inp = ([], inp)"
| "gets_loop (Suc n) inp =
     (case uread 1 inp of
        ([], inp) \<Rightarrow> ([], inp)
      | (c # _, inp) \<Rightarrow>
          if c = 10 \<or> c = 13 then ([c], inp)
          else (case gets_loop n inp of (cs, inp) \<Rightarrow> (c # cs, inp)))"

definition gets :: "int \<Rightarrow> input \<Rightarrow> byte list \<times> input" where
  "gets mx inp = gets_loop (nat (mx - 1)) inp"

lemma uread_shrinks:
  assumes "uread n inp = (b # bs, inp')"
  shows "sum_list (map length inp') < sum_list (map length inp)"
proof (cases inp)
  case (Cons c cs)
  have "n \<noteq> 0" using assms Cons by (cases n) auto
  moreover have "c \<noteq> []" using assms Cons by auto
  ultimately have "length (drop n c) < length c" "0 < length c" by (simp_all add: length_drop)
  with assms Cons show ?thesis by (auto split: if_splits)
qed (use assms in simp)

section \<open>Facts\<close>

lemma strcpy_eq:
  "strcpy buf cs = (if length cs < length buf then Some (cs @ 0 # drop (Suc (length cs)) buf) else None)"
  by (induction buf cs rule: strcpy.induct) simp_all

lemma strcmp_eq_0: "strcmp cs ds = 0 \<longleftrightarrow> cs = ds" if "0 \<notin> set cs" "0 \<notin> set ds"
  using that
proof (induction cs ds rule: strcmp.induct)
  case (2 d ds)
  then have "uint d \<noteq> 0" by (metis list.set_intros(1) uint_0_iff)
  then show ?case by simp
next
  case (3 c cs)
  then have "uint c \<noteq> 0" by (metis list.set_intros(1) uint_0_iff)
  then show ?case by simp
qed (auto dest: unsigned_word_eqI)

lemma strlen_eq: "strlen cs = of_nat (length cs)"
proof -
  have "strlen_from n cs = n + of_nat (length cs)" for n by (induction cs arbitrary: n) simp_all
  then show ?thesis by (simp add: strlen_def)
qed

lemma strchr_takeWhile:
  "strchr cs c = (if c \<in> set cs then Some (length (takeWhile (\<lambda>d. d \<noteq> c) cs)) else None)"
  by (induction cs) auto

definition stream :: "input \<Rightarrow> byte list" where
  "stream inp = concat inp"

definition live_input :: "input \<Rightarrow> bool" where
  "live_input inp \<longleftrightarrow> (\<forall>c\<in>set inp. c \<noteq> [])"

lemma uread_stream:
  assumes "live_input inp" and "uread n inp = (bs, inp')"
  shows "stream inp = bs @ stream inp'" "live_input inp'" "length bs \<le> n" "bs = [] \<longleftrightarrow> inp = [] \<or> n = 0"
proof -
  have "stream inp = bs @ stream inp' \<and> live_input inp' \<and> length bs \<le> n \<and> (bs = [] \<longleftrightarrow> inp = [] \<or> n = 0)"
  proof (cases inp)
    case Nil
    with assms show ?thesis by (simp add: stream_def live_input_def)
  next
    case (Cons c cs)
    then have c: "bs = take n c" "inp' = (if length c \<le> n then cs else drop n c # cs)" "c \<noteq> []"
      using assms by (simp_all add: live_input_def)
    have "take n c @ drop n c = c" by simp
    then show ?thesis using c assms(1) Cons by (auto simp: stream_def live_input_def)
  qed
  then show "stream inp = bs @ stream inp'" "live_input inp'" "length bs \<le> n" "bs = [] \<longleftrightarrow> inp = [] \<or> n = 0" by blast+
qed

end
