(* ===== verification/Grep.thy ===== *)
theory Grep
  imports Ulib
begin

text \<open>
  grep.c: the regular-expression matcher and the loop that splits the input into lines. The reference
  reads a pattern as a sequence of items, each with a set of words it stands for.
\<close>

section \<open>The matcher\<close>

text \<open>The characters \<open>. * ^ $\<close>.\<close>

definition c_any :: byte where "c_any = 0x2e"
definition c_star :: byte where "c_star = 0x2a"
definition c_caret :: byte where "c_caret = 0x5e"
definition c_dollar :: byte where "c_dollar = 0x24"

function (sequential) matchhere :: "byte list \<Rightarrow> byte list \<Rightarrow> bool"
  and matchstar :: "byte \<Rightarrow> byte list \<Rightarrow> byte list \<Rightarrow> bool" where
  "matchhere [] text = True"
| "matchhere (c # re) text =
     (if re \<noteq> [] \<and> hd re = c_star then matchstar c (tl re) text
      else if c = c_dollar \<and> re = [] then text = []
      else if text \<noteq> [] \<and> (c = c_any \<or> c = hd text) then matchhere re (tl text)
      else False)"
| "matchstar c re text =
     (if matchhere re text then True
      else if text \<noteq> [] \<and> (hd text = c \<or> c = c_any) then matchstar c re (tl text)
      else False)"
  by pat_completeness auto
termination
  by (relation "measure (\<lambda>x. case x of Inl (re, t) \<Rightarrow> 2 * (length re + length t)
      | Inr (c, re, t) \<Rightarrow> Suc (2 * (length re + length t)))") simp_all

declare matchhere.simps [simp del] matchstar.simps [simp del]

text \<open>The do-while loop of match tries every suffix, the empty one included.\<close>

fun match_loop :: "byte list \<Rightarrow> byte list \<Rightarrow> bool" where
  "match_loop re text =
     (if matchhere re text then True else (case text of [] \<Rightarrow> False | c # text \<Rightarrow> match_loop re text))"

declare match_loop.simps [simp del]

definition match :: "byte list \<Rightarrow> byte list \<Rightarrow> bool" where
  "match re text =
     (if re \<noteq> [] \<and> hd re = c_caret then matchhere (tl re) text else match_loop re text)"

section \<open>The loop over the input\<close>

definition BUFSIZE :: nat where "BUFSIZE = 1024"

text \<open>
  The inner loop on the string in the buffer: the lines written to the output and the bytes from the
  pointer p on. strchr stops at a NUL, so a line is found only if no NUL comes before its newline.
\<close>

function grep_lines :: "byte list \<Rightarrow> byte list \<Rightarrow> byte list \<times> byte list" where
  "grep_lines pattern buf =
     (case strchr (takeWhile (\<lambda>c. c \<noteq> 0) buf) 10 of
        None \<Rightarrow> ([], buf)
      | Some q \<Rightarrow>
          (let line = take q buf;
               out = (if match pattern line then line @ [10] else [])
           in case grep_lines pattern (drop (Suc q) buf) of (outs, rest) \<Rightarrow> (out @ outs, rest)))"
  by pat_completeness auto
termination
proof (relation "measure (length \<circ> snd)", simp)
  fix pattern buf :: "byte list" and q
  assume "strchr (takeWhile (\<lambda>c. c \<noteq> 0) buf) 10 = Some q"
  then have "takeWhile (\<lambda>c. c \<noteq> 0) buf \<noteq> []" by (auto simp: strchr_takeWhile)
  then have "buf \<noteq> []" by auto
  then show "((pattern, drop (Suc q) buf), pattern, buf) \<in> measure (length \<circ> snd)" by (cases buf) auto
qed

declare grep_lines.simps [simp del]

function grep :: "byte list \<Rightarrow> byte list \<Rightarrow> input \<Rightarrow> byte list" where
  "grep pattern buf inp =
     (case uread (BUFSIZE - length buf - 1) inp of
        ([], _) \<Rightarrow> []
      | (bs, inp) \<Rightarrow>
          (case grep_lines pattern (buf @ bs) of (out, rest) \<Rightarrow> out @ grep pattern rest inp))"
  by pat_completeness auto
termination
  by (relation "measure (\<lambda>(p, b, inp). sum_list (map length inp))") (auto dest: uread_shrinks uread_shrinks [OF sym])

declare grep.simps [simp del]


section \<open>Patterns as languages\<close>

datatype item = One byte | Many byte

fun stands :: "byte \<Rightarrow> byte \<Rightarrow> bool" where
  "stands c x \<longleftrightarrow> c = c_any \<or> x = c"

fun lang :: "item \<Rightarrow> byte list set" where
  "lang (One c) = {[x] | x. stands c x}"
| "lang (Many c) = {w. \<forall>x\<in>set w. stands c x}"

text \<open>The items of a pattern, and whether it ends in a dollar that anchors it to the end of the text.\<close>

function (sequential) items :: "byte list \<Rightarrow> item list \<times> bool" where
  "items [] = ([], False)"
| "items (c # re) =
     (if re \<noteq> [] \<and> hd re = c_star then (case items (tl re) of (its, a) \<Rightarrow> (Many c # its, a))
      else if c = c_dollar \<and> re = [] then ([], True)
      else (case items re of (its, a) \<Rightarrow> (One c # its, a)))"
  by pat_completeness auto
termination by (relation "measure length") simp_all

declare items.simps [simp del]

text \<open>The words that the items spell one after the other.\<close>

fun words :: "item list \<Rightarrow> byte list set" where
  "words [] = {[]}"
| "words (i # its) = {u @ v | u v. u \<in> lang i \<and> v \<in> words its}"

definition begins :: "byte list \<Rightarrow> byte list \<Rightarrow> bool" where
  "begins re text \<longleftrightarrow>
     (case items re of (its, a) \<Rightarrow> \<exists>w rest. text = w @ rest \<and> w \<in> words its \<and> (a \<longrightarrow> rest = []))"

definition found :: "byte list \<Rightarrow> byte list \<Rightarrow> bool" where
  "found re text \<longleftrightarrow>
     (if re \<noteq> [] \<and> hd re = c_caret then begins (tl re) text
      else \<exists>pre post. text = pre @ post \<and> begins re post)"

lemma lang_Many: "w \<in> lang (Many c) \<longleftrightarrow> w = [] \<or> (\<exists>x v. w = x # v \<and> stands c x \<and> v \<in> lang (Many c))"
  by (cases w) auto

definition begins_items :: "item list \<times> bool \<Rightarrow> byte list \<Rightarrow> bool" where
  "begins_items p text \<longleftrightarrow> (\<exists>w rest. text = w @ rest \<and> w \<in> words (fst p) \<and> (snd p \<longrightarrow> rest = []))"

lemma begins_eq: "begins re text = begins_items (items re) text"
  by (simp add: begins_def begins_items_def split: prod.split)

lemma begins_itemsI: "text = w @ rest \<Longrightarrow> w \<in> words its \<Longrightarrow> (a \<longrightarrow> rest = []) \<Longrightarrow> begins_items (its, a) text"
  by (auto simp: begins_items_def)

lemma words_ConsI: "u \<in> lang i \<Longrightarrow> v \<in> words its \<Longrightarrow> u @ v \<in> words (i # its)"
  by auto

lemma begins_One:
  "begins_items (One c # its, a) text \<longleftrightarrow> text \<noteq> [] \<and> stands c (hd text) \<and> begins_items (its, a) (tl text)"
proof
  assume "begins_items (One c # its, a) text"
  then obtain w rest where w: "text = w @ rest" "w \<in> words (One c # its)" "a \<longrightarrow> rest = []"
    unfolding begins_items_def fst_conv snd_conv by blast
  moreover obtain x v where "w = x # v" "stands c x" "v \<in> words its" using w(2) by auto
  ultimately have "text = x # v @ rest" "stands c x" "v \<in> words its" "a \<longrightarrow> rest = []" by simp_all
  then show "text \<noteq> [] \<and> stands c (hd text) \<and> begins_items (its, a) (tl text)"
    using begins_itemsI [of "v @ rest" v rest] by simp
next
  assume "text \<noteq> [] \<and> stands c (hd text) \<and> begins_items (its, a) (tl text)"
  then obtain x t w rest where "text = x # t" "stands c x" "t = w @ rest" "w \<in> words its" "a \<longrightarrow> rest = []"
    by (cases "text") (auto simp: begins_items_def)
  moreover then have "[x] @ w \<in> words (One c # its)" by (intro words_ConsI) auto
  ultimately show "begins_items (One c # its, a) text" by (intro begins_itemsI [of _ "[x] @ w" rest]) simp_all
qed

lemma begins_Many:
  "begins_items (Many c # its, a) text \<longleftrightarrow>
     begins_items (its, a) text \<or> text \<noteq> [] \<and> stands c (hd text) \<and> begins_items (Many c # its, a) (tl text)"
proof
  assume "begins_items (Many c # its, a) text"
  then obtain u v rest where t: "text = (u @ v) @ rest" "u \<in> lang (Many c)" "v \<in> words its" "a \<longrightarrow> rest = []"
    unfolding begins_items_def fst_conv snd_conv words.simps by blast
  show "begins_items (its, a) text \<or> text \<noteq> [] \<and> stands c (hd text) \<and> begins_items (Many c # its, a) (tl text)"
  proof (cases u)
    case Nil
    with t show ?thesis using begins_itemsI [of "text" v rest] by simp
  next
    case (Cons x u')
    have "u' @ v \<in> words (Many c # its)" using t(2,3) Cons by (intro words_ConsI) auto
    then have "begins_items (Many c # its, a) ((u' @ v) @ rest)" using t(4) by (intro begins_itemsI) auto
    with t Cons show ?thesis by auto
  qed
next
  assume "begins_items (its, a) text \<or> text \<noteq> [] \<and> stands c (hd text) \<and> begins_items (Many c # its, a) (tl text)"
  then show "begins_items (Many c # its, a) text"
  proof
    assume "begins_items (its, a) text"
    then obtain w rest where w: "text = w @ rest" "w \<in> words its" "a \<longrightarrow> rest = []"
      unfolding begins_items_def fst_conv snd_conv by blast
    have "[] @ w \<in> words (Many c # its)" using w(2) by (intro words_ConsI) simp_all
    with w(1,3) show ?thesis using begins_itemsI [of "text" w rest "Many c # its" a] by simp
  next
    assume "text \<noteq> [] \<and> stands c (hd text) \<and> begins_items (Many c # its, a) (tl text)"
    then obtain u v rest where "text \<noteq> []" "stands c (hd text)" "tl text = (u @ v) @ rest" "u \<in> lang (Many c)" "v \<in> words its" "a \<longrightarrow> rest = []"
      unfolding begins_items_def fst_conv snd_conv words.simps by blast
    moreover define x where "x = hd text"
    moreover have "text = x # tl text" using calculation(1) by (simp add: x_def)
    moreover have "(x # u) @ v \<in> words (Many c # its)" using calculation by (intro words_ConsI) auto
    ultimately show ?thesis using begins_itemsI [of "text" "(x # u) @ v" rest "Many c # its" a] by simp
  qed
qed

lemma matchhere_begins:
  "matchhere re t \<longleftrightarrow> begins re t"
  "matchstar c re t \<longleftrightarrow> begins_items (Many c # fst (items re), snd (items re)) t"
proof (induction re t and c re t rule: matchhere_matchstar.induct)
  case (1 t)
  then show ?case by (simp add: matchhere.simps begins_eq items.simps begins_items_def)
next
  case (2 c re t)
  show ?case
  proof (cases "re \<noteq> [] \<and> hd re = c_star")
    case True
    then show ?thesis using 2(1) by (simp add: matchhere.simps begins_eq items.simps split: prod.split)
  next
    case False
    show ?thesis
    proof (cases "c = c_dollar \<and> re = []")
      case True
      then show ?thesis using False by (auto simp: matchhere.simps begins_eq items.simps begins_items_def)
    next
      case n: False
      have "begins (c # re) t \<longleftrightarrow> begins_items (One c # fst (items re), snd (items re)) t"
        unfolding begins_eq items.simps if_not_P [OF False] if_not_P [OF n] by (simp add: split_def)
      then show ?thesis using False n 2(2)
        by (auto simp: matchhere.simps begins_One begins_eq)
    qed
  qed
next
  case (3 c re t)
  show ?case
    using 3 unfolding begins_eq by (subst matchstar.simps, subst begins_Many) auto
qed

lemma match_loop_found: "match_loop re text \<longleftrightarrow> (\<exists>pre post. text = pre @ post \<and> begins re post)"
proof (induction "text")
  case Nil
  then show ?case by (subst match_loop.simps) (simp add: matchhere_begins)
next
  case (Cons x t)
  have "(\<exists>pre post. x # t = pre @ post \<and> begins re post) \<longleftrightarrow>
      begins re (x # t) \<or> (\<exists>pre post. t = pre @ post \<and> begins re post)"
    by (auto simp: Cons_eq_append_conv)
  with Cons show ?case by (subst match_loop.simps) (simp add: matchhere_begins)
qed


section \<open>Lines\<close>

text \<open>The lines of a byte stream that end in a newline, and what follows the last one.\<close>

fun lines :: "byte list \<Rightarrow> byte list list" where
  "lines [] = []"
| "lines (c # cs) =
     (if c = 10 then [] # lines cs
      else if 10 \<in> set cs then (case lines cs of l # ls \<Rightarrow> (c # l) # ls | [] \<Rightarrow> []) else [])"

fun partial_line :: "byte list \<Rightarrow> byte list" where
  "partial_line [] = []"
| "partial_line (c # cs) = (if 10 \<in> set (c # cs) then partial_line cs else c # cs)"

lemma lines_empty: "lines cs = [] \<longleftrightarrow> 10 \<notin> set cs"
  by (induction cs) (auto split: list.split)

lemma partial_line_none: "10 \<notin> set cs \<Longrightarrow> partial_line cs = cs"
  by (cases cs) auto

lemma lines_newline:
  assumes "10 \<notin> set l"
  shows "lines (l @ 10 # cs) = l # lines cs" "partial_line (l @ 10 # cs) = partial_line cs"
  using assms by (induction l) (auto split: list.split)

lemma lines_append:
  "lines (cs @ ds) = lines cs @ lines (partial_line cs @ ds)" "partial_line (cs @ ds) = partial_line (partial_line cs @ ds)"
proof (induction "length (lines cs)" arbitrary: cs)
  case 0
  { case 1 from 0 show ?case using lines_empty [of cs] by (simp add: partial_line_none) }
  { case 2 from 0 show ?case using lines_empty [of cs] by (simp add: partial_line_none) }
next
  case (Suc n)
  then have "10 \<in> set cs" using lines_empty [of cs] by auto
  then obtain l r where cs: "cs = l @ 10 # r" "10 \<notin> set l" by (meson split_list_first)
  with Suc(3) have "n = length (lines r)" by (simp add: lines_newline)
  { case 1 show ?case using Suc(1) [OF \<open>n = length (lines r)\<close>] cs by (simp add: lines_newline) }
  { case 2 show ?case using Suc(2) [OF \<open>n = length (lines r)\<close>] cs by (simp add: lines_newline) }
qed

definition selected :: "byte list \<Rightarrow> byte list list \<Rightarrow> byte list" where
  "selected pattern ls = concat (map (\<lambda>l. l @ [10]) (filter (match pattern) ls))"

lemma selected_append: "selected p (xs @ ys) = selected p xs @ selected p ys"
  by (simp add: selected_def)

lemma grep_lines_eq: "0 \<notin> set buf \<Longrightarrow> grep_lines p buf = (selected p (lines buf), partial_line buf)"
proof (induction "length buf" arbitrary: buf rule: less_induct)
  case less
  have t: "takeWhile (\<lambda>c. c \<noteq> 0) buf = buf" using less.prems by (intro takeWhile_eq_all_conv [THEN iffD2]) auto
  show ?case
  proof (cases "10 \<in> set buf")
    case False
    then show ?thesis
      by (subst grep_lines.simps) (simp add: t strchr_takeWhile selected_def partial_line_none lines_empty [THEN iffD2])
  next
    case True
    then obtain l r where b: "buf = l @ 10 # r" "10 \<notin> set l" by (meson split_list_first)
    have "\<forall>x\<in>set l. x \<noteq> 10" using b(2) by auto
    then have "takeWhile (\<lambda>d. d \<noteq> 10) buf = l" using b(1) by (simp add: takeWhile_append2 takeWhile_tail)
    then have q: "strchr (takeWhile (\<lambda>c. c \<noteq> 0) buf) 10 = Some (length l)" using True by (simp add: t strchr_takeWhile)
    have d: "drop (Suc (length l)) buf = r" "take (length l) buf = l" by (simp_all add: b(1))
    have "grep_lines p r = (selected p (lines r), partial_line r)" using less b by simp
    moreover have "lines buf = l # lines r" "partial_line buf = partial_line r" unfolding b(1) using b(2) by (simp_all add: lines_newline)
    ultimately show ?thesis by (subst grep_lines.simps) (simp add: q d selected_def Let_def)
  qed
qed

text \<open>Every line with its newline fits into the buffer beside the terminating NUL, and so does what follows the last one.\<close>

definition short_lines :: "byte list \<Rightarrow> bool" where
  "short_lines cs \<longleftrightarrow> (\<forall>l\<in>set (lines cs). length l + 2 \<le> BUFSIZE) \<and> length (partial_line cs) + 2 \<le> BUFSIZE"

lemma short_partial:
  assumes "short_lines (cs @ ds)"
  shows "length (partial_line cs) + 2 \<le> BUFSIZE"
proof (cases "10 \<in> set (partial_line cs @ ds)")
  case False
  then have "partial_line (partial_line cs @ ds) = partial_line cs @ ds" by (rule partial_line_none)
  then show ?thesis using assms unfolding short_lines_def lines_append(2) [of cs ds] by simp
next
  case True
  then obtain l r where b: "partial_line cs @ ds = l @ 10 # r" "10 \<notin> set l" by (meson split_list_first)
  have n: "10 \<notin> set (partial_line cs)" by (induction cs) auto
  obtain us where "partial_line cs = l @ us \<and> us @ ds = 10 # r \<or> partial_line cs @ us = l"
    using b(1) unfolding append_eq_append_conv2 by blast
  then have "length (partial_line cs) \<le> length l"
  proof
    assume a: "partial_line cs = l @ us \<and> us @ ds = 10 # r"
    then have "us = []" using n by (cases us) auto
    with a show ?thesis by simp
  qed auto
  moreover have "l \<in> set (lines (cs @ ds))" unfolding lines_append(1) [of cs ds] b(1) using b(2) by (simp add: lines_newline)
  ultimately show ?thesis using assms unfolding short_lines_def by fastforce
qed


lemma grep_eq:
  assumes "live_input inp" and "0 \<notin> set (cs @ stream inp)" and "short_lines (cs @ stream inp)" and "buf = partial_line cs"
  shows "grep p buf inp = selected p (lines (buf @ stream inp))"
  using assms
proof (induction "length (stream inp)" arbitrary: inp cs buf rule: less_induct)
  case less
  note live = less.prems(1) and nul = less.prems(2) and short = less.prems(3) and buf = less.prems(4)
  obtain bs inp' where u: "uread (BUFSIZE - length buf - 1) inp = (bs, inp')" by fastforce
  note r = uread_stream [OF live u]
  have room: "BUFSIZE - length buf - 1 \<noteq> 0" using short_partial [OF short] buf by simp
  show ?case
  proof (cases "bs = []")
    case True
    then have "stream inp = []" using r(4) room by (simp add: stream_def)
    moreover have "10 \<notin> set buf" unfolding buf by (induction cs) auto
    ultimately show ?thesis using True u lines_empty [of buf] by (subst grep.simps) (simp add: selected_def)
  next
    case False
    have sub: "set (partial_line xs) \<subseteq> set xs" for xs by (induction xs) auto
    have nb: "0 \<notin> set (buf @ bs)" using nul r(1) sub [of cs] buf by auto
    have "partial_line (buf @ bs) = partial_line (cs @ bs)" unfolding buf lines_append(2) [of cs bs] ..
    then have "grep p (partial_line (buf @ bs)) inp' = selected p (lines (partial_line (buf @ bs) @ stream inp'))"
      using less.hyps [of inp' "cs @ bs"] False r(1,2) nul short by simp
    moreover have "grep p buf inp = selected p (lines (buf @ bs)) @ grep p (partial_line (buf @ bs)) inp'"
      using False u grep_lines_eq [OF nb] by (subst grep.simps) (cases bs; simp)
    ultimately show ?thesis unfolding r(1) using lines_append(1) [of "buf @ bs" "stream inp'"] by (simp add: selected_append)
  qed
qed

section \<open>Properties\<close>

text \<open>C19: The matcher decides the language of its pattern. Read a pattern as a sequence of items - a character, a dot for any
  character, or either of them followed by a star for any number of repetitions - with a final dollar for the end of the text: then match
  finds a text exactly if, for a pattern that starts with a caret, the text begins with a word of the rest of the pattern, and otherwise if some suffix of
  the text does. The greedy loops of matchhere and matchstar miss no way of splitting the text.\<close>

theorem match_language:
  "match re t \<longleftrightarrow> found re t"
  by (simp add: match_def found_def matchhere_begins match_loop_found)

text \<open>C20: grep prints exactly the matching lines. However the read calls cut the input into pieces, as long as it holds no NUL and no line is
  longer than the buffer, the output is the concatenation, in order, of the newline-terminated lines that match the pattern; an unterminated last line is
  never printed.\<close>

theorem grep_prints_matches:
  assumes "live_input inp" and "0 \<notin> set (stream inp)" and "short_lines (stream inp)"
  shows "grep pattern [] inp = concat (map (\<lambda>l. l @ [10]) (filter (found pattern) (lines (stream inp))))"
proof -
  have "filter (match pattern) ls = filter (found pattern) ls" for ls
    by (intro filter_cong) (simp_all add: match_def found_def matchhere_begins match_loop_found)
  then show ?thesis using grep_eq [of inp "[]" "[]" pattern] assms by (simp add: selected_def)
qed

theorem grep_prints_matches_witness:
  "grep [0x61] [] [[0x62, 10, 0x62], [0x61, 10]] =
     concat (map (\<lambda>l. l @ [10]) (filter (found [0x61]) [[0x62], [0x62, 0x61]])) \<and> live_input [[0x62, 10, 0x62], [0x61, 10]]"
  using grep_prints_matches [of "[[0x62, 10, 0x62], [0x61, 10]]" "[0x61]"]
  by (simp add: live_input_def stream_def short_lines_def BUFSIZE_def)

end
