(* ===== verification/Uprintf.thy ===== *)
theory Uprintf
  imports Ulib
begin

text \<open>
  printf.c of the user library. Each byte goes to the file descriptor with a write call of its own; the model
  returns the bytes in order. The variable arguments are a list of values; an argument that is missing or of
  another type than its conversion expects, which C leaves undefined, is \<open>None\<close>.
\<close>

datatype uarg = UInt u32 | ULong u64 | UPtr u64 | UStr "byte list option" | UChar u32

definition digits :: "byte list" where
  "digits = map of_char ''0123456789ABCDEF''"

text \<open>The digits of the do-while loop, least significant first.\<close>

function printint_digits :: "u32 \<Rightarrow> u32 \<Rightarrow> byte list" where
  "printint_digits x base =
     (if base < 2 then [] else
      digits ! unat (x mod base) #
        (if x div base \<noteq> 0 then printint_digits (x div base) base else []))"
  by pat_completeness auto
termination
proof (relation "measure (\<lambda>(x, base). unat x)", simp, clarsimp)
  fix x base :: u32
  assume "\<not> base < 2" and nz: "x div base \<noteq> 0"
  then have b: "2 \<le> unat base" by (simp add: word_less_nat_alt)
  have "x \<noteq> 0" using nz by auto
  then have "0 < unat x" by (simp add: unat_gt_0)
  then show "unat (x div base) < unat x" using b by (simp add: unat_div)
qed

declare printint_digits.simps [simp del]

definition printint :: "u32 \<Rightarrow> u32 \<Rightarrow> bool \<Rightarrow> byte list" where
  "printint xx base sign =
     (let neg = (sign \<and> sint xx < 0);
          x = (if neg then - xx else xx)
      in rev (printint_digits x base @ (if neg then [0x2d] else [])))"

fun printptr_loop :: "nat \<Rightarrow> u64 \<Rightarrow> byte list" where
  "printptr_loop 0 x = []"
| "printptr_loop (Suc n) x = digits ! unat (drop_bit (64 - 4) x) # printptr_loop n (push_bit 4 x)"

definition printptr :: "u64 \<Rightarrow> byte list" where
  "printptr x = [0x30, 0x78] @ printptr_loop 16 x"

text \<open>\<open>pct\<close> is the state after a percent sign.\<close>

fun vprintf_loop :: "bool \<Rightarrow> byte list \<Rightarrow> uarg list \<Rightarrow> byte list option" where
  "vprintf_loop pct [] args = Some []"
| "vprintf_loop False (c # fmt) args =
     (if c = 0x25 then vprintf_loop True fmt args else map_option ((#) c) (vprintf_loop False fmt args))"
| "vprintf_loop True (c # fmt) args =
     (if c = of_char CHR ''d'' then
        (case args of UInt x # args \<Rightarrow> map_option ((@) (printint x 10 True)) (vprintf_loop False fmt args) | _ \<Rightarrow> None)
      else if c = of_char CHR ''l'' then
        (case args of ULong x # args \<Rightarrow> map_option ((@) (printint (ucast x) 10 False)) (vprintf_loop False fmt args) | _ \<Rightarrow> None)
      else if c = of_char CHR ''x'' then
        (case args of UInt x # args \<Rightarrow> map_option ((@) (printint x 16 False)) (vprintf_loop False fmt args) | _ \<Rightarrow> None)
      else if c = of_char CHR ''p'' then
        (case args of UPtr x # args \<Rightarrow> map_option ((@) (printptr x)) (vprintf_loop False fmt args) | _ \<Rightarrow> None)
      else if c = of_char CHR ''s'' then
        (case args of
           UStr str # args \<Rightarrow>
             map_option ((@) (case str of None \<Rightarrow> map of_char ''(null)'' | Some cs \<Rightarrow> cs)) (vprintf_loop False fmt args)
         | _ \<Rightarrow> None)
      else if c = of_char CHR ''c'' then
        (case args of UChar x # args \<Rightarrow> map_option ((#) (ucast x)) (vprintf_loop False fmt args) | _ \<Rightarrow> None)
      else if c = 0x25 then map_option ((#) c) (vprintf_loop False fmt args)
      else map_option (\<lambda>cs. 0x25 # c # cs) (vprintf_loop False fmt args))"

definition vprintf :: "byte list \<Rightarrow> uarg list \<Rightarrow> byte list option" where
  "vprintf fmt args = vprintf_loop False fmt args"

definition fprintf :: "int \<Rightarrow> byte list \<Rightarrow> uarg list \<Rightarrow> (int \<times> byte list) option" where
  "fprintf fd fmt args = map_option (Pair fd) (vprintf fmt args)"

definition printf :: "byte list \<Rightarrow> uarg list \<Rightarrow> (int \<times> byte list) option" where
  "printf fmt args = fprintf 1 fmt args"

section \<open>Decimal numbers\<close>

definition dchar :: "nat \<Rightarrow> byte" where
  "dchar d = of_nat (48 + d)"

lemma digits_dchar: "d < 10 \<Longrightarrow> digits ! d = dchar d"
proof -
  assume "d < 10"
  then have "d \<in> {0, 1, 2, 3, 4, 5, 6, 7, 8, 9}" by auto
  then show ?thesis by (auto simp: digits_def dchar_def of_char_def)
qed

text \<open>The digits as numbers, most significant first.\<close>

function decimal :: "nat \<Rightarrow> nat list" where
  "decimal n = (if n < 10 then [n] else decimal (n div 10) @ [n mod 10])"
  by pat_completeness auto
termination by (relation "measure id") auto

declare decimal.simps [simp del]

lemma decimal_value: "foldl (\<lambda>a d. a * 10 + d) 0 (decimal n) = n" "\<forall>d\<in>set (decimal n). d < 10"
proof (induction n rule: decimal.induct)
  case (1 n)
  note ih = 1
  { case 1 show ?case using ih by (subst decimal.simps) auto }
  { case 2 show ?case using ih by (subst decimal.simps) auto }
qed

lemma printint_decimal: "rev (printint_digits x 10) = map dchar (decimal (unat x))"
proof (induction "unat x" arbitrary: x rule: less_induct)
  case less
  have q: "unat (x div 10) = unat x div 10" "unat (x mod 10) = unat x mod 10" by (simp_all add: unat_div unat_mod)
  have z: "x div 10 = 0 \<longleftrightarrow> unat x < 10" using q(1) by (simp add: word_eq_iff_unat div_eq_0_iff)
  show ?case
  proof (cases "unat x < 10")
    case True
    then show ?thesis using z by (subst printint_digits.simps, subst decimal.simps) (simp add: q(2) digits_dchar)
  next
    case False
    then have "rev (printint_digits (x div 10) 10) = map dchar (decimal (unat x div 10))"
      using less.hyps [of "x div 10"] q(1) by simp
    then show ?thesis using z False by (subst printint_digits.simps, subst decimal.simps) (simp add: q(2) digits_dchar)
  qed
qed

lemma atoi_dchars:
  "\<forall>d\<in>set ds. d < 10 \<Longrightarrow> atoi_from (of_nat a) (map dchar ds) = of_nat (foldl (\<lambda>a d. a * 10 + d) a ds)"
proof (induction ds arbitrary: a)
  case (Cons d ds)
  then have d: "d < 10" by simp
  then have u: "unat (dchar d) = 48 + d" unfolding dchar_def by (intro unat_of_nat_small) simp
  then have "0x30 \<le> dchar d" "dchar d \<le> 0x39" using d by (simp_all add: word_le_nat_alt)
  moreover have "(ucast (dchar d) :: u32) = of_nat (48 + d)" using u by (metis of_nat_unat)
  then have st: "of_nat a * 10 + (ucast (dchar d) :: u32) - 0x30 = of_nat (a * 10 + d)" by simp
  ultimately have "atoi_from (of_nat a) (map dchar (d # ds)) = atoi_from (of_nat (a * 10 + d)) (map dchar ds)"
    unfolding list.map(2) atoi_from.simps st by simp
  then show ?case using Cons.IH [of "a * 10 + d"] Cons.prems by simp
qed simp

lemma atoi_printint_digits: "atoi_from 0 (rev (printint_digits x 10)) = x"
proof -
  have "atoi_from (of_nat 0) (map dchar (decimal (unat x))) = of_nat (unat x)"
    unfolding atoi_dchars [OF decimal_value(2)] decimal_value(1) ..
  then show ?thesis by (simp add: printint_decimal)
qed


section \<open>Properties\<close>



end
