(* ===== verification/Sh.thy ===== *)
theory Sh
  imports Ulib
begin

text \<open>
  sh.c: the parser of the shell. The parse position is the suffix of the line from *ps to the end es, so a pointer into the line
  is its distance from es: the string between q and eq is the pair of the two distances, and \<open>'s\<close> is the type of strings in a command.
  A command is the tree that the constructor functions build; a command that malloc cannot provide is outside the model. The recursion of the parser is bounded by fuel, and
  \<open>parsecmd\<close> gives it more than a line of the given length can use.
\<close>

type_synonym span = "nat \<times> nat"

datatype 's cmd =
    EXEC "'s list"
  | REDIR "'s cmd" 's nat nat
  | PIPE "'s cmd" "'s cmd"
  | LIST "'s cmd" "'s cmd"
  | BACK "'s cmd"

datatype 'a parse = Parsed 'a | Psyntax string | Pfuel

fun pbind :: "'a parse \<Rightarrow> ('a \<Rightarrow> 'b parse) \<Rightarrow> 'b parse" where
  "pbind (Parsed a) k = k a"
| "pbind (Psyntax m) k = Psyntax m"
| "pbind Pfuel k = Pfuel"

lemma pbind_cong [fundef_cong]: "r = r' \<Longrightarrow> (\<And>a. r' = Parsed a \<Longrightarrow> k a = k' a) \<Longrightarrow> pbind r k = pbind r' k'"
  by (cases r') simp_all

definition MAXARGS :: nat where "MAXARGS = 10"

definition whitespace :: "byte list" where
  "whitespace = [0x20, 0x09, 0x0d, 0x0a, 0x0b]"

definition symbols :: "byte list" where
  "symbols = [0x3c, 0x7c, 0x3e, 0x26, 0x3b, 0x28, 0x29]"

definition O_RDONLY :: nat where "O_RDONLY = 0"
definition O_WRONLY :: nat where "O_WRONLY = 1"
definition O_CREATE :: nat where "O_CREATE = 0x200"
definition O_TRUNC :: nat where "O_TRUNC = 0x400"

section \<open>Tokens\<close>

text \<open>The characters of the switch in gettoken.\<close>

definition t_bar :: byte where "t_bar = 0x7c"
definition t_open :: byte where "t_open = 0x28"
definition t_close :: byte where "t_close = 0x29"
definition t_semi :: byte where "t_semi = 0x3b"
definition t_amp :: byte where "t_amp = 0x26"
definition t_lt :: byte where "t_lt = 0x3c"
definition t_gt :: byte where "t_gt = 0x3e"

datatype token = TokEnd | TokSym byte | TokAppend | TokWord

definition is_space :: "byte \<Rightarrow> bool" where
  "is_space c \<longleftrightarrow> strchr whitespace c \<noteq> None"

definition is_symbol :: "byte \<Rightarrow> bool" where
  "is_symbol c \<longleftrightarrow> strchr symbols c \<noteq> None"

fun skip_space :: "byte list \<Rightarrow> byte list" where
  "skip_space [] = []"
| "skip_space (c # s) = (if is_space c then skip_space s else c # s)"

fun skip_word :: "byte list \<Rightarrow> byte list" where
  "skip_word [] = []"
| "skip_word (c # s) = (if \<not> is_space c \<and> \<not> is_symbol c then skip_word s else c # s)"

text \<open>The token, its span and the new position.\<close>

definition gettoken :: "byte list \<Rightarrow> token \<times> span \<times> byte list" where
  "gettoken s =
     (let s = skip_space s;
          q = length s;
          (ret, s) =
            (case s of
               [] \<Rightarrow> (TokEnd, s)
             | c # r \<Rightarrow>
                 if c \<in> {t_bar, t_open, t_close, t_semi, t_amp, t_lt} then (TokSym c, r)
                 else if c = t_gt then (if r \<noteq> [] \<and> hd r = t_gt then (TokAppend, tl r) else (TokSym c, r))
                 else (TokWord, skip_word s))
      in (ret, (q, length s), skip_space s))"

definition peek :: "byte list \<Rightarrow> byte list \<Rightarrow> byte list \<times> bool" where
  "peek s toks = (let s = skip_space s in (s, s \<noteq> [] \<and> strchr toks (hd s) \<noteq> None))"

lemma skip_space_length: "length (skip_space s) \<le> length s"
  by (induction s) auto

lemma skip_word_length: "length (skip_word s) \<le> length s"
  by (induction s) auto

lemma skip_word_shrinks: "s \<noteq> [] \<Longrightarrow> \<not> is_space (hd s) \<Longrightarrow> \<not> is_symbol (hd s) \<Longrightarrow> length (skip_word s) < length s"
  using skip_word_length [of "tl s"] by (cases s) auto

lemma skip_space_hd: "skip_space s = c # r \<Longrightarrow> \<not> is_space c"
  by (induction s) (auto split: if_splits)

lemma skip_space_idem [simp]: "skip_space (skip_space s) = skip_space s"
  by (induction s) auto

lemma symbol_iff: "is_symbol c \<longleftrightarrow> c \<in> {t_bar, t_open, t_close, t_semi, t_amp, t_lt, t_gt}"
  by (auto simp: is_symbol_def symbols_def strchr_takeWhile t_bar_def t_open_def t_close_def t_semi_def t_amp_def t_lt_def t_gt_def)

lemma gettoken_length:
  assumes "gettoken s = (tok, sp, s')"
  shows "if tok = TokEnd then s' = [] \<and> skip_space s = [] else length s' < length s"
proof (cases "skip_space s")
  case Nil
  with assms show ?thesis by (auto simp: gettoken_def)
next
  case (Cons c r)
  have l: "length (skip_space x) \<le> length x" for x by (rule skip_space_length)
  have cr: "length r < length s" using l [of s] Cons by simp
  consider "c \<in> {t_bar, t_open, t_close, t_semi, t_amp, t_lt}" | "c = t_gt" "c \<notin> {t_bar, t_open, t_close, t_semi, t_amp, t_lt}"
    | "c \<notin> {t_bar, t_open, t_close, t_semi, t_amp, t_lt, t_gt}" by auto
  then show ?thesis
  proof cases
    case 1
    then show ?thesis using assms Cons cr l [of r] by (auto simp: gettoken_def)
  next
    case 2
    have "length (tl r) \<le> length r" by simp
    then show ?thesis using assms Cons cr l [of r] l [of "tl r"] 2 by (auto simp: gettoken_def Let_def split: if_splits)
  next
    case 3
    then have "length (skip_word (c # r)) < length (c # r)"
      using skip_word_shrinks [of "c # r"] skip_space_hd [OF Cons] symbol_iff [of c] by simp
    then show ?thesis using assms Cons cr l [of "skip_word (c # r)"] 3 by (auto simp: gettoken_def Let_def)
  qed
qed

section \<open>The parser\<close>

text \<open>
  Redirections wrap the command built so far, whose argument list may still grow; they are collected in order and
  applied when the command is complete. This is the switch on the redirection token.
\<close>

fun add_redir :: "token \<Rightarrow> span \<Rightarrow> (span \<times> nat \<times> nat) list \<Rightarrow> (span \<times> nat \<times> nat) list" where
  "add_redir (TokSym c) sp rs =
     (if c = t_lt then rs @ [(sp, O_RDONLY, 0)]
      else if c = t_gt then rs @ [(sp, O_WRONLY + O_CREATE + O_TRUNC, 1)] else rs)"
| "add_redir TokAppend sp rs = rs @ [(sp, O_WRONLY + O_CREATE, 1)]"
| "add_redir _ sp rs = rs"

lemma tokens_shrink:
  assumes "(x, b) = peek s toks" and "(tok, sp, y) = gettoken x"
  shows "length y \<le> length s" "tok \<noteq> TokEnd \<Longrightarrow> length y < length s"
  using gettoken_length [OF assms(2) [symmetric]] assms(1) skip_space_length [of s]
  by (auto simp: peek_def Let_def split: if_splits)

lemma peek_token:
  assumes "peek s toks = (x, True)" and "gettoken x = (tok, sp, y)"
  shows "tok \<noteq> TokEnd" "length y < length s"
proof -
  show t: "tok \<noteq> TokEnd" using gettoken_length [OF assms(2)] assms(1) by (auto simp: peek_def Let_def)
  then show "length y < length s" using tokens_shrink(2) assms by metis
qed

function parseredirs :: "(span \<times> nat \<times> nat) list \<Rightarrow> byte list \<Rightarrow> ((span \<times> nat \<times> nat) list \<times> byte list) parse" where
  "parseredirs rs s =
     (case peek s [t_lt, t_gt] of (s, b) \<Rightarrow>
      if \<not> b then Parsed (rs, s)
      else
        (case gettoken s of (tok, _, s) \<Rightarrow>
         case gettoken s of (tok2, sp, s) \<Rightarrow>
           if tok2 \<noteq> TokWord then Psyntax ''missing file for redirection''
           else parseredirs (add_redir tok sp rs) s))"
  by pat_completeness auto
termination
proof (relation "measure (length \<circ> snd)", simp, clarsimp)
  fix s x tok sp y sp2 z
  assume "(x, True) = peek s [t_lt, t_gt]" "(tok, sp, y) = gettoken x" "(TokWord, sp2, z) = gettoken y"
  then show "length z < length s"
    using tokens_shrink(1) [of x True s "[t_lt, t_gt]" tok sp y] gettoken_length [of y TokWord sp2 z] by fastforce
qed

declare parseredirs.simps [simp del]

fun redirected :: "'s cmd \<Rightarrow> ('s \<times> nat \<times> nat) list \<Rightarrow> 's cmd" where
  "redirected c [] = c"
| "redirected c ((sp, mode, fd) # rs) = redirected (REDIR c sp mode fd) rs"

lemma parseredirs_eq:
  assumes "peek s [t_lt, t_gt] = (x, b)" and "gettoken x = (tok, sp, y)" and "gettoken y = (tok2, sp2, z)"
  shows "parseredirs rs s =
    (if \<not> b then Parsed (rs, x) else if tok2 \<noteq> TokWord then Psyntax ''missing file for redirection''
     else parseredirs (add_redir tok sp2 rs) z)"
    "length x \<le> length s" "length z \<le> length x" "tok2 = TokWord \<Longrightarrow> length z < length s"
proof -
  show "parseredirs rs s =
    (if \<not> b then Parsed (rs, x) else if tok2 \<noteq> TokWord then Psyntax ''missing file for redirection''
     else parseredirs (add_redir tok sp2 rs) z)"
    by (subst parseredirs.simps) (simp add: assms)
  show "length x \<le> length s" using assms(1) skip_space_length [of s] by (auto simp: peek_def Let_def)
  then show "length z \<le> length x" "tok2 = TokWord \<Longrightarrow> length z < length s"
    using gettoken_length [OF assms(2)] gettoken_length [OF assms(3)] by (auto split: if_splits)
qed

text \<open>The steps of a parsing function on a concrete position.\<close>

lemma token_steps:
  obtains x b tok sp y tok2 sp2 z where
    "peek s toks = (x, b)" "gettoken x = (tok, sp, y)" "gettoken y = (tok2, sp2, z)"
  by (metis prod_cases3 surj_pair)

lemma parseredirs_shrink: "parseredirs rs s = Parsed (rs', s') \<Longrightarrow> length s' \<le> length s"
proof (induction "length s" arbitrary: rs s rule: less_induct)
  case less
  obtain x b tok sp y tok2 sp2 z where st: "peek s [t_lt, t_gt] = (x, b)" "gettoken x = (tok, sp, y)" "gettoken y = (tok2, sp2, z)"
    by (rule token_steps)
  note e = parseredirs_eq [OF st]
  show ?case
  proof (cases "b \<and> tok2 = TokWord")
    case True
    then show ?thesis using less.hyps [of z "add_redir tok sp2 rs"] less.prems e by simp
  next
    case False
    then show ?thesis using less.prems e(1,2) by (auto split: if_splits)
  qed
qed

text \<open>The arguments of a simple command.\<close>

function parseargs ::
    "span list \<Rightarrow> (span \<times> nat \<times> nat) list \<Rightarrow> byte list \<Rightarrow> (span list \<times> (span \<times> nat \<times> nat) list \<times> byte list) parse" where
  "parseargs args rs s =
     (case peek s [t_bar, t_close, t_amp, t_semi] of (s, b) \<Rightarrow>
      if b then Parsed (args, rs, s)
      else
        (case gettoken s of (tok, sp, s) \<Rightarrow>
           if tok = TokEnd then Parsed (args, rs, s)
           else if tok \<noteq> TokWord then Psyntax ''syntax''
           else
             (let args = args @ [sp]
              in if MAXARGS \<le> length args then Psyntax ''too many args''
                 else pbind (parseredirs rs s) (\<lambda>(rs, s). parseargs args rs s))))"
  by pat_completeness auto
termination
proof (relation "measure (\<lambda>(a, r, s). length s)", simp, clarsimp)
  fix rs s x sp y rs' z
  assume "(x, False) = peek s [t_bar, t_close, t_amp, t_semi]" "(TokWord, sp, y) = gettoken x" "parseredirs rs y = Parsed (rs', z)"
  then show "length z < length s"
    using tokens_shrink(2) [of x False s] parseredirs_shrink [of rs y rs' z] by fastforce
qed

declare parseargs.simps [simp del]

function parseback :: "span cmd \<Rightarrow> byte list \<Rightarrow> span cmd \<times> byte list" where
  "parseback c s =
     (case peek s [t_amp] of (s, b) \<Rightarrow>
      if b then (case gettoken s of (_, _, s) \<Rightarrow> parseback (BACK c) s) else (c, s))"
  by pat_completeness auto
termination
proof (relation "measure (length \<circ> snd)", simp, clarsimp)
  fix s x tok sp y
  assume "(x, True) = peek s [t_amp]" "(tok, sp, y) = gettoken x"
  then show "length y < length s" using peek_token(2) by metis
qed

declare parseback.simps [simp del]

fun parseline :: "nat \<Rightarrow> byte list \<Rightarrow> (span cmd \<times> byte list) parse"
  and parsepipe :: "nat \<Rightarrow> byte list \<Rightarrow> (span cmd \<times> byte list) parse"
  and parseblock :: "nat \<Rightarrow> byte list \<Rightarrow> (span cmd \<times> byte list) parse"
  and parseexec :: "nat \<Rightarrow> byte list \<Rightarrow> (span cmd \<times> byte list) parse" where
  "parseline 0 s = Pfuel"
| "parseline (Suc n) s =
     pbind (parsepipe n s) (\<lambda>(c, s).
     case parseback c s of (c, s) \<Rightarrow>
     case peek s [t_semi] of (s, b) \<Rightarrow>
       if b then (case gettoken s of (_, _, s) \<Rightarrow> pbind (parseline n s) (\<lambda>(d, s). Parsed (LIST c d, s)))
       else Parsed (c, s))"
| "parsepipe 0 s = Pfuel"
| "parsepipe (Suc n) s =
     pbind (parseexec n s) (\<lambda>(c, s).
     case peek s [t_bar] of (s, b) \<Rightarrow>
       if b then (case gettoken s of (_, _, s) \<Rightarrow> pbind (parsepipe n s) (\<lambda>(d, s). Parsed (PIPE c d, s)))
       else Parsed (c, s))"
| "parseblock 0 s = Pfuel"
| "parseblock (Suc n) s =
     (case peek s [t_open] of (s, b) \<Rightarrow>
      if \<not> b then Psyntax ''parseblock''
      else
        (case gettoken s of (_, _, s) \<Rightarrow>
         pbind (parseline n s) (\<lambda>(c, s).
         case peek s [t_close] of (s, b) \<Rightarrow>
           if \<not> b then Psyntax ''syntax - missing )''
           else
             (case gettoken s of (_, _, s) \<Rightarrow>
              pbind (parseredirs [] s) (\<lambda>(rs, s). Parsed (redirected c rs, s))))))"
| "parseexec 0 s = Pfuel"
| "parseexec (Suc n) s =
     (case peek s [t_open] of (s, b) \<Rightarrow>
      if b then parseblock n s
      else
        pbind (parseredirs [] s) (\<lambda>(rs, s).
        pbind (parseargs [] rs s) (\<lambda>(args, rs, s).
        Parsed (redirected (EXEC args) rs, s))))"

text \<open>The leftovers are printed before the panic.\<close>

definition parse_fuel :: "byte list \<Rightarrow> nat" where
  "parse_fuel s = 4 * length s + 4"

definition parsecmd :: "byte list \<Rightarrow> span cmd parse" where
  "parsecmd s =
     pbind (parseline (parse_fuel s) s) (\<lambda>(c, s).
     case peek s [] of (s, _) \<Rightarrow> if s \<noteq> [] then Psyntax ''syntax'' else Parsed c)"

text \<open>nulterminate writes a NUL at the end of every string of the command; \<open>buf\<close> is the line with its NUL.\<close>

definition nul_at :: "byte list \<Rightarrow> nat \<Rightarrow> byte list" where
  "nul_at buf d = buf[length buf - 1 - d := 0]"

fun nulterminate :: "span cmd \<Rightarrow> byte list \<Rightarrow> byte list" where
  "nulterminate (EXEC args) buf = fold (\<lambda>sp b. nul_at b (snd sp)) args buf"
| "nulterminate (REDIR c sp mode fd) buf = nul_at (nulterminate c buf) (snd sp)"
| "nulterminate (PIPE c d) buf = nulterminate d (nulterminate c buf)"
| "nulterminate (LIST c d) buf = nulterminate d (nulterminate c buf)"
| "nulterminate (BACK c) buf = nulterminate c buf"

end
