(* ===== verification/Sh_Parse.thy ===== *)
theory Sh_Parse
  imports Sh "HOL-Library.Sublist"
begin

text \<open>
  The shell's parser always ends, what it returns is well formed, and nulterminate makes every span of it a C string.
\<close>

section \<open>Words in a line\<close>

definition plain :: "byte \<Rightarrow> bool" where
  "plain c \<longleftrightarrow> \<not> is_space c \<and> \<not> is_symbol c"

definition delimited :: "byte list \<Rightarrow> bool" where
  "delimited r \<longleftrightarrow> r = [] \<or> \<not> plain (hd r)"

definition word_at :: "byte list \<Rightarrow> span \<Rightarrow> byte list \<Rightarrow> bool" where
  "word_at buf sp w \<longleftrightarrow>
     (\<exists>pre r. buf = pre @ w @ r \<and> sp = (length (w @ r), length r) \<and> w \<noteq> [] \<and> (\<forall>c\<in>set w. plain c) \<and> delimited r)"

lemma skip_word_split: "\<exists>w. s = w @ skip_word s \<and> (\<forall>c\<in>set w. plain c) \<and> delimited (skip_word s)"
proof (induction s)
  case Nil
  then show ?case by (simp add: delimited_def)
next
  case (Cons c s)
  show ?case
  proof (cases "plain c")
    case True
    from Cons obtain w where "s = w @ skip_word s" "\<forall>c\<in>set w. plain c" "delimited (skip_word s)" by blast
    with True show ?thesis by (intro exI [of _ "c # w"]) (simp add: plain_def)
  next
    case False
    then show ?thesis by (intro exI [of _ "[]"]) (auto simp: delimited_def plain_def)
  qed
qed

lemma skip_space_suffix: "suffix (skip_space s) s"
  by (induction s) (auto intro: suffix_ConsI)

lemma gettoken_word:
  assumes "gettoken s = (TokWord, sp, s')"
  shows "\<exists>w. word_at s sp w"
proof -
  obtain c r where c: "skip_space s = c # r" using assms by (cases "skip_space s") (auto simp: gettoken_def)
  have g: "c \<notin> {t_bar, t_open, t_close, t_semi, t_amp, t_lt}" "c \<noteq> t_gt" "sp = (length (c # r), length (skip_word (c # r)))"
    using assms by (auto simp: gettoken_def c Let_def split: if_splits)
  have p: "plain c" using g skip_space_hd [OF c] symbol_iff [of c] by (simp add: plain_def)
  obtain w where w: "c # r = w @ skip_word (c # r)" "\<forall>c\<in>set w. plain c" "delimited (skip_word (c # r))"
    using skip_word_split [of "c # r"] by blast
  have "length (skip_word (c # r)) < length (c # r)"
    using skip_word_shrinks [of "c # r"] p by (simp add: plain_def)
  with w(1) have "w \<noteq> []" by (metis append_Nil less_irrefl)
  moreover obtain pre where "s = pre @ c # r" using skip_space_suffix [of s] unfolding c suffix_def by blast
  ultimately show ?thesis unfolding word_at_def using w g(3) by (metis append.assoc)
qed

lemma gettoken_suffix:
  assumes "gettoken s = (tok, sp, s')"
  shows "suffix s' s"
proof (cases "skip_space s")
  case Nil
  with assms show ?thesis by (auto simp: gettoken_def)
next
  case (Cons c r)
  have cr: "suffix (c # r) s" using skip_space_suffix [of s] Cons by simp
  have r: "suffix r s" using cr by (rule suffix_ConsD)
  have sw: "suffix (skip_word (c # r)) (c # r)" using skip_word_split [of "c # r"] by (auto simp: suffix_def)
  have tr: "suffix (tl r) r" by simp
  have "s' \<in> {skip_space r, skip_space (tl r), skip_space (skip_word (c # r))}"
    using assms by (auto simp: gettoken_def Cons Let_def split: if_splits)
  moreover have "suffix (skip_space x) s" if "suffix x s" for x
    using skip_space_suffix that by (rule suffix_order.trans)
  ultimately show ?thesis using r suffix_order.trans [OF tr r] suffix_order.trans [OF sw cr] by blast
qed

lemma peek_suffix: "peek s toks = (x, b) \<Longrightarrow> suffix x s"
  using skip_space_suffix [of s] by (auto simp: peek_def Let_def)

lemma word_at_suffix: "word_at s sp w \<Longrightarrow> suffix s buf \<Longrightarrow> word_at buf sp w"
  unfolding word_at_def suffix_def by (metis append.assoc)

section \<open>Well-formed commands\<close>

definition redir_kind :: "nat \<Rightarrow> nat \<Rightarrow> bool" where
  "redir_kind mode fd \<longleftrightarrow> (mode, fd) \<in> {(O_RDONLY, 0), (O_WRONLY + O_CREATE + O_TRUNC, 1), (O_WRONLY + O_CREATE, 1)}"

fun wf_cmd :: "('s \<Rightarrow> bool) \<Rightarrow> 's cmd \<Rightarrow> bool" where
  "wf_cmd ok (EXEC args) \<longleftrightarrow> length args < MAXARGS \<and> (\<forall>a\<in>set args. ok a)"
| "wf_cmd ok (REDIR c f mode fd) \<longleftrightarrow> wf_cmd ok c \<and> ok f \<and> redir_kind mode fd"
| "wf_cmd ok (PIPE c d) \<longleftrightarrow> wf_cmd ok c \<and> wf_cmd ok d"
| "wf_cmd ok (LIST c d) \<longleftrightarrow> wf_cmd ok c \<and> wf_cmd ok d"
| "wf_cmd ok (BACK c) \<longleftrightarrow> wf_cmd ok c"

definition a_word :: "byte list \<Rightarrow> span \<Rightarrow> bool" where
  "a_word buf sp \<longleftrightarrow> (\<exists>w. word_at buf sp w)"

definition wf_redirs :: "byte list \<Rightarrow> (span \<times> nat \<times> nat) list \<Rightarrow> bool" where
  "wf_redirs buf rs \<longleftrightarrow> (\<forall>(sp, mode, fd)\<in>set rs. a_word buf sp \<and> redir_kind mode fd)"

lemma a_word_suffix: "a_word s sp \<Longrightarrow> suffix s buf \<Longrightarrow> a_word buf sp"
  using word_at_suffix unfolding a_word_def by blast

lemma wf_redirected: "wf_cmd (a_word buf) c \<Longrightarrow> wf_redirs buf rs \<Longrightarrow> wf_cmd (a_word buf) (redirected c rs)"
  by (induction c rs rule: redirected.induct) (simp_all add: wf_redirs_def)

lemma add_redir_wf: "wf_redirs buf rs \<Longrightarrow> a_word buf sp \<Longrightarrow> wf_redirs buf (add_redir tok sp rs)"
  by (cases tok) (auto simp: wf_redirs_def redir_kind_def)

lemma parseredirs_wf:
  assumes "parseredirs rs s = Parsed (rs', s')" and "suffix s buf" and "wf_redirs buf rs"
  shows "wf_redirs buf rs' \<and> suffix s' s"
  using assms
proof (induction "length s" arbitrary: rs s rule: less_induct)
  case less
  obtain x b tok sp y tok2 sp2 z where st: "peek s [t_lt, t_gt] = (x, b)" "gettoken x = (tok, sp, y)" "gettoken y = (tok2, sp2, z)"
    by (rule token_steps)
  note e = parseredirs_eq [OF st]
  have sx: "suffix x s" by (rule peek_suffix [OF st(1)])
  have sy: "suffix y s" using gettoken_suffix [OF st(2)] sx by (rule suffix_order.trans)
  have sz: "suffix z s" using gettoken_suffix [OF st(3)] sy by (rule suffix_order.trans)
  show ?case
  proof (cases "b \<and> tok2 = TokWord")
    case True
    have "a_word buf sp2"
      using gettoken_word [of y sp2 z] st(3) True a_word_suffix [OF _ suffix_order.trans [OF sy less.prems(2)]] by (auto simp: a_word_def)
    then have "wf_redirs buf rs' \<and> suffix s' z"
      using less.hyps [of z "add_redir tok sp2 rs"] less.prems e True suffix_order.trans [OF sz less.prems(2)] by (simp add: add_redir_wf)
    then show ?thesis using suffix_order.trans [OF _ sz] by blast
  next
    case False
    then show ?thesis using less.prems e(1) sx by (auto split: if_splits)
  qed
qed

lemma parseargs_eq:
  assumes "peek s [t_bar, t_close, t_amp, t_semi] = (x, b)" and "gettoken x = (tok, sp, y)"
  shows "parseargs args rs s = (if b then Parsed (args, rs, x) else if tok = TokEnd then Parsed (args, rs, y)
      else if tok \<noteq> TokWord then Psyntax ''syntax''
      else if MAXARGS \<le> length (args @ [sp]) then Psyntax ''too many args''
      else pbind (parseredirs rs y) (\<lambda>(rs, s). parseargs (args @ [sp]) rs s))"
  by (subst parseargs.simps) (simp add: assms Let_def)

lemma parseargs_wf:
  assumes "parseargs args rs s = Parsed (args', rs', s')" and "suffix s buf" and "wf_redirs buf rs"
    and "length args < MAXARGS" and "\<forall>a\<in>set args. a_word buf a"
  shows "wf_redirs buf rs' \<and> suffix s' s \<and> length args' < MAXARGS \<and> (\<forall>a\<in>set args'. a_word buf a)"
  using assms
proof (induction "length s" arbitrary: args rs s rule: less_induct)
  case less
  obtain x b tok sp y where st: "peek s [t_bar, t_close, t_amp, t_semi] = (x, b)" "gettoken x = (tok, sp, y)" by (metis token_steps)
  have sx: "suffix x s" by (rule peek_suffix [OF st(1)])
  have sy: "suffix y s" using gettoken_suffix [OF st(2)] sx by (rule suffix_order.trans)
  note eq = parseargs_eq [OF st, of args rs]
  show ?case
  proof (cases "b \<or> tok = TokEnd")
    case True
    then show ?thesis using less.prems eq sx sy by (auto split: if_splits)
  next
    case False
    then have tok: "tok = TokWord" "\<not> MAXARGS \<le> length (args @ [sp])" using less.prems(1) eq by (auto split: if_splits)
    then obtain rs2 z where z: "parseredirs rs y = Parsed (rs2, z)" "parseargs (args @ [sp]) rs2 z = Parsed (args', rs', s')"
      using less.prems(1) eq False by (cases "parseredirs rs y") auto
    have yb: "suffix y buf" using sy less.prems(2) by (rule suffix_order.trans)
    have r: "wf_redirs buf rs2" "suffix z y" using parseredirs_wf [OF z(1) yb less.prems(3)] by blast+
    have "length z < length s"
      using suffix_length_le [OF r(2)] tokens_shrink(2) [OF st(1) [symmetric] st(2) [symmetric]] tok(1) by simp
    moreover have "a_word buf sp"
      using gettoken_word [of x sp y] st(2) tok(1) a_word_suffix [OF _ suffix_order.trans [OF sx less.prems(2)]] by (auto simp: a_word_def)
    ultimately show ?thesis
      using less.hyps [of z "args @ [sp]" rs2] z(2) r less.prems(4,5) tok(2) suffix_order.trans [OF r(2) yb]
        suffix_order.trans [OF _ suffix_order.trans [OF r(2) sy]] by auto
  qed
qed


lemma wf_cmd_mono: "wf_cmd ok c \<Longrightarrow> (\<And>a. ok a \<Longrightarrow> ok' a) \<Longrightarrow> wf_cmd ok' c"
  by (induction c) auto

lemma wf_suffix: "wf_cmd (a_word s) c \<Longrightarrow> suffix s buf \<Longrightarrow> wf_cmd (a_word buf) c"
  by (erule wf_cmd_mono) (rule a_word_suffix)

lemma parseback_wf:
  assumes "parseback c s = (c', s')"
  shows "suffix s' s \<and> (wf_cmd ok c \<longrightarrow> wf_cmd ok c')"
  using assms
proof (induction "length s" arbitrary: c s rule: less_induct)
  case less
  obtain x b tok sp y where st: "peek s [t_amp] = (x, b)" "gettoken x = (tok, sp, y)" by (metis token_steps)
  have sx: "suffix x s" by (rule peek_suffix [OF st(1)])
  have sy: "suffix y s" using gettoken_suffix [OF st(2)] sx by (rule suffix_order.trans)
  have eq: "parseback c s = (if b then parseback (BACK c) y else (c, x))" by (subst parseback.simps) (simp add: st)
  show ?case
  proof (cases b)
    case True
    then have "length y < length s" using peek_token(2) [of s "[t_amp]" x tok sp y] st by simp
    then show ?thesis using less.hyps [of y "BACK c"] less.prems eq True suffix_order.trans [OF _ sy] by auto
  next
    case False
    then show ?thesis using less.prems eq sx by auto
  qed
qed

lemma pbind_Parsed: "pbind r k = Parsed b \<longleftrightarrow> (\<exists>a. r = Parsed a \<and> k a = Parsed b)"
  by (cases r) auto

lemma parse_wf:
  "parseline n s = Parsed (c, s') \<Longrightarrow> wf_cmd (a_word s) c \<and> suffix s' s"
  "parsepipe n s = Parsed (c, s') \<Longrightarrow> wf_cmd (a_word s) c \<and> suffix s' s"
  "parseblock n s = Parsed (c, s') \<Longrightarrow> wf_cmd (a_word s) c \<and> suffix s' s"
  "parseexec n s = Parsed (c, s') \<Longrightarrow> wf_cmd (a_word s) c \<and> suffix s' s"
proof (induction n arbitrary: s c s')
  case (Suc n)
  note ih = Suc.IH
  note tr = suffix_order.trans
  { case 1
    then obtain c1 s1 where p: "parsepipe n s = Parsed (c1, s1)" by (auto simp: pbind_Parsed)
    obtain c2 s2 where b: "parseback c1 s1 = (c2, s2)" by fastforce
    obtain x t tok sp y where st: "peek s2 [t_semi] = (x, t)" "gettoken x = (tok, sp, y)" by (metis token_steps)
    have w1: "wf_cmd (a_word s) c1" "suffix s1 s" using ih(2) [OF p] by blast+
    have w2: "wf_cmd (a_word s) c2" "suffix s2 s" using parseback_wf [OF b, of "a_word s"] w1(1) tr [OF _ w1(2)] by blast+
    have sx: "suffix x s" using peek_suffix [OF st(1)] w2(2) by (rule tr)
    have sy: "suffix y s" using gettoken_suffix [OF st(2)] sx by (rule tr)
    show ?case
    proof (cases t)
      case True
      then obtain d s3 where d: "parseline n y = Parsed (d, s3)" "c = LIST c2 d" "s' = s3"
        using 1 by (auto simp: pbind_Parsed p b st)
      show ?thesis using ih(1) [OF d(1)] w2(1) d(2,3) wf_suffix [OF _ sy] tr [OF _ sy] by auto
    next
      case False
      then show ?thesis using 1 w2(1) sx by (auto simp: p b st)
    qed }
  { case 2
    then obtain c1 s1 where p: "parseexec n s = Parsed (c1, s1)" by (auto simp: pbind_Parsed)
    obtain x t tok sp y where st: "peek s1 [t_bar] = (x, t)" "gettoken x = (tok, sp, y)" by (metis token_steps)
    have w1: "wf_cmd (a_word s) c1" "suffix s1 s" using ih(4) [OF p] by blast+
    have sx: "suffix x s" using peek_suffix [OF st(1)] w1(2) by (rule tr)
    have sy: "suffix y s" using gettoken_suffix [OF st(2)] sx by (rule tr)
    show ?case
    proof (cases t)
      case True
      then obtain d s3 where d: "parsepipe n y = Parsed (d, s3)" "c = PIPE c1 d" "s' = s3"
        using 2 by (auto simp: pbind_Parsed p st)
      show ?thesis using ih(2) [OF d(1)] w1(1) d(2,3) wf_suffix [OF _ sy] tr [OF _ sy] by auto
    next
      case False
      then show ?thesis using 2 w1(1) sx by (auto simp: p st)
    qed }
  { case 3
    obtain x t tok sp y where st: "peek s [t_open] = (x, t)" "gettoken x = (tok, sp, y)" by (metis token_steps)
    have sx: "suffix x s" by (rule peek_suffix [OF st(1)])
    have sy: "suffix y s" using gettoken_suffix [OF st(2)] sx by (rule tr)
    obtain c1 s1 where p: "parseline n y = Parsed (c1, s1)" using 3 by (auto simp: st pbind_Parsed split: if_splits)
    have w1: "wf_cmd (a_word s) c1" "suffix s1 s" using ih(1) [OF p] wf_suffix [OF _ sy] tr [OF _ sy] by blast+
    obtain x2 t2 tok2 sp2 y2 where st2: "peek s1 [t_close] = (x2, t2)" "gettoken x2 = (tok2, sp2, y2)" by (metis token_steps)
    have sy2: "suffix y2 s" using gettoken_suffix [OF st2(2)] peek_suffix [OF st2(1)] w1(2) tr by blast
    obtain rs s3 where r: "parseredirs [] y2 = Parsed (rs, s3)" "c = redirected c1 rs" "s' = s3"
      using 3 by (auto simp: st p st2 pbind_Parsed split: if_splits)
    show ?case using parseredirs_wf [OF r(1) sy2] r(2,3) wf_redirected [OF w1(1)] tr [OF _ sy2] by (auto simp: wf_redirs_def) }
  { case 4
    obtain x t where st: "peek s [t_open] = (x, t)" by fastforce
    have sx: "suffix x s" by (rule peek_suffix [OF st])
    show ?case
    proof (cases t)
      case True
      then show ?thesis using 4 ih(3) [of x c s'] wf_suffix [OF _ sx] tr [OF _ sx] by (auto simp: st)
    next
      case False
      then obtain rs s1 args rs2 s2 where r: "parseredirs [] x = Parsed (rs, s1)" "parseargs [] rs s1 = Parsed (args, rs2, s2)"
          "c = redirected (EXEC args) rs2" "s' = s2"
        using 4 by (auto simp: st pbind_Parsed)
      have w: "wf_redirs s rs" "suffix s1 s" using parseredirs_wf [OF r(1) sx] tr [OF _ sx] by (auto simp: wf_redirs_def)
      show ?thesis using parseargs_wf [OF r(2) w(2,1)] r(3,4) wf_redirected tr [OF _ w(2)] by (auto simp: MAXARGS_def)
    qed }
qed simp_all

section \<open>Enough fuel\<close>

lemma pbind_fuel: "r \<noteq> Pfuel \<Longrightarrow> (\<And>a. r = Parsed a \<Longrightarrow> k a \<noteq> Pfuel) \<Longrightarrow> pbind r k \<noteq> Pfuel"
  by (cases r) auto

lemma pbind_Pfuel: "pbind r k = Pfuel \<longleftrightarrow> r = Pfuel \<or> (\<exists>a. r = Parsed a \<and> k a = Pfuel)"
  by (cases r) auto

lemma parseredirs_fuel: "parseredirs rs s \<noteq> Pfuel"
proof (induction "length s" arbitrary: rs s rule: less_induct)
  case less
  obtain x b tok sp y tok2 sp2 z where st: "peek s [t_lt, t_gt] = (x, b)" "gettoken x = (tok, sp, y)" "gettoken y = (tok2, sp2, z)"
    by (rule token_steps)
  show ?case using less parseredirs_eq [OF st] by simp
qed

lemma parseargs_fuel: "parseargs args rs s \<noteq> Pfuel"
proof (induction "length s" arbitrary: args rs s rule: less_induct)
  case less
  obtain x b tok sp y where st: "peek s [t_bar, t_close, t_amp, t_semi] = (x, b)" "gettoken x = (tok, sp, y)" by (metis token_steps)
  have "pbind (parseredirs rs y) (\<lambda>(rs, s). parseargs (args @ [sp]) rs s) \<noteq> Pfuel" if "tok \<noteq> TokEnd"
  proof (rule pbind_fuel [OF parseredirs_fuel])
    fix a assume a: "parseredirs rs y = Parsed a"
    obtain rs2 z where z: "a = (rs2, z)" by fastforce
    have "length z < length s"
      using parseredirs_shrink [of rs y rs2 z] a z tokens_shrink(2) [OF st(1) [symmetric] st(2) [symmetric] that] by simp
    then show "(case a of (rs, s) \<Rightarrow> parseargs (args @ [sp]) rs s) \<noteq> Pfuel" using less z by simp
  qed
  then show ?case using parseargs_eq [OF st, of args rs] by simp
qed

lemma parse_shrinks:
  "parsepipe n s = Parsed (c, s') \<Longrightarrow> length s' \<le> length s" "parseexec n s = Parsed (c, s') \<Longrightarrow> length s' \<le> length s"
  "parseback d s = (c, s') \<Longrightarrow> length s' \<le> length s"
  using parse_wf(2,4) [of n s c s'] parseback_wf [of d s c s'] suffix_length_le by blast+

lemma parse_fuel_enough:
  "4 * length s + 4 \<le> n \<Longrightarrow> parseline n s \<noteq> Pfuel"
  "4 * length s + 3 \<le> n \<Longrightarrow> parsepipe n s \<noteq> Pfuel"
  "4 * length s + 1 \<le> n \<Longrightarrow> parseblock n s \<noteq> Pfuel"
  "4 * length s + 2 \<le> n \<Longrightarrow> parseexec n s \<noteq> Pfuel"
proof (induction n arbitrary: s)
  case (Suc n)
  note ih = Suc.IH
  have tok: "length y < length s1" if "peek s1 toks = (x, True)" "gettoken x = (tok, sp, y)" for s1 toks x tok sp y
    using peek_token(2) [OF that] .
  { case 1
    show ?case unfolding parseline.simps
    proof (rule pbind_fuel)
      show "parsepipe n s \<noteq> Pfuel" using ih(2) [of s] 1 by simp
    next
      fix a assume p: "parsepipe n s = Parsed a"
      obtain c1 s1 where a: "a = (c1, s1)" by fastforce
      obtain c2 s2 where b: "parseback c1 s1 = (c2, s2)" by fastforce
      obtain x t tk sp y where st: "peek s2 [t_semi] = (x, t)" "gettoken x = (tk, sp, y)" by (metis token_steps)
      have "length s2 \<le> length s" using parse_shrinks(3) [OF b] parse_shrinks(1) [of n s c1 s1] p a by simp
      then have "t \<Longrightarrow> parseline n y \<noteq> Pfuel" using ih(1) [of y] tok [of s2 _ x] st 1 by fastforce
      then show "(case a of (c, s) \<Rightarrow> case parseback c s of (c, s) \<Rightarrow> case peek s [t_semi] of (s, b) \<Rightarrow>
          if b then case gettoken s of (_, _, s) \<Rightarrow> pbind (parseline n s) (\<lambda>(d, s). Parsed (LIST c d, s)) else Parsed (c, s)) \<noteq> Pfuel"
        by (auto simp: a b st pbind_Pfuel)
    qed }
  { case 2
    show ?case unfolding parsepipe.simps
    proof (rule pbind_fuel)
      show "parseexec n s \<noteq> Pfuel" using ih(4) [of s] 2 by simp
    next
      fix a assume p: "parseexec n s = Parsed a"
      obtain c1 s1 where a: "a = (c1, s1)" by fastforce
      obtain x t tk sp y where st: "peek s1 [t_bar] = (x, t)" "gettoken x = (tk, sp, y)" by (metis token_steps)
      have "length s1 \<le> length s" using parse_shrinks(2) [of n s c1 s1] p a by simp
      then have "t \<Longrightarrow> parsepipe n y \<noteq> Pfuel" using ih(2) [of y] tok [of s1 _ x] st 2 by fastforce
      then show "(case a of (c, s) \<Rightarrow> case peek s [t_bar] of (s, b) \<Rightarrow>
          if b then case gettoken s of (_, _, s) \<Rightarrow> pbind (parsepipe n s) (\<lambda>(d, s). Parsed (PIPE c d, s)) else Parsed (c, s)) \<noteq> Pfuel"
        by (auto simp: a st pbind_Pfuel)
    qed }
  { case 3
    obtain x t tk sp y where st: "peek s [t_open] = (x, t)" "gettoken x = (tk, sp, y)" by (metis token_steps)
    have "t \<Longrightarrow> parseline n y \<noteq> Pfuel" using ih(1) [of y] tok [of s _ x] st 3 by fastforce
    then show ?case
      by (auto simp: st pbind_Pfuel parseredirs_fuel split: prod.splits if_splits) }
  { case 4
    obtain x t where st: "peek s [t_open] = (x, t)" by fastforce
    have "length x \<le> length s" using suffix_length_le [OF peek_suffix [OF st]] .
    then have "parseblock n x \<noteq> Pfuel" using ih(3) [of x] 4 by simp
    then show ?case
      by (auto simp: st pbind_Pfuel parseredirs_fuel parseargs_fuel) }
qed simp_all


section \<open>Terminating the strings\<close>

definition cstring_at :: "byte list \<Rightarrow> nat \<Rightarrow> byte list" where
  "cstring_at b i = takeWhile (\<lambda>c. c \<noteq> 0) (drop i b)"

definition nul_set :: "byte list \<Rightarrow> nat set \<Rightarrow> byte list" where
  "nul_set b ds = map (\<lambda>i. if \<exists>d\<in>ds. i = length b - 1 - d then 0 else b ! i) [0..<length b]"

lemma nul_set_simps: "length (nul_set b ds) = length b" "nul_set b {} = b"
  by (simp_all add: nul_set_def map_nth)

lemma nul_set_nth: "i < length b \<Longrightarrow> nul_set b ds ! i = (if \<exists>d\<in>ds. i = length b - 1 - d then 0 else b ! i)"
  by (simp add: nul_set_def)

lemma nul_at_set: "nul_at (nul_set b ds) d = nul_set b (insert d ds)"
  by (rule nth_equalityI) (auto simp: nul_at_def nul_set_def nth_list_update)

lemma fold_nul_at: "fold (\<lambda>sp b. nul_at b (snd sp)) args (nul_set b ds) = nul_set b (ds \<union> snd ` set args)"
  by (induction args arbitrary: ds) (simp_all add: nul_at_set)

lemma nulterminate_set: "nulterminate c (nul_set b ds) = nul_set b (ds \<union> snd ` set_cmd c)"
  by (induction c arbitrary: ds) (simp_all add: fold_nul_at nul_at_set Un_assoc image_Un)

lemma word_end:
  assumes "word_at line sp w"
  shows "length line - snd sp = length line \<or> \<not> plain (line ! (length line - snd sp))"
proof -
  obtain pre r where p: "line = pre @ w @ r" "sp = (length (w @ r), length r)" "delimited r"
    using assms by (auto simp: word_at_def)
  have "line ! length (pre @ w) = hd r" if "r \<noteq> []" using p(1) that by (cases r) (simp_all add: nth_append)
  moreover have "length line - snd sp = length (pre @ w)" using p by simp
  ultimately show ?thesis using p by (cases "r = []") (auto simp: delimited_def)
qed

lemma string_terminated:
  assumes "word_at line sp w" and "0 \<notin> set line" and "snd sp \<in> ds" and "\<And>d. d \<in> ds \<Longrightarrow> \<exists>sp w. word_at line sp w \<and> d = snd sp"
  shows "cstring_at (nul_set (line @ [0]) ds) (length line - fst sp) = w"
proof -
  let ?b = "nul_set (line @ [0]) ds"
  obtain pre r where p: "line = pre @ w @ r" "sp = (length (w @ r), length r)" "\<forall>c\<in>set w. plain c"
    using assms(1) by (auto simp: word_at_def)
  have start: "length line - fst sp = length pre" using p by simp
  have len: "length ?b = length line + 1" by (simp add: nul_set_simps)
  have "?b ! (length pre + k) = w ! k" if k: "k < length w" for k
  proof -
    have lk: "line ! (length pre + k) = w ! k" "length pre + k < length line" using k p(1) by (simp_all add: nth_append)
    have "length pre + k \<noteq> length line - d" if d: "d \<in> ds" for d
    proof
      assume eq: "length pre + k = length line - d"
      obtain sp2 w2 where "word_at line sp2 w2" "d = snd sp2" using assms(4) [OF d] by blast
      then have "length line - d = length line \<or> \<not> plain (line ! (length line - d))" using word_end by blast
      moreover have "plain (w ! k)" using p(3) k by simp
      ultimately show False using lk unfolding eq [symmetric] by simp
    qed
    then have "\<not> (\<exists>d\<in>ds. length pre + k = length (line @ [0]) - 1 - d)" by simp
    moreover have "length pre + k < length (line @ [0])" using lk(2) by simp
    ultimately have "?b ! (length pre + k) = (line @ [0]) ! (length pre + k)" by (subst nul_set_nth) simp_all
    then show ?thesis using lk by (simp add: nth_append)
  qed
  then have t: "take (length w) (drop (length pre) ?b) = w" using len p(1) by (intro nth_equalityI) simp_all
  have "length pre + length w = length line - snd sp" using p by simp
  then have "\<exists>d\<in>ds. length pre + length w = length (line @ [0]) - 1 - d" using assms(3) by auto
  moreover have "length pre + length w < length (line @ [0])" using p(1) by simp
  ultimately have z: "?b ! (length pre + length w) = 0" by (subst nul_set_nth) (simp_all only: if_True)
  have "drop (length pre) ?b = w @ 0 # drop (Suc (length w)) (drop (length pre) ?b)"
    using t z len p(1) id_take_nth_drop [of "length w" "drop (length pre) ?b"] by simp
  moreover have "0 \<notin> set w" using assms(2) p(1) by simp
  then have "takeWhile (\<lambda>c. c \<noteq> 0) (w @ 0 # x) = w" for x by (subst takeWhile_append2) auto
  ultimately show ?thesis unfolding cstring_at_def start by metis
qed

lemma wf_cmd_set: "wf_cmd ok c \<Longrightarrow> sp \<in> set_cmd c \<Longrightarrow> ok sp"
  by (induction c) auto

lemma wf_cmd_and: "wf_cmd ok c \<Longrightarrow> (\<And>sp. sp \<in> set_cmd c \<Longrightarrow> ok' sp) \<Longrightarrow> wf_cmd ok' c"
  by (induction c) auto

lemma parsecmd_cases:
  "parsecmd line \<noteq> Pfuel" "parsecmd line = Parsed c \<Longrightarrow> wf_cmd (a_word line) c"
proof -
  have "parseline (parse_fuel line) line \<noteq> Pfuel" by (rule parse_fuel_enough(1)) (simp add: parse_fuel_def)
  then show "parsecmd line \<noteq> Pfuel"
    unfolding parsecmd_def by (auto simp: pbind_Pfuel split: prod.splits)
  assume "parsecmd line = Parsed c"
  then obtain d s' where p: "parseline (parse_fuel line) line = Parsed (d, s')"
    and e: "(case peek s' [] of (s, _) \<Rightarrow> if s \<noteq> [] then Psyntax ''syntax'' else Parsed d) = Parsed c"
    unfolding parsecmd_def pbind_Parsed by auto
  from e have "d = c" by (cases "peek s' []") (simp split: if_splits)
  with p have "parseline (parse_fuel line) line = Parsed (c, s')" by simp
  then show "wf_cmd (a_word line) c" by (rule parse_wf(1) [THEN conjunct1])
qed


text \<open>C18: the parser of the shell is total and typed. On every line without a NUL byte it ends, with a syntax error or with a
  command: every simple command has fewer than \<^const>\<open>MAXARGS\<close> arguments, so that the argument vector has room for its
  terminating null pointer; every redirection is one of the three the switch builds, an input on descriptor 0 or a
  truncating or appending output on descriptor 1; and every span is a maximal word of the line, which after
  nulterminate has run over the whole tree is exactly a NUL-terminated string at its start.
\<close>

theorem parsecmd_well_formed:
  assumes "0 \<notin> set line"
  shows "case parsecmd line of
      Pfuel \<Rightarrow> False
    | Psyntax m \<Rightarrow> True
    | Parsed c \<Rightarrow>
        wf_cmd (\<lambda>sp. \<exists>w. word_at line sp w \<and> cstring_at (nulterminate c (line @ [0])) (length line - fst sp) = w) c"
proof (cases "parsecmd line")
  case (Parsed c)
  let ?ds = "snd ` set_cmd c"
  have wf: "wf_cmd (a_word line) c" by (rule parsecmd_cases(2) [OF Parsed])
  have nt: "nulterminate c (line @ [0]) = nul_set (line @ [0]) ?ds"
    using nulterminate_set [of c "line @ [0]" "{}"] by (simp add: nul_set_simps(2))
  have dom: "\<exists>sp w. word_at line sp w \<and> d = snd sp" if "d \<in> ?ds" for d
    using that wf_cmd_set [OF wf] unfolding a_word_def by blast
  have "\<exists>w. word_at line sp w \<and> cstring_at (nulterminate c (line @ [0])) (length line - fst sp) = w" if sp: "sp \<in> set_cmd c" for sp
  proof -
    obtain w where w: "word_at line sp w" using wf_cmd_set [OF wf sp] by (auto simp: a_word_def)
    moreover have "cstring_at (nul_set (line @ [0]) ?ds) (length line - fst sp) = w"
      using w assms sp dom by (intro string_terminated) auto
    ultimately show ?thesis unfolding nt by blast
  qed
  then show ?thesis using wf_cmd_and [OF wf] Parsed by simp
qed (simp_all add: parsecmd_cases(1))

theorem parsecmd_well_formed_witness:
  "parsecmd [0x61, 0x20, 0x62] = Parsed (EXEC [(3, 2), (1, 0)]) \<and>
   wf_cmd (\<lambda>sp. \<exists>w. word_at [0x61, 0x20, 0x62] sp w \<and>
     cstring_at (nulterminate (EXEC [(3, 2), (1, 0)]) ([0x61, 0x20, 0x62] @ [0])) (length [0x61 :: byte, 0x20, 0x62] - fst sp) = w)
     (EXEC [(3, 2), (1, 0)])"
proof -
  have p: "parsecmd [0x61, 0x20, 0x62] = Parsed (EXEC [(3, 2), (1, 0)])" by code_simp
  have z: "(0 :: byte) \<notin> set [0x61, 0x20, 0x62]" by simp
  show ?thesis using p parsecmd_well_formed [OF z, unfolded p parse.case] by blast
qed

end
