(* ===== verification/Sh_Print.thy ===== *)
theory Sh_Print
  imports Sh_Parse
begin

text \<open>
  A printer for commands, and the proof that the shell's parser reads back what it prints: the parser accepts every
  well-formed command, at every nesting of pipes, lists, background commands, blocks and redirections.
\<close>

section \<open>A line for every command\<close>

definition good_word :: "byte list \<Rightarrow> bool" where
  "good_word w \<longleftrightarrow> w \<noteq> [] \<and> (\<forall>c\<in>set w. plain c)"

definition show_redir :: "byte list \<Rightarrow> nat \<Rightarrow> nat \<Rightarrow> byte list" where
  "show_redir f mode fd =
     (if fd = 0 then [t_lt] else if mode = O_WRONLY + O_CREATE then [t_gt, t_gt] else [t_gt]) @ f @ [0x20]"

text \<open>The line of a command as a simple command or block, as a pipeline, as a background list and as a line; parentheses where needed.\<close>

datatype levels = Levels (as_exec: "byte list") (as_pipe: "byte list") (as_back: "byte list") (as_line: "byte list")

definition paren :: "byte list \<Rightarrow> byte list" where
  "paren l = t_open # l @ [t_close]"

primrec shown :: "byte list cmd \<Rightarrow> levels" where
  "shown (EXEC args) = (let l = concat (map (\<lambda>w. w @ [0x20]) args) in Levels l l l l)"
| "shown (REDIR c f mode fd) = (let l = as_exec (shown c) @ show_redir f mode fd in Levels l l l l)"
| "shown (PIPE c d) = (let l = as_exec (shown c) @ t_bar # as_pipe (shown d) in Levels (paren l) l l l)"
| "shown (LIST c d) = (let l = as_back (shown c) @ t_semi # as_line (shown d) in Levels (paren l) (paren l) (paren l) l)"
| "shown (BACK c) = (let l = as_back (shown c) @ [t_amp] in Levels (paren l) (paren l) l l)"


section \<open>Reading tokens\<close>

definition next_char :: "byte list \<Rightarrow> byte option" where
  "next_char s = (case skip_space s of [] \<Rightarrow> None | c # _ \<Rightarrow> Some c)"

definition follows :: "byte list \<Rightarrow> byte list \<Rightarrow> bool" where
  "follows cs r \<longleftrightarrow> (case next_char r of None \<Rightarrow> True | Some c \<Rightarrow> c \<in> set cs)"

lemma peek_next: "peek s toks = (skip_space s, case next_char s of None \<Rightarrow> False | Some c \<Rightarrow> c \<in> set toks)"
  by (auto simp: peek_def next_char_def strchr_takeWhile Let_def split: list.split)

lemma next_char_skip [simp]: "next_char (skip_space s) = next_char s"
  by (simp add: next_char_def)

lemmas t_defs = t_bar_def t_open_def t_close_def t_semi_def t_amp_def t_lt_def t_gt_def

lemma sym_not_space: "is_symbol c \<Longrightarrow> \<not> is_space c"
  by (auto simp: symbol_iff is_space_def whitespace_def strchr_takeWhile t_defs)

lemma space_20: "is_space 0x20"
  by (simp add: is_space_def whitespace_def strchr_takeWhile)

lemma skip_sym: "is_symbol c \<Longrightarrow> skip_space (c # s) = c # s"
  by (simp add: sym_not_space)

lemma skip_plain: "good_word w \<Longrightarrow> skip_space (w @ s) = w @ s"
  by (cases w) (auto simp: good_word_def plain_def)

lemma next_plain: "good_word w \<Longrightarrow> next_char (w @ s) = Some (hd w) \<and> plain (hd w)"
  using skip_plain [of w s] by (cases w) (auto simp: next_char_def good_word_def)

lemma next_sym: "is_symbol c \<Longrightarrow> next_char (c # s) = Some c"
  by (simp add: next_char_def sym_not_space)

lemma gettoken_sym:
  "c \<in> {t_bar, t_open, t_close, t_semi, t_amp, t_lt} \<Longrightarrow> gettoken (c # s) = (TokSym c, (Suc (length s), length s), skip_space s)"
proof -
  assume c: "c \<in> {t_bar, t_open, t_close, t_semi, t_amp, t_lt}"
  then have "\<not> is_space c" using sym_not_space [of c] symbol_iff [of c] by blast
  then show ?thesis using c by (simp add: gettoken_def Let_def)
qed

lemma gettoken_gt:
  assumes "s = [] \<or> hd s \<noteq> t_gt"
  shows "gettoken (t_gt # s) = (TokSym t_gt, (Suc (length s), length s), skip_space s)"
    "gettoken (t_gt # t_gt # u) = (TokAppend, (Suc (Suc (length u)), length u), skip_space u)"
  using assms sym_not_space [of t_gt] symbol_iff [of t_gt] by (simp_all add: gettoken_def Let_def t_defs)

lemma skip_word_plain: "\<forall>c\<in>set w. plain c \<Longrightarrow> skip_word (w @ 0x20 # s) = 0x20 # s"
  using space_20 by (induction w) (auto simp: plain_def)

lemma gettoken_plain:
  assumes "good_word w"
  shows "\<exists>sp. gettoken (w @ 0x20 # s) = (TokWord, sp, skip_space s) \<and> word_at (w @ 0x20 # s) sp w"
proof -
  obtain c v where w: "w = c # v" "plain c" using assms by (cases w) (auto simp: good_word_def)
  have n: "c \<notin> {t_bar, t_open, t_close, t_semi, t_amp, t_lt}" "c \<noteq> t_gt" using w(2) symbol_iff [of c] by (auto simp: plain_def)
  have sk: "skip_space (w @ 0x20 # s) = w @ 0x20 # s" by (rule skip_plain [OF assms])
  have sw: "skip_word (w @ 0x20 # s) = 0x20 # s" using assms by (intro skip_word_plain) (simp add: good_word_def)
  have "gettoken (w @ 0x20 # s) = (TokWord, (length (w @ 0x20 # s), length (0x20 # s)), skip_space (0x20 # s))"
    using n sk sw unfolding gettoken_def Let_def by (simp add: w(1))
  moreover have "word_at (w @ 0x20 # s) (length (w @ 0x20 # s), length (0x20 # s)) w"
    unfolding word_at_def using assms space_20
    by (intro exI [of _ "[]"] exI [of _ "0x20 # s"]) (simp add: good_word_def delimited_def plain_def)
  ultimately show ?thesis using space_20 by auto
qed


section \<open>Redirections\<close>

definition rel_redir :: "byte list \<Rightarrow> span \<times> nat \<times> nat \<Rightarrow> byte list \<times> nat \<times> nat \<Rightarrow> bool" where
  "rel_redir buf r q \<longleftrightarrow> word_at buf (fst r) (fst q) \<and> snd r = snd q"

definition good_redir :: "byte list \<times> nat \<times> nat \<Rightarrow> bool" where
  "good_redir q \<longleftrightarrow> good_word (fst q) \<and> redir_kind (fst (snd q)) (snd (snd q))"

definition show_redirs :: "(byte list \<times> nat \<times> nat) list \<Rightarrow> byte list" where
  "show_redirs qs = concat (map (\<lambda>(f, mode, fd). show_redir f mode fd) qs)"

lemma rel_redir_pair [simp]: "rel_redir buf (sp, x) (f, y) \<longleftrightarrow> word_at buf sp f \<and> x = y"
  by (simp add: rel_redir_def)

lemma rel_redir_suffix: "rel_redir s r q \<Longrightarrow> suffix s buf \<Longrightarrow> rel_redir buf r q"
  by (auto simp: rel_redir_def word_at_suffix)

lemma rel_redirs_suffix: "list_all2 (rel_redir s) rs qs \<Longrightarrow> suffix s buf \<Longrightarrow> list_all2 (rel_redir buf) rs qs"
  using rel_redir_suffix by (metis list_all2_mono)

lemma parseredirs_skip: "parseredirs rs (skip_space s) = parseredirs rs s"
  by (subst (1 2) parseredirs.simps) (simp add: peek_next)

lemma parseredirs_none:
  "next_char s = None \<or> (\<exists>c. next_char s = Some c \<and> c \<notin> {t_lt, t_gt}) \<Longrightarrow> parseredirs rs s = Parsed (rs, skip_space s)"
  by (subst parseredirs.simps) (auto simp: peek_next split: option.split)

lemma parseredirs_one:
  assumes "good_redir (f, mode, fd)"
  shows "\<exists>sp. parseredirs rs (show_redir f mode fd @ s) = parseredirs (rs @ [(sp, mode, fd)]) s \<and> word_at (show_redir f mode fd @ s) sp f"
proof -
  have f: "good_word f" "redir_kind mode fd" using assms by (simp_all add: good_redir_def)
  obtain sp where g: "gettoken (f @ 0x20 # s) = (TokWord, sp, skip_space s)" "word_at (f @ 0x20 # s) sp f"
    using gettoken_plain [OF f(1)] by blast
  have sk: "skip_space (f @ 0x20 # s) = f @ 0x20 # s" by (rule skip_plain [OF f(1)])
  have hd: "hd (f @ 0x20 # s) \<noteq> t_gt" using next_plain [OF f(1), of "0x20 # s"] f(1) symbol_iff [of t_gt]
    by (cases f) (auto simp: plain_def good_word_def)
  have sy: "is_symbol t_lt" "is_symbol t_gt" by (simp_all add: symbol_iff)
  have step: "parseredirs rs (show_redir f mode fd @ s) = parseredirs (rs @ [(sp, mode, fd)]) s"
    if t: "show_redir f mode fd @ s = c # x" "c \<in> {t_lt, t_gt}" "gettoken (c # x) = (tok, sp1, f @ 0x20 # s)"
      "add_redir tok sp rs = rs @ [(sp, mode, fd)]" for c x tok sp1
  proof -
    have "peek (c # x) [t_lt, t_gt] = (c # x, True)"
      using t(2) sy next_sym [of c x] skip_sym [of c x] unfolding peek_next by auto
    then show ?thesis unfolding t(1) using parseredirs_eq(1) [OF _ t(3) g(1)] t(4) by (simp add: parseredirs_skip)
  qed
  consider "mode = O_RDONLY" "fd = 0" | "mode = O_WRONLY + O_CREATE + O_TRUNC" "fd = 1" | "mode = O_WRONLY + O_CREATE" "fd = 1"
    using f(2) by (auto simp: redir_kind_def)
  then have "parseredirs rs (show_redir f mode fd @ s) = parseredirs (rs @ [(sp, mode, fd)]) s"
  proof cases
    case 1
    then show ?thesis
      using step [of t_lt "f @ 0x20 # s" "TokSym t_lt"] gettoken_sym [of t_lt "f @ 0x20 # s"] sk by (simp add: show_redir_def)
  next
    case 2
    then have "show_redir f mode fd @ s = t_gt # f @ 0x20 # s" by (simp add: show_redir_def O_TRUNC_def)
    then show ?thesis
      using step [of t_gt "f @ 0x20 # s" "TokSym t_gt"] gettoken_gt(1) [of "f @ 0x20 # s"] hd sk 2 by (simp add: t_defs)
  next
    case 3
    then have "show_redir f mode fd @ s = t_gt # t_gt # f @ 0x20 # s" by (simp add: show_redir_def)
    then show ?thesis
      using step [of t_gt "t_gt # f @ 0x20 # s" TokAppend] gettoken_gt(2) [of "[]" "f @ 0x20 # s"] sk 3 by simp
  qed
  moreover have "suffix (f @ 0x20 # s) (show_redir f mode fd @ s)" by (auto simp: show_redir_def suffix_def)
  ultimately show ?thesis using word_at_suffix [OF g(2)] by blast
qed

lemma parseredirs_shown:
  assumes "\<forall>q\<in>set qs. good_redir q" and "next_char r = None \<or> (\<exists>c. next_char r = Some c \<and> c \<notin> {t_lt, t_gt})"
  shows "\<exists>rs. parseredirs rs0 (show_redirs qs @ r) = Parsed (rs0 @ rs, skip_space r) \<and> list_all2 (rel_redir (show_redirs qs @ r)) rs qs"
  using assms(1)
proof (induction qs arbitrary: rs0)
  case Nil
  then show ?case using parseredirs_none [OF assms(2)] by (simp add: show_redirs_def)
next
  case (Cons q qs)
  obtain f mode fd where q: "q = (f, mode, fd)" by (metis prod_cases3)
  let ?s = "show_redirs qs @ r"
  obtain sp where o: "parseredirs rs0 (show_redir f mode fd @ ?s) = parseredirs (rs0 @ [(sp, mode, fd)]) ?s" "word_at (show_redir f mode fd @ ?s) sp f"
    using parseredirs_one [of f mode fd rs0 ?s] Cons.prems q by auto
  obtain rs where rs: "parseredirs (rs0 @ [(sp, mode, fd)]) ?s = Parsed ((rs0 @ [(sp, mode, fd)]) @ rs, skip_space r)" "list_all2 (rel_redir ?s) rs qs"
    using Cons.IH [of "rs0 @ [(sp, mode, fd)]"] Cons.prems by auto
  have eq: "show_redirs (q # qs) @ r = show_redir f mode fd @ ?s" by (simp add: show_redirs_def q)
  have "list_all2 (rel_redir (show_redir f mode fd @ ?s)) rs qs" by (rule rel_redirs_suffix [OF rs(2)]) (simp add: suffix_def)
  then show ?case unfolding eq using o rs(1)
    by (intro exI [of _ "(sp, mode, fd) # rs"]) (simp add: q)
qed


section \<open>Arguments\<close>

definition show_words :: "byte list list \<Rightarrow> byte list" where
  "show_words ws = concat (map (\<lambda>w. w @ [0x20]) ws)"

lemma parseargs_skip: "parseargs args rs (skip_space s) = parseargs args rs s"
  by (subst (1 2) parseargs.simps) (simp add: peek_next)

lemma follows_skip [simp]: "follows cs (skip_space r) = follows cs r"
  by (simp add: follows_def)

lemma follows_none: "follows cs r \<Longrightarrow> c \<notin> set cs \<Longrightarrow> next_char r \<noteq> Some c"
  by (auto simp: follows_def)

lemma parseargs_end:
  assumes "follows [t_bar, t_close, t_amp, t_semi] r"
  shows "parseargs args rs r = Parsed (args, rs, skip_space r)"
proof (cases "next_char r")
  case None
  then have "skip_space r = []" by (simp add: next_char_def split: list.splits)
  then show ?thesis using None by (subst parseargs.simps) (simp add: peek_next gettoken_def)
next
  case (Some c)
  then show ?thesis using assms by (subst parseargs.simps) (simp add: peek_next follows_def)
qed

lemma words_at_suffix: "list_all2 (word_at s) sps ws \<Longrightarrow> suffix s buf \<Longrightarrow> list_all2 (word_at buf) sps ws"
  using word_at_suffix by (metis list_all2_mono)

lemma parseargs_shown:
  assumes "\<forall>w\<in>set ws. good_word w" and "ws \<noteq> []" and "\<forall>q\<in>set qs. good_redir q"
    and "follows [t_bar, t_close, t_amp, t_semi] r" and "length as + length ws < MAXARGS"
  shows "\<exists>sps rs. parseargs as [] (show_words ws @ show_redirs qs @ r) = Parsed (as @ sps, rs, skip_space r) \<and>
    list_all2 (word_at (show_words ws @ show_redirs qs @ r)) sps ws \<and> list_all2 (rel_redir (show_words ws @ show_redirs qs @ r)) rs qs"
  using assms(1,2,5)
proof (induction ws arbitrary: as)
  case (Cons w ws)
  let ?t = "show_words ws @ show_redirs qs @ r"
  have eq: "show_words (w # ws) @ show_redirs qs @ r = w @ 0x20 # ?t" by (simp add: show_words_def)
  have gw: "good_word w" using Cons.prems(1) by simp
  obtain sp where g: "gettoken (w @ 0x20 # ?t) = (TokWord, sp, skip_space ?t)" "word_at (w @ 0x20 # ?t) sp w"
    using gettoken_plain [OF gw] by blast
  have pl: "plain (hd w)" "next_char (w @ 0x20 # ?t) = Some (hd w)" using next_plain [OF gw] by blast+
  have pk: "peek (w @ 0x20 # ?t) [t_bar, t_close, t_amp, t_semi] = (w @ 0x20 # ?t, False)"
    using pl symbol_iff [of "hd w"] skip_plain [OF gw] by (auto simp: peek_next plain_def)
  have step: "parseargs as [] (w @ 0x20 # ?t) = pbind (parseredirs [] ?t) (\<lambda>(rs, s). parseargs (as @ [sp]) rs s)"
    using Cons.prems(3) parseargs_eq [OF pk g(1), of as "[]"] by (simp add: parseredirs_skip)
  have suf: "suffix ?t (w @ 0x20 # ?t)" by (metis append_Cons append_Nil append.assoc suffix_def)
  show ?case
  proof (cases "ws = []")
    case True
    have "next_char r = None \<or> (\<exists>c. next_char r = Some c \<and> c \<notin> {t_lt, t_gt})"
      using follows_none [OF assms(4), of t_lt] follows_none [OF assms(4), of t_gt] by (cases "next_char r") (auto simp: t_defs)
    then obtain rs where rs: "parseredirs [] ?t = Parsed (rs, skip_space r)" "list_all2 (rel_redir ?t) rs qs"
      using parseredirs_shown [OF assms(3), of r "[]"] by (auto simp: True show_words_def)
    have "parseargs (as @ [sp]) rs (skip_space r) = Parsed (as @ [sp], rs, skip_space r)"
      using parseargs_end [OF assms(4)] by (simp add: parseargs_skip)
    then show ?thesis unfolding eq using step rs g(2) rel_redirs_suffix [OF rs(2) suf] True
      by (intro exI [of _ "[sp]"] exI [of _ rs]) simp
  next
    case False
    obtain v vs where v: "ws = v # vs" "good_word v" using False Cons.prems(1) by (cases ws) auto
    have t: "?t = v @ 0x20 # show_words vs @ show_redirs qs @ r" by (simp add: v(1) show_words_def)
    have "next_char ?t = Some (hd v)" unfolding t using next_plain [OF v(2)] by blast
    moreover have "hd v \<notin> {t_lt, t_gt}" using next_plain [OF v(2), of "[]"] symbol_iff [of "hd v"] by (auto simp: plain_def)
    ultimately have "parseredirs [] ?t = Parsed ([], skip_space ?t)" by (intro parseredirs_none) blast
    then have st: "parseargs as [] (w @ 0x20 # ?t) = parseargs (as @ [sp]) [] ?t" using step by (simp add: parseargs_skip)
    have "\<exists>sps rs. parseargs (as @ [sp]) [] ?t = Parsed ((as @ [sp]) @ sps, rs, skip_space r) \<and>
      list_all2 (word_at ?t) sps ws \<and> list_all2 (rel_redir ?t) rs qs"
      using Cons.prems False by (intro Cons.IH) auto
    then obtain sps rs where ih: "parseargs (as @ [sp]) [] ?t = Parsed ((as @ [sp]) @ sps, rs, skip_space r)"
      "list_all2 (word_at ?t) sps ws" "list_all2 (rel_redir ?t) rs qs" by blast
    show ?thesis unfolding eq using st ih(1) g(2) words_at_suffix [OF ih(2) suf] rel_redirs_suffix [OF ih(3) suf]
      by (intro exI [of _ "sp # sps"] exI [of _ rs]) simp
  qed
qed simp

section \<open>Commands\<close>

lemma parse_skip:
  "parseexec n (skip_space s) = parseexec n s" "parsepipe n (skip_space s) = parsepipe n s" "parseline n (skip_space s) = parseline n s"
proof -
  show e: "parseexec n (skip_space s) = parseexec n s" for n by (cases n) (simp_all add: peek_next)
  show p: "parsepipe n (skip_space s) = parsepipe n s" for n by (cases n) (simp_all add: e)
  show "parseline n (skip_space s) = parseline n s" by (cases n) (simp_all add: p)
qed

lemma parseback_skip: "parseback c (skip_space s) = parseback c s"
  by (subst (1 2) parseback.simps) (simp add: peek_next)

lemma rel_cmd_suffix: "rel_cmd (word_at s) c' c \<Longrightarrow> suffix s buf \<Longrightarrow> rel_cmd (word_at buf) c' c"
  using word_at_suffix by (metis cmd.rel_mono_strong)

lemma rel_redirected:
  "list_all2 (rel_redir buf) rs qs \<Longrightarrow> rel_cmd (word_at buf) c' c \<Longrightarrow> rel_cmd (word_at buf) (redirected c' rs) (redirected c qs)"
proof (induction rs qs arbitrary: c' c rule: list_all2_induct)
  case (Cons x xs y ys)
  then show ?case by (cases x; cases y) simp
qed simp

definition exec_ok :: "byte list cmd \<Rightarrow> bool" where
  "exec_ok c \<longleftrightarrow> (\<forall>qs r n. (\<forall>q\<in>set qs. good_redir q) \<longrightarrow> follows [t_bar, t_close, t_amp, t_semi] r \<longrightarrow>
     4 * length (as_exec (shown c) @ show_redirs qs @ r) + 2 \<le> n \<longrightarrow>
     (\<exists>c'. parseexec n (as_exec (shown c) @ show_redirs qs @ r) = Parsed (c', skip_space r) \<and>
       rel_cmd (word_at (as_exec (shown c) @ show_redirs qs @ r)) c' (redirected c qs)))"

definition pipe_ok :: "byte list cmd \<Rightarrow> bool" where
  "pipe_ok c \<longleftrightarrow> (\<forall>r n. follows [t_close, t_amp, t_semi] r \<longrightarrow> 4 * length (as_pipe (shown c) @ r) + 3 \<le> n \<longrightarrow>
     (\<exists>c'. parsepipe n (as_pipe (shown c) @ r) = Parsed (c', skip_space r) \<and> rel_cmd (word_at (as_pipe (shown c) @ r)) c' c))"

definition back_ok :: "byte list cmd \<Rightarrow> bool" where
  "back_ok c \<longleftrightarrow> (\<forall>r n. follows [t_close, t_amp, t_semi] r \<longrightarrow> 4 * length (as_back (shown c) @ r) + 3 \<le> n \<longrightarrow>
     (\<exists>c' c0 s0. parsepipe n (as_back (shown c) @ r) = Parsed (c0, s0) \<and> parseback c0 s0 = parseback c' r \<and>
       rel_cmd (word_at (as_back (shown c) @ r)) c' c))"

definition line_ok :: "byte list cmd \<Rightarrow> bool" where
  "line_ok c \<longleftrightarrow> (\<forall>r n. follows [t_close] r \<longrightarrow> 4 * length (as_line (shown c) @ r) + 4 \<le> n \<longrightarrow>
     (\<exists>c'. parseline n (as_line (shown c) @ r) = Parsed (c', skip_space r) \<and> rel_cmd (word_at (as_line (shown c) @ r)) c' c))"

lemma redirs_no_open:
  assumes "follows [t_bar, t_close, t_amp, t_semi] r"
  shows "next_char (show_redirs qs @ r) \<noteq> Some t_open"
proof (cases qs)
  case Nil
  then show ?thesis using follows_none [OF assms, of t_open] by (simp add: show_redirs_def t_defs)
next
  case (Cons q qs')
  obtain f mode fd where q: "q = (f, mode, fd)" by (metis prod_cases3)
  obtain c y where "show_redir f mode fd = c # y" "c \<in> {t_lt, t_gt}"
    by (cases "fd = 0"; cases "mode = O_WRONLY + O_CREATE") (auto simp: show_redir_def)
  then obtain x where "show_redirs qs @ r = c # x" "c \<in> {t_lt, t_gt}" by (auto simp: Cons q show_redirs_def)
  then show ?thesis using next_sym [of c x] symbol_iff [of c] by (auto simp: t_defs)
qed

lemma exec_ok_EXEC:
  assumes "wf_cmd good_word (EXEC ws)"
  shows "exec_ok (EXEC ws)"
  unfolding exec_ok_def
proof (intro allI impI)
  fix qs r n
  assume qs: "\<forall>q\<in>set qs. good_redir q" and r: "follows [t_bar, t_close, t_amp, t_semi] r"
    and "4 * length (as_exec (shown (EXEC ws)) @ show_redirs qs @ r) + 2 \<le> n"
  then obtain m where n: "n = Suc m" by (cases n) auto
  let ?s = "show_words ws @ show_redirs qs @ r"
  have sh: "as_exec (shown (EXEC ws)) @ show_redirs qs @ r = ?s" by (simp add: Let_def show_words_def)
  have ws: "\<forall>w\<in>set ws. good_word w" "length ws < MAXARGS" using assms by simp_all
  have nr: "next_char r = None \<or> (\<exists>c. next_char r = Some c \<and> c \<notin> {t_lt, t_gt})"
    using follows_none [OF r, of t_lt] follows_none [OF r, of t_gt] by (cases "next_char r") (auto simp: t_defs)
  have "\<exists>args rs0 rs s1. parseredirs [] ?s = Parsed (rs0, s1) \<and> parseargs [] rs0 s1 = Parsed (args, rs, skip_space r) \<and>
      list_all2 (word_at ?s) args ws \<and> list_all2 (rel_redir ?s) rs qs \<and> next_char ?s \<noteq> Some t_open"
  proof (cases ws)
    case Nil
    obtain rs where "parseredirs [] ?s = Parsed (rs, skip_space r)" "list_all2 (rel_redir ?s) rs qs"
      using parseredirs_shown [OF qs nr, of "[]"] by (auto simp: Nil show_words_def)
    then show ?thesis using parseargs_end [OF r] redirs_no_open [OF r] by (simp add: parseargs_skip Nil show_words_def)
  next
    case (Cons w ws')
    have w: "good_word w" "?s = w @ 0x20 # show_words ws' @ show_redirs qs @ r" using Cons ws(1) by (simp_all add: show_words_def)
    have h: "next_char ?s = Some (hd w)" "plain (hd w)" unfolding w(2) using next_plain [OF w(1)] by blast+
    have hs: "hd w \<notin> {t_lt, t_gt}" "hd w \<noteq> t_open" using h(2) symbol_iff [of "hd w"] by (auto simp: plain_def)
    have none: "parseredirs [] ?s = Parsed ([], skip_space ?s)" using h(1) hs(1) by (intro parseredirs_none) blast
    obtain sps rs where "parseargs [] [] ?s = Parsed (sps, rs, skip_space r)" "list_all2 (word_at ?s) sps ws" "list_all2 (rel_redir ?s) rs qs"
      using parseargs_shown [OF ws(1) _ qs r, of "[]"] ws(2) Cons by auto
    then show ?thesis using none h(1) hs(2)
      by (intro exI [of _ sps] exI [of _ "[]"] exI [of _ rs] exI [of _ "skip_space ?s"]) (simp add: parseargs_skip)
  qed
  then obtain args rs0 rs s1 where p: "parseredirs [] ?s = Parsed (rs0, s1)" "parseargs [] rs0 s1 = Parsed (args, rs, skip_space r)"
      "list_all2 (word_at ?s) args ws" "list_all2 (rel_redir ?s) rs qs" "next_char ?s \<noteq> Some t_open" by blast
  have "peek ?s [t_open] = (skip_space ?s, False)" using p(5) by (cases "next_char ?s") (auto simp: peek_next)
  then have "parseexec n ?s = Parsed (redirected (EXEC args) rs, skip_space r)" using p(1,2) by (simp add: n parseredirs_skip)
  moreover have "rel_cmd (word_at ?s) (redirected (EXEC args) rs) (redirected (EXEC ws) qs)"
    using p(3) by (intro rel_redirected [OF p(4)]) simp
  ultimately show "\<exists>c'. parseexec n (as_exec (shown (EXEC ws)) @ show_redirs qs @ r) = Parsed (c', skip_space r) \<and>
       rel_cmd (word_at (as_exec (shown (EXEC ws)) @ show_redirs qs @ r)) c' (redirected (EXEC ws) qs)"
    unfolding sh by blast
qed

lemma exec_ok_REDIR:
  assumes "exec_ok c" and "good_redir (f, mode, fd)"
  shows "exec_ok (REDIR c f mode fd)"
  unfolding exec_ok_def
proof (intro allI impI)
  fix qs r n
  let ?qs = "(f, mode, fd) # qs"
  assume qs: "\<forall>q\<in>set qs. good_redir q" and r: "follows [t_bar, t_close, t_amp, t_semi] r"
    and len: "4 * length (as_exec (shown (REDIR c f mode fd)) @ show_redirs qs @ r) + 2 \<le> n"
  have sh: "as_exec (shown (REDIR c f mode fd)) @ show_redirs qs @ r = as_exec (shown c) @ show_redirs ?qs @ r"
    by (simp add: Let_def show_redirs_def)
  have "\<forall>q\<in>set ?qs. good_redir q" using qs assms(2) by simp
  with assms(1) r len show "\<exists>c'. parseexec n (as_exec (shown (REDIR c f mode fd)) @ show_redirs qs @ r) = Parsed (c', skip_space r) \<and>
       rel_cmd (word_at (as_exec (shown (REDIR c f mode fd)) @ show_redirs qs @ r)) c' (redirected (REDIR c f mode fd) qs)"
    unfolding sh exec_ok_def redirected.simps(2) [symmetric] by blast
qed

lemma exec_ok_paren:
  assumes "line_ok c" and "as_exec (shown c) = paren (as_line (shown c))"
  shows "exec_ok c"
  unfolding exec_ok_def
proof (intro allI impI)
  fix qs r n
  let ?u = "show_redirs qs @ r" and ?l = "as_line (shown c)"
  assume qs: "\<forall>q\<in>set qs. good_redir q" and r: "follows [t_bar, t_close, t_amp, t_semi] r"
    and len: "4 * length (as_exec (shown c) @ show_redirs qs @ r) + 2 \<le> n"
  obtain m where n: "n = Suc (Suc m)" using len by (cases n; cases "n - 1") auto
  let ?v = "?l @ t_close # ?u"
  have sh: "as_exec (shown c) @ ?u = t_open # ?v" by (simp add: assms(2) paren_def)
  have sy: "is_symbol t_open" "is_symbol t_close" by (simp_all add: symbol_iff)
  have o: "peek (t_open # ?v) [t_open] = (t_open # ?v, True)" "peek (t_close # ?u) [t_close] = (t_close # ?u, True)"
    using next_sym [OF sy(1)] next_sym [OF sy(2)] skip_sym [OF sy(1)] skip_sym [OF sy(2)] unfolding peek_next by simp_all
  have "follows [t_close] (t_close # ?u)" using next_sym [OF sy(2)] by (simp add: follows_def)
  then obtain c1 where c1: "parseline m ?v = Parsed (c1, t_close # ?u)" "rel_cmd (word_at ?v) c1 c"
    using assms(1) [unfolded line_ok_def, rule_format, of "t_close # ?u" m] len skip_sym [OF sy(2), of ?u] unfolding sh n by auto
  have "next_char r = None \<or> (\<exists>c. next_char r = Some c \<and> c \<notin> {t_lt, t_gt})"
    using follows_none [OF r, of t_lt] follows_none [OF r, of t_gt] by (cases "next_char r") (auto simp: t_defs)
  then obtain rs where rs: "parseredirs [] ?u = Parsed (rs, skip_space r)" "list_all2 (rel_redir ?u) rs qs"
    using parseredirs_shown [OF qs, of r "[]"] by auto
  have b: "parseblock (Suc m) (t_open # ?v) = Parsed (redirected c1 rs, skip_space r)"
    using o c1(1) rs(1) gettoken_sym [of t_open ?v] gettoken_sym [of t_close ?u] unfolding parseblock.simps
    by (simp add: parse_skip parseredirs_skip del: parseline.simps)
  have "rel_cmd (word_at (t_open # ?v)) (redirected c1 rs) (redirected c qs)"
    by (rule rel_redirected [OF rel_redirs_suffix [OF rs(2)] rel_cmd_suffix [OF c1(2)]]) (simp_all add: suffix_def)
  then show "\<exists>c'. parseexec n (as_exec (shown c) @ show_redirs qs @ r) = Parsed (c', skip_space r) \<and>
       rel_cmd (word_at (as_exec (shown c) @ show_redirs qs @ r)) c' (redirected c qs)"
    unfolding sh n parseexec.simps using o(1) b by (simp del: parseblock.simps)
qed

lemma pipe_from_exec:
  assumes "exec_ok c" and "as_pipe (shown c) = as_exec (shown c)"
  shows "pipe_ok c"
  unfolding pipe_ok_def
proof (intro allI impI)
  fix r n
  assume r: "follows [t_close, t_amp, t_semi] r" and len: "4 * length (as_pipe (shown c) @ r) + 3 \<le> n"
  then obtain m where n: "n = Suc m" by (cases n) auto
  have "follows [t_bar, t_close, t_amp, t_semi] r" using r by (auto simp: follows_def split: option.splits)
  then obtain c' where c': "parseexec m (as_exec (shown c) @ r) = Parsed (c', skip_space r)" "rel_cmd (word_at (as_exec (shown c) @ r)) c' c"
    using assms(1) [unfolded exec_ok_def, rule_format, of "[]" r m] len by (auto simp: n assms(2) show_redirs_def)
  have "peek (skip_space r) [t_bar] = (skip_space r, False)"
    using follows_none [OF r, of t_bar] by (cases "next_char r") (auto simp: peek_next t_defs)
  then show "\<exists>c'. parsepipe n (as_pipe (shown c) @ r) = Parsed (c', skip_space r) \<and> rel_cmd (word_at (as_pipe (shown c) @ r)) c' c"
    using c' by (simp add: n assms(2))
qed

lemma pipe_ok_PIPE:
  assumes "exec_ok c" and "pipe_ok d"
  shows "pipe_ok (PIPE c d)"
  unfolding pipe_ok_def
proof (intro allI impI)
  fix r n
  let ?u = "as_pipe (shown d) @ r"
  let ?s = "as_exec (shown c) @ t_bar # ?u"
  assume r: "follows [t_close, t_amp, t_semi] r" and len: "4 * length (as_pipe (shown (PIPE c d)) @ r) + 3 \<le> n"
  then obtain m where n: "n = Suc m" by (cases n) auto
  have sh: "as_pipe (shown (PIPE c d)) @ r = ?s" by (simp add: Let_def)
  have sy: "is_symbol t_bar" by (simp add: symbol_iff)
  have "follows [t_bar, t_close, t_amp, t_semi] (t_bar # ?u)" using next_sym [OF sy] by (simp add: follows_def)
  then obtain c' where c': "parseexec m ?s = Parsed (c', t_bar # ?u)" "rel_cmd (word_at ?s) c' c"
    using assms(1) [unfolded exec_ok_def, rule_format, of "[]" "t_bar # ?u" m] len skip_sym [OF sy, of ?u] unfolding sh n
    by (auto simp: show_redirs_def)
  obtain d' where d': "parsepipe m ?u = Parsed (d', skip_space r)" "rel_cmd (word_at ?u) d' d"
    using assms(2) [unfolded pipe_ok_def, rule_format, OF r, of m] len unfolding sh n by auto
  have pk: "peek (t_bar # ?u) [t_bar] = (t_bar # ?u, True)" using next_sym [OF sy] skip_sym [OF sy] unfolding peek_next by simp
  have "parsepipe n ?s = Parsed (PIPE c' d', skip_space r)"
    using c'(1) d'(1) pk gettoken_sym [of t_bar ?u] unfolding n parsepipe.simps by (simp add: parse_skip del: parsepipe.simps parseexec.simps)
  moreover have "rel_cmd (word_at ?s) d' d" by (rule rel_cmd_suffix [OF d'(2)]) (metis append_Cons append_Nil append.assoc suffix_def)
  ultimately show "\<exists>c'. parsepipe n (as_pipe (shown (PIPE c d)) @ r) = Parsed (c', skip_space r) \<and>
      rel_cmd (word_at (as_pipe (shown (PIPE c d)) @ r)) c' (PIPE c d)"
    unfolding sh using c'(2) by (intro exI [of _ "PIPE c' d'"]) simp
qed

lemma back_from_pipe: "pipe_ok c \<Longrightarrow> as_back (shown c) = as_pipe (shown c) \<Longrightarrow> back_ok c"
  unfolding pipe_ok_def back_ok_def using parseback_skip by metis

lemma parseback_amp: "parseback c (t_amp # r) = parseback (BACK c) r"
proof -
  have "is_symbol t_amp" by (simp add: symbol_iff)
  then have "peek (t_amp # r) [t_amp] = (t_amp # r, True)" using next_sym skip_sym unfolding peek_next by simp
  then show ?thesis using gettoken_sym [of t_amp r] by (subst parseback.simps) (simp add: parseback_skip)
qed

lemma parseback_none: "next_char r \<noteq> Some t_amp \<Longrightarrow> parseback c r = (c, skip_space r)"
  by (subst parseback.simps) (cases "next_char r", auto simp: peek_next)

lemma back_ok_BACK:
  assumes "back_ok c"
  shows "back_ok (BACK c)"
  unfolding back_ok_def
proof (intro allI impI)
  fix r n
  assume "follows [t_close, t_amp, t_semi] r" and len: "4 * length (as_back (shown (BACK c)) @ r) + 3 \<le> n"
  have sh: "as_back (shown (BACK c)) @ r = as_back (shown c) @ t_amp # r" by (simp add: Let_def)
  have "follows [t_close, t_amp, t_semi] (t_amp # r)" using next_sym [of t_amp r] symbol_iff [of t_amp] by (simp add: follows_def)
  then obtain c' c0 s0 where "parsepipe n (as_back (shown c) @ t_amp # r) = Parsed (c0, s0)" "parseback c0 s0 = parseback c' (t_amp # r)"
      "rel_cmd (word_at (as_back (shown c) @ t_amp # r)) c' c"
    using assms [unfolded back_ok_def, rule_format, of "t_amp # r" n] len unfolding sh by blast
  then show "\<exists>c' c0 s0. parsepipe n (as_back (shown (BACK c)) @ r) = Parsed (c0, s0) \<and> parseback c0 s0 = parseback c' r \<and>
       rel_cmd (word_at (as_back (shown (BACK c)) @ r)) c' (BACK c)"
    unfolding sh parseback_amp by (intro exI [of _ "BACK c'"] exI [of _ c0] exI [of _ s0]) simp
qed

lemma line_from_back:
  assumes "back_ok c" and "as_line (shown c) = as_back (shown c)"
  shows "line_ok c"
  unfolding line_ok_def
proof (intro allI impI)
  fix r n
  assume r: "follows [t_close] r" and len: "4 * length (as_line (shown c) @ r) + 4 \<le> n"
  then obtain m where n: "n = Suc m" by (cases n) auto
  have "follows [t_close, t_amp, t_semi] r" using r by (auto simp: follows_def split: option.splits)
  then obtain c' c0 s0 where p: "parsepipe m (as_back (shown c) @ r) = Parsed (c0, s0)" "parseback c0 s0 = parseback c' r"
      "rel_cmd (word_at (as_back (shown c) @ r)) c' c"
    using assms(1) [unfolded back_ok_def, rule_format, of r m] len by (auto simp: n assms(2))
  have "parseback c' r = (c', skip_space r)" using follows_none [OF r, of t_amp] by (intro parseback_none) (simp add: t_defs)
  moreover have "peek (skip_space r) [t_semi] = (skip_space r, False)"
    using follows_none [OF r, of t_semi] by (cases "next_char r") (auto simp: peek_next t_defs)
  ultimately show "\<exists>c'. parseline n (as_line (shown c) @ r) = Parsed (c', skip_space r) \<and> rel_cmd (word_at (as_line (shown c) @ r)) c' c"
    using p by (simp add: n assms(2))
qed

lemma line_ok_LIST:
  assumes "back_ok c" and "line_ok d"
  shows "line_ok (LIST c d)"
  unfolding line_ok_def
proof (intro allI impI)
  fix r n
  let ?u = "as_line (shown d) @ r"
  let ?s = "as_back (shown c) @ t_semi # ?u"
  assume r: "follows [t_close] r" and len: "4 * length (as_line (shown (LIST c d)) @ r) + 4 \<le> n"
  then obtain m where n: "n = Suc m" by (cases n) auto
  have sh: "as_line (shown (LIST c d)) @ r = ?s" by (simp add: Let_def)
  have sy: "is_symbol t_semi" by (simp add: symbol_iff)
  have nc: "next_char (t_semi # ?u) = Some t_semi" by (rule next_sym [OF sy])
  have "follows [t_close, t_amp, t_semi] (t_semi # ?u)" using nc by (simp add: follows_def)
  then obtain c' c0 s0 where p: "parsepipe m ?s = Parsed (c0, s0)" "parseback c0 s0 = parseback c' (t_semi # ?u)" "rel_cmd (word_at ?s) c' c"
    using assms(1) [unfolded back_ok_def, rule_format, of "t_semi # ?u" m] len unfolding sh n by auto
  obtain d' where d': "parseline m ?u = Parsed (d', skip_space r)" "rel_cmd (word_at ?u) d' d"
    using assms(2) [unfolded line_ok_def, rule_format, OF r, of m] len unfolding sh n by auto
  have b: "parseback c0 s0 = (c', t_semi # ?u)"
    using p(2) parseback_none [of "t_semi # ?u" c'] nc skip_sym [OF sy, of ?u] by (simp add: t_defs)
  have pk: "peek (t_semi # ?u) [t_semi] = (t_semi # ?u, True)" using nc skip_sym [OF sy] unfolding peek_next by simp
  have "parseline n ?s = Parsed (LIST c' d', skip_space r)"
    using p(1) b d'(1) pk gettoken_sym [of t_semi ?u] unfolding n parseline.simps by (simp add: parse_skip del: parseline.simps parsepipe.simps)
  moreover have "rel_cmd (word_at ?s) d' d" by (rule rel_cmd_suffix [OF d'(2)]) (metis append_Cons append_Nil append.assoc suffix_def)
  ultimately show "\<exists>c'. parseline n (as_line (shown (LIST c d)) @ r) = Parsed (c', skip_space r) \<and>
      rel_cmd (word_at (as_line (shown (LIST c d)) @ r)) c' (LIST c d)"
    unfolding sh using p(3) by (intro exI [of _ "LIST c' d'"]) simp
qed

lemma shown_ok: "wf_cmd good_word c \<Longrightarrow> exec_ok c \<and> pipe_ok c \<and> back_ok c \<and> line_ok c"
proof (induction c)
  case (EXEC ws)
  then have e: "exec_ok (EXEC ws)" by (rule exec_ok_EXEC)
  have p: "pipe_ok (EXEC ws)" by (rule pipe_from_exec [OF e]) (simp add: Let_def)
  have b: "back_ok (EXEC ws)" by (rule back_from_pipe [OF p]) (simp add: Let_def)
  have "line_ok (EXEC ws)" by (rule line_from_back [OF b]) (simp add: Let_def)
  with e p b show ?case by blast
next
  case (REDIR c f mode fd)
  then have e: "exec_ok (REDIR c f mode fd)" by (intro exec_ok_REDIR) (auto simp: good_redir_def)
  have p: "pipe_ok (REDIR c f mode fd)" by (rule pipe_from_exec [OF e]) (simp add: Let_def)
  have b: "back_ok (REDIR c f mode fd)" by (rule back_from_pipe [OF p]) (simp add: Let_def)
  have "line_ok (REDIR c f mode fd)" by (rule line_from_back [OF b]) (simp add: Let_def)
  with e p b show ?case by blast
next
  case (PIPE c d)
  then have p: "pipe_ok (PIPE c d)" by (intro pipe_ok_PIPE) auto
  have b: "back_ok (PIPE c d)" by (rule back_from_pipe [OF p]) (simp add: Let_def)
  have l: "line_ok (PIPE c d)" by (rule line_from_back [OF b]) (simp add: Let_def)
  have "exec_ok (PIPE c d)" by (rule exec_ok_paren [OF l]) (simp add: Let_def)
  with p b l show ?case by blast
next
  case (LIST c d)
  then have l: "line_ok (LIST c d)" by (intro line_ok_LIST) auto
  have e: "exec_ok (LIST c d)" by (rule exec_ok_paren [OF l]) (simp add: Let_def)
  have p: "pipe_ok (LIST c d)" by (rule pipe_from_exec [OF e]) (simp add: Let_def)
  have "back_ok (LIST c d)" by (rule back_from_pipe [OF p]) (simp add: Let_def)
  with e p l show ?case by blast
next
  case (BACK c)
  then have b: "back_ok (BACK c)" by (intro back_ok_BACK) auto
  have l: "line_ok (BACK c)" by (rule line_from_back [OF b]) (simp add: Let_def)
  have e: "exec_ok (BACK c)" by (rule exec_ok_paren [OF l]) (simp add: Let_def)
  have "pipe_ok (BACK c)" by (rule pipe_from_exec [OF e]) (simp add: Let_def)
  with e b l show ?case by blast
qed

text \<open>C17: the parser of the shell accepts its whole grammar. Every well-formed command over nonempty words without blanks and
  symbols, however pipes, lists, background commands, blocks and redirections are nested, has a line that parsecmd
  accepts, and the tree it returns is that command, with each word replaced by the span of the word in the line. So
  precedence and associativity are the ones the printed line was built for, a redirection binds to the command or block
  before it, and no well-formed command runs into a syntax error or out of the parser's recursion.
\<close>

theorem parsecmd_reads_back:
  assumes "wf_cmd good_word c"
  shows "\<exists>c'. parsecmd (as_line (shown c)) = Parsed c' \<and> rel_cmd (word_at (as_line (shown c))) c' c"
proof -
  let ?l = "as_line (shown c)"
  have "line_ok c" using shown_ok [OF assms] by blast
  moreover have "follows [t_close] []" by (simp add: follows_def next_char_def)
  ultimately obtain c' where "parseline (parse_fuel ?l) ?l = Parsed (c', [])" "rel_cmd (word_at ?l) c' c"
    unfolding line_ok_def parse_fuel_def by fastforce
  then show ?thesis by (simp add: parsecmd_def peek_def)
qed

theorem parsecmd_reads_back_witness:
  "wf_cmd good_word (BACK (REDIR (PIPE (EXEC [[0x61]]) (EXEC [[0x62]])) [0x63] O_RDONLY 0)) \<and>
   (\<exists>c'. parsecmd [t_open, 0x61, 0x20, t_bar, 0x62, 0x20, t_close, t_lt, 0x63, 0x20, t_amp] = Parsed c' \<and>
      rel_cmd (word_at [t_open, 0x61, 0x20, t_bar, 0x62, 0x20, t_close, t_lt, 0x63, 0x20, t_amp]) c'
        (BACK (REDIR (PIPE (EXEC [[0x61]]) (EXEC [[0x62]])) [0x63] O_RDONLY 0)))"
proof -
  let ?c = "BACK (REDIR (PIPE (EXEC [[0x61]]) (EXEC [[0x62]])) [0x63] O_RDONLY 0)"
  have w: "wf_cmd good_word ?c"
    by (simp add: good_word_def plain_def redir_kind_def MAXARGS_def is_space_def is_symbol_def whitespace_def symbols_def strchr_takeWhile)
  have l: "as_line (shown ?c) = [t_open, 0x61, 0x20, t_bar, 0x62, 0x20, t_close, t_lt, 0x63, 0x20, t_amp]"
    by (simp add: Let_def show_redir_def paren_def)
  show ?thesis using w parsecmd_reads_back [OF w, unfolded l] by blast
qed

end
