(* ===== verification/Umalloc.thy ===== *)
theory Umalloc
  imports Xv6_Prelude
begin

text \<open>
  The user-level allocator of umalloc.c: a circular list of free blocks in the order of their addresses, from which
  malloc takes the first that is large enough and into which free puts a block back and merges it with its
  neighbours. Every block starts with a header of 16 bytes, the unit in which sizes are counted. The store maps the
  address of a header to its two fields. A process has less than 2^38 bytes of address space (MAXVA), so that
  adding sizes to addresses does not wrap at 64 bits; addresses are natural numbers and sizes are 32-bit words.
\<close>

record umem =
  hptr :: "nat \<Rightarrow> nat"
  hsize :: "nat \<Rightarrow> u32"
  base :: nat
  freep :: nat
  brk :: nat

text \<open>
  The sbrk system call: whether the kernel can grow or shrink the process, from its size and the increment, is the
  parameter \<open>grow\<close>; the call returns the old size.
\<close>

definition sbrk :: "(nat \<Rightarrow> int \<Rightarrow> bool) \<Rightarrow> int \<Rightarrow> umem \<Rightarrow> nat option \<times> umem" where
  "sbrk grow n s =
     (if grow (brk s) n then (Some (brk s), s\<lparr>brk := nat (int (brk s) + n)\<rparr>) else (None, s))"

text \<open>The loop of free. A loop that does not end has the value \<^const>\<open>None\<close>.\<close>

partial_function (option) free_loop :: "(nat \<Rightarrow> nat) \<Rightarrow> nat \<Rightarrow> nat \<Rightarrow> nat option" where
  "free_loop next bp p =
     (if p < bp \<and> bp < next p then Some p
      else if next p \<le> p \<and> (p < bp \<or> bp < next p) then Some p
      else free_loop next bp (next p))"

definition free :: "nat \<Rightarrow> umem \<Rightarrow> umem option" where
  "free ap s =
     (let bp = ap - 16
      in case free_loop (hptr s) bp (freep s) of
           None \<Rightarrow> None
         | Some p \<Rightarrow>
             let s = (if bp + 16 * unat (hsize s bp) = hptr s p
                      then s\<lparr>hsize := (hsize s)(bp := hsize s bp + hsize s (hptr s p)),
                             hptr := (hptr s)(bp := hptr s (hptr s p))\<rparr>
                      else s\<lparr>hptr := (hptr s)(bp := hptr s p)\<rparr>);
                 s = (if p + 16 * unat (hsize s p) = bp
                      then s\<lparr>hsize := (hsize s)(p := hsize s p + hsize s bp),
                             hptr := (hptr s)(p := hptr s bp)\<rparr>
                      else s\<lparr>hptr := (hptr s)(p := bp)\<rparr>)
             in Some (s\<lparr>freep := p\<rparr>))"

text \<open>The byte count is computed in 64 bits and passed to sbrk as an int. The result 0 is the null pointer.\<close>

definition morecore :: "(nat \<Rightarrow> int \<Rightarrow> bool) \<Rightarrow> u32 \<Rightarrow> umem \<Rightarrow> (nat \<times> umem) option" where
  "morecore grow nu s =
     (let nu = (if nu < 4096 then 4096 else nu)
      in case sbrk grow (sint (ucast (ucast nu * 16 :: u64) :: u32)) s of
           (None, s) \<Rightarrow> Some (0, s)
         | (Some hp, s) \<Rightarrow>
             map_option (\<lambda>s. (freep s, s)) (free (hp + 16) (s\<lparr>hsize := (hsize s)(hp := nu)\<rparr>)))"

partial_function (option) malloc_loop ::
    "(nat \<Rightarrow> int \<Rightarrow> bool) \<Rightarrow> u32 \<Rightarrow> nat \<Rightarrow> nat \<Rightarrow> umem \<Rightarrow> (nat \<times> umem) option" where
  "malloc_loop grow nunits prevp p s =
     (if nunits \<le> hsize s p then
        (if hsize s p = nunits then Some (p + 16, s\<lparr>hptr := (hptr s)(prevp := hptr s p), freep := prevp\<rparr>)
         else
           (let rest = hsize s p - nunits; q = p + 16 * unat rest
            in Some (q + 16, s\<lparr>hsize := (hsize s)(p := rest, q := nunits), freep := prevp\<rparr>)))
      else if p = freep s then
        Option.bind (morecore grow nunits s)
          (\<lambda>r. if fst r = 0 then Some r
               else malloc_loop grow nunits (fst r) (hptr (snd r) (fst r)) (snd r))
      else malloc_loop grow nunits p (hptr s p) s)"

definition units :: "u32 \<Rightarrow> u32" where
  "units nbytes = ucast ((ucast nbytes + 16 - 1 :: u64) div 16 + 1)"

definition malloc :: "(nat \<Rightarrow> int \<Rightarrow> bool) \<Rightarrow> u32 \<Rightarrow> umem \<Rightarrow> (nat \<times> umem) option" where
  "malloc grow nbytes s =
     (let nunits = units nbytes;
          s = (if freep s = 0
               then s\<lparr>hptr := (hptr s)(base s := base s), hsize := (hsize s)(base s := 0), freep := base s\<rparr> else s)
      in malloc_loop grow nunits (freep s) (hptr s (freep s)) s)"

section \<open>Circular lists\<close>

fun path :: "(nat \<Rightarrow> nat) \<Rightarrow> nat \<Rightarrow> nat list \<Rightarrow> nat \<Rightarrow> bool" where
  "path h a [] b \<longleftrightarrow> a = b"
| "path h a (x # xs) b \<longleftrightarrow> a = x \<and> path h (h x) xs b"

lemma path_append: "path h a (xs @ ys) b \<longleftrightarrow> (\<exists>m. path h a xs m \<and> path h m ys b)"
  by (induction xs arbitrary: a) auto

lemma path_upd: "x \<notin> set xs \<Longrightarrow> path (h(x := v)) a xs b = path h a xs b"
  by (induction xs arbitrary: a) auto

lemma path_start: "path h a (xs @ c # ys) b \<Longrightarrow> path h a xs c \<and> path h c (c # ys) b"
  by (auto simp: path_append)

lemma ring_rotate:
  assumes "path h b L b" and "L = A @ f # B"
  shows "path h f (f # B @ A) f"
proof -
  have "path h b A f" "path h f (f # B) b" using assms path_start [of h b A f B b] by auto
  then show ?thesis unfolding append_Cons [symmetric] by (metis path_append)
qed

lemma path_first:
  assumes "path h a xs b" and "\<exists>x\<in>set xs. P x"
  shows "\<exists>ys c zs. xs = ys @ c # zs \<and> P c \<and> (\<forall>y\<in>set ys. \<not> P y) \<and> path h a ys c"
  using assms split_list_first_prop [of xs P] path_start by metis

lemma path_next:
  assumes "path h b L b" and "x \<in> set L" and "h x \<noteq> b"
  shows "\<exists>A B. L = A @ x # h x # B"
proof -
  obtain A B where L: "L = A @ x # B" using assms(2) by (meson split_list)
  then have "path h (h x) B b" using assms(1) path_start [of h b A x B b] by simp
  then show ?thesis using L assms(3) by (cases B) auto
qed

section \<open>Blocks that tile a range\<close>

definition tiles :: "(nat \<Rightarrow> nat) \<Rightarrow> nat set \<Rightarrow> nat \<Rightarrow> nat \<Rightarrow> bool" where
  "tiles e B lo hi \<longleftrightarrow>
     (\<forall>a\<in>B. a < e a) \<and> (\<forall>a\<in>B. \<forall>b\<in>B. a < b \<longrightarrow> e a \<le> b) \<and> (\<Union>a\<in>B. {a..<e a}) = {lo..<hi}"

lemma tilesI:
  "(\<And>a. a \<in> B \<Longrightarrow> a < e a) \<Longrightarrow> (\<And>a b. a \<in> B \<Longrightarrow> b \<in> B \<Longrightarrow> a < b \<Longrightarrow> e a \<le> b) \<Longrightarrow>
   (\<Union>a\<in>B. {a..<e a}) = {lo..<hi} \<Longrightarrow> tiles e B lo hi"
  by (simp add: tiles_def)

lemma tilesD:
  assumes "tiles e B lo hi"
  shows "a \<in> B \<Longrightarrow> a < e a" "a \<in> B \<Longrightarrow> b \<in> B \<Longrightarrow> a < b \<Longrightarrow> e a \<le> b" "(\<Union>a\<in>B. {a..<e a}) = {lo..<hi}"
  using assms by (simp_all add: tiles_def)

lemma tiles_in: "tiles e B lo hi \<Longrightarrow> a \<in> B \<Longrightarrow> lo \<le> a \<and> a < e a \<and> e a \<le> hi"
proof -
  assume t: "tiles e B lo hi" and a: "a \<in> B"
  then have l: "a < e a" and u: "(\<Union>a\<in>B. {a..<e a}) = {lo..<hi}" using tilesD by blast+
  have s: "{a..<e a} \<subseteq> {lo..<hi}" using a unfolding u [symmetric] by blast
  from l have "a \<in> {a..<e a}" "e a - 1 \<in> {a..<e a}" by auto
  with s have "a \<in> {lo..<hi}" "e a - 1 \<in> {lo..<hi}" by blast+
  then show ?thesis using l by auto
qed

lemma tiles_apart: "tiles e B lo hi \<Longrightarrow> a \<in> B \<Longrightarrow> b \<in> B \<Longrightarrow> a \<noteq> b \<Longrightarrow> e a \<le> b \<or> e b \<le> a"
  using tilesD(2) by (metis linorder_less_linear)

lemma tiles_cong: "tiles e B lo hi \<Longrightarrow> (\<And>a. a \<in> B \<Longrightarrow> e' a = e a) \<Longrightarrow> tiles e' B lo hi"
  unfolding tiles_def by simp

lemma tiles_merge:
  assumes "tiles e B lo hi" and "x \<in> B" and "y \<in> B" and "e x = y"
  shows "tiles (e(x := e y)) (B - {y}) lo hi"
proof -
  note o = tilesD(2) [OF assms(1)]
  have l: "x < y" "y < e y" using tilesD(1) [OF assms(1)] assms(2-4) by auto
  have "(\<Union>a\<in>B - {y}. {a..<(e(x := e y)) a}) = (\<Union>a\<in>B. {a..<e a})"
  proof -
    have b: "B - {y} = insert x (B - {x, y})" "B = insert x (insert y (B - {x, y}))" using assms l by auto
    have xy: "{x..<e y} = {x..<e x} \<union> {y..<e y}" using l assms(4) by auto
    have r: "(\<Union>a\<in>B - {x, y}. {a..<(e(x := e y)) a}) = (\<Union>a\<in>B - {x, y}. {a..<e a})" by simp
    have "(\<Union>a\<in>insert x (B - {x, y}). {a..<(e(x := e y)) a}) = (\<Union>a\<in>insert x (insert y (B - {x, y})). {a..<e a})"
      unfolding UN_insert r by (simp add: xy Un_assoc)
    then show ?thesis unfolding b(1) [symmetric] b(2) [symmetric] .
  qed
  moreover have "(e(x := e y)) a \<le> b" if "a \<in> B - {y}" "b \<in> B - {y}" "a < b" for a b
  proof (cases "a = x")
    case True
    then have "e x \<le> b" using o [of x b] that assms by simp
    then have "y < b" using that assms(4) by auto
    then show ?thesis using True o [of y b] that assms by simp
  next
    case False
    then show ?thesis using o [of a b] that by simp
  qed
  moreover have "a < (e(x := e y)) a" if "a \<in> B - {y}" for a using tilesD(1) [OF assms(1)] that l by simp
  ultimately show ?thesis using tilesD(3) [OF assms(1)] by (intro tilesI) simp_all
qed

lemma tiles_split:
  assumes "tiles e B lo hi" and "x \<in> B" and "x < m" and "m < e x"
  shows "m \<notin> B" "tiles (e(x := m, m := e x)) (insert m B) lo hi"
proof -
  note o = tilesD(2) [OF assms(1)]
  show m: "m \<notin> B" using o [of x m] assms by auto
  let ?e = "e(x := m, m := e x)"
  have "(\<Union>a\<in>insert m B. {a..<?e a}) = (\<Union>a\<in>B. {a..<e a})"
  proof -
    have b: "insert m B = insert x (insert m (B - {x}))" "B = insert x (B - {x})" using assms by auto
    have xm: "{x..<e x} = {x..<m} \<union> {m..<e x}" using assms by auto
    have r: "(\<Union>a\<in>B - {x}. {a..<?e a}) = (\<Union>a\<in>B - {x}. {a..<e a})" using m by (intro SUP_cong) auto
    have "(\<Union>a\<in>insert x (insert m (B - {x})). {a..<?e a}) = (\<Union>a\<in>insert x (B - {x}). {a..<e a})"
      unfolding UN_insert r using assms(3) by (simp add: xm Un_assoc)
    then show ?thesis unfolding b(1) [symmetric] b(2) [symmetric] .
  qed
  moreover have "?e a \<le> b" if "a \<in> insert m B" "b \<in> insert m B" "a < b" for a b
  proof -
    note ab = that
    consider "a = m" "b \<in> B" | "b = m" "a \<in> B" "a \<noteq> x" | "a = x" "b = m" | "a = x" "b \<in> B" "b \<noteq> m" | "a \<in> B" "b \<in> B" "a \<noteq> x" "a \<noteq> m" "b \<noteq> m"
      using ab m by auto
    then show ?thesis
    proof cases
      case 1
      then have "x < b" using that assms(3) by simp
      then show ?thesis using 1 o [of x b] assms by simp
    next
      case 2
      have "\<not> x < a" using o [of x a] 2 that assms by auto
      then have "a < x" using 2 by simp
      then show ?thesis using 2 o [of a x] m assms by auto
    next
      case 4
      then show ?thesis using o [of x b] that assms by auto
    qed (use o [of a b] that assms in auto)
  qed
  moreover have "a < ?e a" if "a \<in> insert m B" for a using tilesD(1) [OF assms(1)] that assms(3,4) by auto
  ultimately show "tiles ?e (insert m B) lo hi" using tilesD(3) [OF assms(1)] by (intro tilesI) simp_all
qed

lemma tiles_extend:
  assumes "tiles e B lo hi" and "lo \<le> hi" and "hi < hi'"
  shows "hi \<notin> B" "tiles (e(hi := hi')) (insert hi B) lo hi'"
proof -
  show n: "hi \<notin> B" using tiles_in [OF assms(1), of hi] by auto
  have "(\<Union>a\<in>B. {a..<(e(hi := hi')) a}) = (\<Union>a\<in>B. {a..<e a})" using n by (intro SUP_cong) auto
  then have "(\<Union>a\<in>insert hi B. {a..<(e(hi := hi')) a}) = {hi..<hi'} \<union> (\<Union>a\<in>B. {a..<e a})" by simp
  also have "\<dots> = {lo..<hi'}" unfolding tilesD(3) [OF assms(1)] using assms(2,3) by auto
  finally have u: "(\<Union>a\<in>insert hi B. {a..<(e(hi := hi')) a}) = {lo..<hi'}" .
  have "(e(hi := hi')) a \<le> b" if "a \<in> insert hi B" "b \<in> insert hi B" "a < b" for a b
    using that n tiles_in [OF assms(1), of a] tiles_in [OF assms(1), of b] tilesD(2) [OF assms(1), of a b] assms(3) by auto
  then show "tiles (e(hi := hi')) (insert hi B) lo hi'"
    using u tilesD(1) [OF assms(1)] assms(3) by (intro tilesI) auto
qed

section \<open>The state of the allocator\<close>

text \<open>
  \<open>L\<close> lists the free blocks in the order of their addresses, from the static header \<^const>\<open>base\<close>, which has no memory;
  \<open>live\<close> are the blocks handed out. Free and live blocks tile the memory between \<open>lo\<close> and the break.
\<close>

definition ends :: "umem \<Rightarrow> nat \<Rightarrow> nat" where
  "ends s a = a + 16 * unat (hsize s a)"

definition blocks :: "umem \<Rightarrow> nat list \<Rightarrow> nat set \<Rightarrow> nat set" where
  "blocks s L live = (set L - {base s}) \<union> live"

definition heap_le :: "umem \<Rightarrow> nat \<Rightarrow> nat list \<Rightarrow> nat set \<Rightarrow> bool" where
  "heap_le s lo L live \<longleftrightarrow>
     L \<noteq> [] \<and> path (hptr s) (base s) L (base s) \<and> freep s \<in> set L \<and> sorted_wrt (<) L \<and>
     hsize s (base s) = 0 \<and> base s + 16 \<le> lo \<and> base s \<noteq> 0 \<and> lo \<le> brk s \<and> brk s \<le> 2 ^ 36 \<and>
     set L \<inter> live = {} \<and> tiles (ends s) (blocks s L live) lo (brk s) \<and>
     16 dvd brk s \<and> (\<forall>a\<in>blocks s L live. 16 dvd a)"

text \<open>No two free blocks touch: free merges neighbours.\<close>

definition merged :: "umem \<Rightarrow> nat list \<Rightarrow> bool" where
  "merged s L \<longleftrightarrow> sorted_wrt (\<lambda>a b. ends s a < b) L"

lemma heap_leD:
  assumes "heap_le s lo L live"
  shows "L \<noteq> []" "path (hptr s) (base s) L (base s)" "freep s \<in> set L" "sorted_wrt (<) L" "hsize s (base s) = 0"
    "base s + 16 \<le> lo" "base s \<noteq> 0" "lo \<le> brk s" "brk s \<le> 2 ^ 36" "set L \<inter> live = {}"
    "tiles (ends s) (blocks s L live) lo (brk s)" "16 dvd brk s" "a \<in> blocks s L live \<Longrightarrow> 16 dvd a"
  using assms by (simp_all add: heap_le_def)

lemma heap_base:
  assumes "heap_le s lo L live"
  shows "base s \<in> set L" "base s \<notin> live" "x \<in> set L \<Longrightarrow> base s \<le> x" "b \<in> live \<Longrightarrow> lo \<le> b" "x \<in> set L \<Longrightarrow> x \<noteq> base s \<Longrightarrow> lo \<le> x"
proof -
  note h = heap_leD [OF assms]
  obtain L' where L: "L = base s # L'" using h(1,2) by (cases L) auto
  show "base s \<in> set L" by (simp add: L)
  have b: "lo \<le> x" if "x \<in> blocks s L live" for x using tiles_in [OF h(11) that] by blast
  show "base s \<notin> live" using b [of "base s"] h(6) by (auto simp: blocks_def)
  show "x \<in> set L \<Longrightarrow> base s \<le> x" using h(4) L by auto
  show "b \<in> live \<Longrightarrow> lo \<le> b" using b by (auto simp: blocks_def)
  show "x \<in> set L \<Longrightarrow> x \<noteq> base s \<Longrightarrow> lo \<le> x" using b by (auto simp: blocks_def)
qed

text \<open>The successor of a free block on the ring is the next one in the order of addresses, and of the last one the base.\<close>

lemma ring_next:
  assumes "heap_le s lo L live" and "x \<in> set L"
  shows "(if \<exists>y\<in>set L. x < y then hptr s x \<in> set L \<and> x < hptr s x \<and> (\<forall>y\<in>set L. x < y \<longrightarrow> hptr s x \<le> y) else hptr s x = base s)"
proof -
  note h = heap_leD [OF assms(1)]
  obtain A B where L: "L = A @ x # B" using assms(2) by (meson split_list)
  have "path (hptr s) (hptr s x) B (base s)" using h(2) path_start [of _ _ A x B] unfolding L by fastforce
  moreover have "\<forall>a\<in>set A. a < x" "\<forall>b\<in>set B. x < b" "sorted_wrt (<) B" using h(4) unfolding L by (auto simp: sorted_wrt_append)
  ultimately show ?thesis by (cases B) (auto simp: L)
qed

section \<open>Putting a block back\<close>

definition stop :: "(nat \<Rightarrow> nat) \<Rightarrow> nat \<Rightarrow> nat \<Rightarrow> bool" where
  "stop h bp p \<longleftrightarrow> p < bp \<and> bp < h p \<or> h p \<le> p \<and> (p < bp \<or> bp < h p)"

lemma free_loop_path: "path h p xs q \<Longrightarrow> \<forall>x\<in>set xs. \<not> stop h bp x \<Longrightarrow> stop h bp q \<Longrightarrow> free_loop h bp p = Some q"
proof (induction xs arbitrary: p)
  case Nil
  then show ?case by (subst free_loop.simps) (auto simp: stop_def)
next
  case (Cons x xs)
  then show ?case by (subst free_loop.simps) (auto simp: stop_def)
qed

lemma free_loop_finds:
  assumes "heap_le s lo L live" and "b \<in> live"
  shows "\<exists>p A B. free_loop (hptr s) b (freep s) = Some p \<and> L = A @ p # B \<and> p < b \<and> (\<forall>y\<in>set B. b < y)"
proof -
  note h = heap_leD [OF assms(1)]
  have nb: "b \<notin> set L" using h(10) assms(2) by blast
  have bb: "base s < b" using heap_base(4) [OF assms] h(6) by simp
  define p where "p = Max {x \<in> set L. x < b}"
  have fin: "finite {x \<in> set L. x < b}" "base s \<in> {x \<in> set L. x < b}" using heap_base(1) [OF assms(1)] bb by auto
  have "p \<in> {x \<in> set L. x < b}" unfolding p_def using fin(2) by (intro Max_in [OF fin(1)]) blast
  then have p: "p \<in> set L" "p < b" by simp_all
  have top: "x \<le> p" if "x \<in> set L" "x < b" for x unfolding p_def using fin(1) that by (intro Max_ge) auto
  note nx = ring_next [OF assms(1)]
  have "stop (hptr s) b p"
  proof (cases "\<exists>y\<in>set L. p < y")
    case True
    then have "hptr s p \<in> set L" "p < hptr s p" using nx [OF p(1)] by auto
    then have "b < hptr s p" using top [of "hptr s p"] nb by (metis leD linorder_neqE_nat)
    then show ?thesis using p by (simp add: stop_def)
  next
    case False
    then show ?thesis using nx [OF p(1)] p heap_base(3) [OF assms(1) p(1)] by (auto simp: stop_def)
  qed
  moreover have "x = p" if x: "x \<in> set L" "stop (hptr s) b x" for x
  proof (cases "\<exists>y\<in>set L. x < y")
    case True
    then have n: "x < hptr s x" "\<forall>y\<in>set L. x < y \<longrightarrow> hptr s x \<le> y" using nx [OF x(1)] by auto
    then have "x < b" "b < hptr s x" using x(2) by (auto simp: stop_def)
    then show ?thesis using top [OF x(1)] n(2) p by (metis leD le_neq_implies_less order.strict_trans)
  next
    case False
    then have "x < b" using nx [OF x(1)] x(2) bb by (auto simp: stop_def)
    then show ?thesis using top [OF x(1)] False p(1) by (metis le_neq_implies_less)
  qed
  moreover obtain A0 B0 where L0: "L = A0 @ freep s # B0" using h(3) by (meson split_list)
  have "path (hptr s) (freep s) (freep s # B0 @ A0) (freep s)" by (rule ring_rotate [OF h(2) L0])
  moreover have "set (freep s # B0 @ A0) = set L" by (auto simp: L0)
  ultimately have "free_loop (hptr s) b (freep s) = Some p"
    using path_first [of "hptr s" "freep s" "freep s # B0 @ A0" "freep s" "stop (hptr s) b"] p(1) free_loop_path
    by (metis in_set_conv_decomp)
  moreover obtain A B where L: "L = A @ p # B" using p(1) by (meson split_list)
  moreover have "b < y" if "y \<in> set B" for y
  proof -
    have "p < y" "y \<in> set L" using h(4) that by (auto simp: L sorted_wrt_append)
    then show ?thesis using top [of y] nb by (metis leD linorder_neqE_nat)
  qed
  ultimately show ?thesis using p(2) by blast
qed

text \<open>free inserts the block after \<open>p\<close> and then joins it with its neighbours where they touch.\<close>

definition link :: "nat \<Rightarrow> nat \<Rightarrow> umem \<Rightarrow> umem" where
  "link p b s = s\<lparr>hptr := (hptr s)(b := hptr s p, p := b), freep := p\<rparr>"

definition join :: "nat \<Rightarrow> nat \<Rightarrow> umem \<Rightarrow> umem" where
  "join x y s = s\<lparr>hsize := (hsize s)(x := hsize s x + hsize s y), hptr := (hptr s)(x := hptr s y)\<rparr>"

lemma link_simps [simp]:
  "hsize (link p b s) = hsize s" "base (link p b s) = base s" "brk (link p b s) = brk s" "freep (link p b s) = p"
  "ends (link p b s) = ends s" "blocks (link p b s) = blocks s"
  by (simp_all add: link_def ends_def blocks_def fun_eq_iff)

lemma join_simps [simp]: "base (join x y s) = base s" "brk (join x y s) = brk s" "freep (join x y s) = freep s" "blocks (join x y s) = blocks s"
  by (simp_all add: join_def blocks_def fun_eq_iff)

lemma heap_link:
  assumes "heap_le s lo L (insert b live)" and "b \<notin> live" and "L = A @ p # B" and "p < b" and "\<forall>y\<in>set B. b < y"
  shows "heap_le (link p b s) lo (A @ p # b # B) live"
proof -
  note h = heap_leD [OF assms(1)]
  have ord: "sorted_wrt (<) (A @ p # b # B)" using h(4) assms(3-5) by (auto simp: sorted_wrt_append)
  have d: "p \<notin> set A" "b \<notin> set A" "p \<notin> set B" "b \<notin> set B" "p \<noteq> b" using ord by (auto simp: sorted_wrt_append)
  have "path (hptr s) (base s) A p" "path (hptr s) (hptr s p) B (base s)" using h(2) path_start [of _ _ A p B] unfolding assms(3) by fastforce+
  then have "path (hptr (link p b s)) (base s) (A @ p # b # B) (base s)"
    using d by (auto simp: path_append path_upd link_def)
  moreover have "b \<noteq> base s" using heap_base(2) [OF assms(1)] by auto
  then have "blocks s (A @ p # b # B) live = blocks s L (insert b live)" by (auto simp: blocks_def assms(3))
  moreover have "set (A @ p # b # B) \<inter> live = {}" using h(10) assms(2,3) by auto
  ultimately show ?thesis using h ord unfolding heap_le_def by simp
qed

lemma units_room:
  assumes "tiles (ends s) B lo hi" and "x \<in> B" and "y \<in> B" and "ends s x = y" and "hi \<le> 2 ^ 36" and "0 < lo"
  shows "unat (hsize s x + hsize s y) = unat (hsize s x) + unat (hsize s y)"
proof -
  have "lo \<le> x" "ends s y \<le> hi" using tiles_in [OF assms(1)] assms(2,3) by blast+
  then have "x + 16 * (unat (hsize s x) + unat (hsize s y)) \<le> 2 ^ 36" "0 < x" using assms(4-6) by (auto simp: ends_def)
  then show ?thesis by (intro unat_add_small) simp
qed

lemma heap_join:
  assumes "heap_le s lo (A @ x # y # B) live" and "ends s x = y" and "freep s \<noteq> y"
  shows "heap_le (join x y s) lo (A @ x # B) live" "ends (join x y s) = (ends s)(x := ends s y)"
    "hsize s x \<le> hsize (join x y s) x" "hsize s y \<le> hsize (join x y s) x"
proof -
  note h = heap_leD [OF assms(1)]
  have ord: "x < y" "sorted_wrt (<) (A @ x # B)" "x \<notin> set A" "x \<notin> set B" "y \<notin> set A" "y \<notin> set B"
    using h(4) by (auto simp: sorted_wrt_append)
  have xb: "x \<noteq> base s" using assms(2) h(5) ord(1) by (auto simp: ends_def)
  have yb: "y \<noteq> base s" using heap_base(3) [OF assms(1), of x] ord(1) by auto
  have in_b: "x \<in> blocks s (A @ x # y # B) live" "y \<in> blocks s (A @ x # y # B) live" using xb yb by (simp_all add: blocks_def)
  have u: "unat (hsize s x + hsize s y) = unat (hsize s x) + unat (hsize s y)"
    by (rule units_room [OF h(11) in_b assms(2) h(9)]) (use h(6) in simp)
  show e: "ends (join x y s) = (ends s)(x := ends s y)" using u assms(2) by (auto simp: ends_def join_def fun_eq_iff)
  show "hsize s x \<le> hsize (join x y s) x" "hsize s y \<le> hsize (join x y s) x"
    using u by (simp_all add: word_le_nat_alt join_def)
  have "path (hptr s) (base s) A x" "path (hptr s) (hptr s y) B (base s)"
    using h(2) path_start [of "hptr s" "base s" A x "y # B" "base s"] by auto
  then have "path (hptr (join x y s)) (base s) (A @ x # B) (base s)" using ord by (auto simp: path_append path_upd join_def)
  moreover have yl: "y \<notin> live" using h(10) by auto
  have "blocks s (A @ x # B) live = blocks s (A @ x # y # B) live - {y}" using ord yb yl by (auto simp: blocks_def)
  then have "tiles (ends (join x y s)) (blocks s (A @ x # B) live) lo (brk s)"
    unfolding e using tiles_merge [OF h(11) in_b assms(2)] by simp
  moreover have "blocks s (A @ x # B) live \<subseteq> blocks s (A @ x # y # B) live" by (auto simp: blocks_def)
  moreover have "hsize (join x y s) (base s) = 0" using h(5) xb by (simp add: join_def)
  ultimately show "heap_le (join x y s) lo (A @ x # B) live" using h ord(2) assms(3) unfolding heap_le_def by auto
qed

lemma free_eq:
  assumes "free_loop (hptr s) b (freep s) = Some p" and "p \<noteq> b" and "hptr s p \<noteq> b" and "ends s b = hptr s p \<longrightarrow> hptr s p \<noteq> p"
  shows "free (b + 16) s =
    (let s' = (if ends s b = hptr s p then join b (hptr s p) (link p b s) else link p b s)
     in Some (if ends s p = b then join p b s' else s'))"
  using assms by (auto simp: free_def ends_def link_def join_def Let_def fun_eq_iff)

definition cells_kept :: "umem \<Rightarrow> umem \<Rightarrow> nat set \<Rightarrow> bool" where
  "cells_kept s s' C \<longleftrightarrow> (\<forall>c\<in>C. hptr s' c = hptr s c \<and> hsize s' c = hsize s c)"

lemma join_next:
  assumes "heap_le s lo (A @ p # b # B) live" and "merged s (A @ p # B)" and "freep s = p"
    and nx: "n = (case B of [] \<Rightarrow> base s | q # _ \<Rightarrow> q)"
  shows "\<exists>B'. heap_le (if ends s b = n then join b n s else s) lo (A @ p # b # B') live \<and>
    merged (if ends s b = n then join b n s else s) (A @ p # B') \<and>
    (\<forall>y\<in>set B'. ends (if ends s b = n then join b n s else s) b < y) \<and>
    hsize s b \<le> hsize (if ends s b = n then join b n s else s) b"
proof -
  note h = heap_leD [OF assms(1)]
  have bb: "base s < b" using h(4) heap_base(3) [OF assms(1), of p] by (auto simp: sorted_wrt_append)
  then have b: "b \<in> blocks s (A @ p # b # B) live" by (simp add: blocks_def)
  have eb: "b < ends s b" using tilesD(1) [OF h(11) b] .
  have le: "ends s b \<le> y" if "y \<in> set B" for y
  proof -
    have "b < y" using h(4) that by (auto simp: sorted_wrt_append)
    moreover have "y \<in> blocks s (A @ p # b # B) live" using that bb \<open>b < y\<close> by (auto simp: blocks_def)
    ultimately show ?thesis using tilesD(2) [OF h(11) b] by blast
  qed
  show ?thesis
  proof (cases "ends s b = n")
    case True
    then obtain q B' where B: "B = q # B'" "n = q" using nx eb bb by (cases B) auto
    have hq: "heap_le s lo ((A @ [p]) @ b # q # B') live" using assms(1) B by simp
    have pq: "freep s \<noteq> q" using h(4) B assms(3) by (auto simp: sorted_wrt_append)
    have e: "ends s b = q" using True B by simp
    note j = heap_join [OF hq e pq]
    have d: "b \<notin> set A" "p \<noteq> b" using h(4) by (auto simp: sorted_wrt_append)
    have "merged (join b q s) (A @ p # B')" "\<forall>y\<in>set B'. ends s q < y"
      using assms(2) d h(4) unfolding merged_def j(2) B by (auto simp: sorted_wrt_append elim!: sorted_wrt_mono_rel [rotated])
    then show ?thesis using j True B(2) by (intro exI [of _ B']) simp
  next
    case False
    then have "ends s b < y" if "y \<in> set B" for y
    proof (cases B)
      case (Cons q B')
      then have "ends s b < q" using le [of q] False nx by (simp add: order.strict_iff_order)
      moreover have "q \<le> y" using h(4) that Cons by (auto simp: sorted_wrt_append)
      ultimately show ?thesis by simp
    qed (use that in simp)
    then show ?thesis using False assms(1,2) by (intro exI [of _ B]) simp
  qed
qed

lemma free_correct:
  assumes "heap_le s lo L (insert b live)" and "b \<notin> live" and "merged s L"
  shows "\<exists>s' L'. free (b + 16) s = Some s' \<and> heap_le s' lo L' live \<and> merged s' L' \<and> base s' = base s \<and> brk s' = brk s \<and>
    cells_kept s s' (- insert b (set L)) \<and> (\<exists>x\<in>set L'. hsize s b \<le> hsize s' x)"
proof -
  note h = heap_leD [OF assms(1)]
  obtain p A B where f: "free_loop (hptr s) b (freep s) = Some p" and L: "L = A @ p # B" and pb: "p < b" and B: "\<forall>y\<in>set B. b < y"
    using free_loop_finds [OF assms(1), of b] by blast
  define n where "n = hptr s p"
  have nx: "n = (case B of [] \<Rightarrow> base s | q # _ \<Rightarrow> q)"
    using h(2) path_start [of "hptr s" "base s" A p B] unfolding L n_def by (auto split: list.split)
  have bb: "base s < b" using heap_base(4) [OF assms(1), of b] h(6) by simp
  have bl: "b \<in> blocks s L (insert b live)" by (simp add: blocks_def)
  have nb: "n \<noteq> b" "ends s b = n \<longrightarrow> n \<noteq> p"
    using nx B bb tilesD(1) [OF h(11) bl] pb by (auto split: list.splits)
  define s1 where "s1 = link p b s"
  have h1: "heap_le s1 lo (A @ p # b # B) live" unfolding s1_def by (rule heap_link [OF assms(1,2) L pb B])
  have m1: "merged s1 (A @ p # B)" "freep s1 = p" using assms(3) by (simp_all add: merged_def s1_def L)
  have e1: "ends s1 = ends s" "hsize s1 = hsize s" and nx1: "n = (case B of [] \<Rightarrow> base s1 | q # _ \<Rightarrow> q)"
    unfolding s1_def link_simps by (rule refl, rule refl, rule nx)
  define s2 where "s2 = (if ends s b = n then join b n s1 else s1)"
  obtain B' where h2: "heap_le s2 lo (A @ p # b # B') live" and m2: "merged s2 (A @ p # B')" "\<forall>y\<in>set B'. ends s2 b < y"
      and z2: "hsize s b \<le> hsize s2 b"
    using join_next [OF h1 m1 nx1] unfolding e1 s2_def [symmetric] by auto
  have s2: "ends s2 p = ends s p" "freep s2 = p" "base s2 = base s" "brk s2 = brk s"
    using pb by (simp_all add: s2_def s1_def join_def ends_def link_def)
  define s3 where "s3 = (if ends s p = b then join p b s2 else s2)"
  have fr: "free (b + 16) s = Some s3"
    using free_eq [OF f] pb nb unfolding n_def [symmetric] by (simp add: s3_def s2_def s1_def Let_def)
  have ck: "cells_kept s s3 (- insert b (set L))"
    by (auto simp: cells_kept_def s3_def s2_def s1_def join_def link_def L)
  have oth: "base s3 = base s" "brk s3 = brk s" by (simp_all add: s3_def s2)
  show ?thesis
  proof (cases "ends s p = b")
    case True
    have e: "ends s2 p = b" "freep s2 \<noteq> b" using True s2 pb by simp_all
    note j = heap_join [OF h2 e]
    have e3: "ends s3 = (ends s2)(p := ends s2 b)" using j(2) True by (simp add: s3_def)
    have "p \<notin> set A" "p \<notin> set B'" using heap_leD(4) [OF h2] by (auto simp: sorted_wrt_append)
    then have "merged s3 (A @ p # B')"
      using m2 unfolding merged_def e3 by (auto simp: sorted_wrt_append elim!: sorted_wrt_mono_rel [rotated])
    moreover have "hsize s b \<le> hsize s3 p" using z2 j(4) True by (simp add: s3_def)
    ultimately show ?thesis using fr ck oth j(1) True by (intro exI [of _ s3] exI [of _ "A @ p # B'"]) (simp add: s3_def)
  next
    case False
    have "ends s p \<le> b"
    proof (cases "p = base s")
      case True
      then show ?thesis using bb h(5) by (simp add: ends_def)
    next
      case False
      then have "p \<in> blocks s L (insert b live)" by (simp add: blocks_def L)
      then show ?thesis using tilesD(2) [OF h(11) _ bl pb] by blast
    qed
    then have "ends s2 p < b" using False s2(1) by simp
    moreover have "ends s2 a < p" if "a \<in> set A" for a using m2(1) that by (auto simp: merged_def sorted_wrt_append)
    ultimately have "merged s2 (A @ p # b # B')" using m2 pb unfolding merged_def by (fastforce simp: sorted_wrt_append)
    then show ?thesis using fr ck oth h2 z2 False by (intro exI [of _ s3] exI [of _ "A @ p # b # B'"]) (simp add: s3_def)
  qed
qed

section \<open>Taking a block\<close>

definition live_cells :: "umem \<Rightarrow> nat set \<Rightarrow> nat set" where
  "live_cells s live = (\<Union>b\<in>live. {b..<ends s b})"

lemma live_apart:
  assumes "heap_le s lo L live" and "c \<in> live_cells s live" and "x \<in> set L"
  shows "c \<noteq> x" "x \<le> c \<Longrightarrow> ends s x \<le> c"
proof -
  note h = heap_leD [OF assms(1)]
  obtain b where b: "b \<in> live" "b \<le> c" "c < ends s b" using assms(2) by (auto simp: live_cells_def)
  have lc: "lo \<le> c" using heap_base(4) [OF assms(1) b(1)] b(2) by simp
  have "c \<noteq> x \<and> (x \<le> c \<longrightarrow> ends s x \<le> c)"
  proof (cases "x = base s")
    case True
    then show ?thesis using lc h(5,6) by (simp add: ends_def)
  next
    case False
    then have "x \<in> blocks s L live" "b \<in> blocks s L live" "x \<noteq> b" using assms(3) b(1) h(10) by (auto simp: blocks_def)
    then have "ends s x \<le> b \<or> ends s b \<le> x" "x < ends s x" using tiles_apart [OF h(11)] tilesD(1) [OF h(11)] by blast+
    then show ?thesis using b by auto
  qed
  then show "c \<noteq> x" "x \<le> c \<Longrightarrow> ends s x \<le> c" by blast+
qed

lemma heap_unlink:
  assumes "heap_le s lo (A @ pr # p # B) live" and "merged s (A @ pr # p # B)" and "p \<noteq> base s"
  defines "s' \<equiv> s\<lparr>hptr := (hptr s)(pr := hptr s p), freep := pr\<rparr>"
  shows "heap_le s' lo (A @ pr # B) (insert p live)" "merged s' (A @ pr # B)"
proof -
  note h = heap_leD [OF assms(1)]
  have ord: "sorted_wrt (<) (A @ pr # B)" "pr \<notin> set A" "pr \<notin> set B" "p \<notin> set (A @ pr # B)" using h(4) by (auto simp: sorted_wrt_append)
  have e: "ends s' = ends s" "base s' = base s" "brk s' = brk s" "hsize s' = hsize s" by (simp_all add: s'_def ends_def fun_eq_iff)
  show "merged s' (A @ pr # B)" using assms(2) by (auto simp: merged_def e sorted_wrt_append)
  have "path (hptr s) (base s) A pr" "path (hptr s) (hptr s p) B (base s)"
    using h(2) path_start [of "hptr s" "base s" A pr "p # B" "base s"] by auto
  then have "path (hptr s') (base s') (A @ pr # B) (base s')" using ord by (auto simp: path_append path_upd s'_def)
  moreover have "blocks s' (A @ pr # B) (insert p live) = blocks s (A @ pr # p # B) live"
    using assms(3) ord by (auto simp: blocks_def e)
  moreover have "set (A @ pr # B) \<inter> insert p live = {}" using h(10) ord(4) by auto
  moreover have "freep s' \<in> set (A @ pr # B)" by (simp add: s'_def)
  ultimately show "heap_le s' lo (A @ pr # B) (insert p live)" using h ord(1) unfolding heap_le_def e by auto
qed

lemma heap_carve:
  assumes "heap_le s lo L live" and "merged s L" and "p \<in> set L" and "p \<noteq> base s" and "pr \<in> set L"
    and "0 < nu" and "nu < hsize s p"
  defines "m \<equiv> p + 16 * unat (hsize s p - nu)"
  defines "s' \<equiv> s\<lparr>hsize := (hsize s)(p := hsize s p - nu, m := nu), freep := pr\<rparr>"
  shows "heap_le s' lo L (insert m live)" "merged s' L" "m \<notin> live" "p < m" "m < ends s p"
proof -
  note h = heap_leD [OF assms(1)]
  have u: "unat (hsize s p - nu) = unat (hsize s p) - unat nu" using assms(7) by (intro unat_sub) simp
  have un: "0 < unat nu" "unat nu < unat (hsize s p)" using assms(6,7) by (simp_all add: word_less_nat_alt)
  show m: "p < m" "m < ends s p" using u un unfolding m_def ends_def by simp_all
  have pb: "p \<in> blocks s L live" using assms(3,4) by (simp add: blocks_def)
  have e: "ends s' = (ends s)(p := m, m := ends s p)" using u un m by (auto simp: ends_def s'_def m_def fun_eq_iff)
  have o: "base s' = base s" "brk s' = brk s" "hptr s' = hptr s" by (simp_all add: s'_def)
  note t = tiles_split [OF h(11) pb m]
  have mb: "m \<noteq> base s" using m heap_base(3) [OF assms(1,3)] by simp
  have ml: "m \<notin> set L" "m \<notin> live" using t(1) mb by (auto simp: blocks_def)
  then show "m \<notin> live" by simp
  have "x = p \<or> ends s' x = ends s x" if "x \<in> set L" for x using e ml(1) that by auto
  then have le: "ends s' x \<le> ends s x" if "x \<in> set L" for x using that e m by fastforce
  have "sorted_wrt (\<lambda>a b. ends s' a < b) L"
    using assms(2) unfolding merged_def by (rule sorted_wrt_mono_rel [rotated]) (use le order.strict_trans1 in blast)
  then show "merged s' L" by (simp add: merged_def)
  have "blocks s' L (insert m live) = insert m (blocks s L live)" using mb by (auto simp: blocks_def o)
  moreover have "16 dvd m" using heap_leD(13) [OF assms(1) pb] by (simp add: m_def)
  moreover have "hsize s' (base s) = 0" using h(5) assms(4) mb by (simp add: s'_def)
  ultimately show "heap_le s' lo L (insert m live)"
    using h ml t(2) assms(5) unfolding heap_le_def o e by (auto simp: s'_def)
qed

text \<open>What malloc promises when it returns the block \<open>a\<close> of \<open>nu\<close> units.\<close>

definition taken :: "umem \<Rightarrow> nat \<Rightarrow> nat set \<Rightarrow> u32 \<Rightarrow> nat \<Rightarrow> umem \<Rightarrow> bool" where
  "taken s lo live nu a s' \<longleftrightarrow>
     (\<exists>L'. heap_le s' lo L' (insert a live) \<and> merged s' L') \<and> a \<notin> live \<and> hsize s' a = nu \<and> base s' = base s \<and>
     cells_kept s s' (live_cells s live)"

lemma malloc_take:
  assumes "heap_le s lo L live" and "merged s L" and "pr \<in> set L" and "hptr s pr = p" and "0 < nu" and "nu \<le> hsize s p"
  shows "\<exists>a s'. malloc_loop g nu pr p s = Some (a + 16, s') \<and> taken s lo live nu a s'"
proof -
  note h = heap_leD [OF assms(1)]
  have pb: "p \<noteq> base s" using h(5) assms(5,6) by auto
  obtain A B where L: "L = A @ pr # p # B" using path_next [OF h(2) assms(3)] assms(4) pb by auto
  then have pL: "p \<in> set L" by simp
  note ap = live_apart [OF assms(1)]
  show ?thesis
  proof (cases "hsize s p = nu")
    case True
    let ?s = "s\<lparr>hptr := (hptr s)(pr := hptr s p), freep := pr\<rparr>"
    have "malloc_loop g nu pr p s = Some (p + 16, ?s)" using True by (subst malloc_loop.simps) simp
    moreover have "cells_kept s ?s (live_cells s live)" using ap(1) [OF _ assms(3)] by (auto simp: cells_kept_def)
    moreover have "p \<notin> live" using h(10) pL by auto
    ultimately show ?thesis
      using heap_unlink [OF assms(1,2) [unfolded L] pb] True by (intro exI [of _ p] exI [of _ ?s]) (auto simp: taken_def)
  next
    case False
    define m where "m = p + 16 * unat (hsize s p - nu)"
    define s' where "s' = s\<lparr>hsize := (hsize s)(p := hsize s p - nu, m := nu), freep := pr\<rparr>"
    have lt: "nu < hsize s p" using assms(6) False by simp
    note c = heap_carve [OF assms(1,2) pL pb assms(3,5) lt, folded m_def, folded s'_def]
    have r: "malloc_loop g nu pr p s = Some (m + 16, s')"
      using assms(6) False by (subst malloc_loop.simps) (simp add: Let_def m_def s'_def)
    have n: "x \<noteq> p \<and> x \<noteq> m" if "x \<in> live_cells s live" for x using ap [OF that pL] c(4,5) by force
    have f: "base s' = base s" "hptr s' = hptr s" "hsize s' m = nu" "x \<noteq> p \<and> x \<noteq> m \<Longrightarrow> hsize s' x = hsize s x" for x
      by (simp_all add: s'_def)
    have "cells_kept s s' (live_cells s live)" unfolding cells_kept_def f(2) using f(4) n by blast
    then have "taken s lo live nu m s'" unfolding taken_def using c(1-3) f(1,3) by blast
    with r show ?thesis by blast
  qed
qed

lemma malloc_walk:
  "path (hptr s) p xs q \<Longrightarrow> \<forall>x\<in>set xs. hsize s x < nu \<and> x \<noteq> freep s \<Longrightarrow>
   malloc_loop g nu pr p s = malloc_loop g nu (last (pr # xs)) q s"
proof (induction xs arbitrary: p pr)
  case (Cons x xs)
  have x: "p = x" "\<not> nu \<le> hsize s x" "x \<noteq> freep s" "path (hptr s) (hptr s x) xs q" "\<forall>x\<in>set xs. hsize s x < nu \<and> x \<noteq> freep s"
    using Cons.prems by (simp_all add: not_le)
  have "malloc_loop g nu pr p s = malloc_loop g nu x (hptr s x) s" unfolding x(1) by (subst malloc_loop.simps) (simp only: x(2,3) if_False)
  also have "\<dots> = malloc_loop g nu (last (x # xs)) q s" by (rule Cons.IH [OF x(4,5)])
  finally show ?case by simp
qed simp

lemma path_last: "path h (h f) ys c \<Longrightarrow> h (last (f # ys)) = c"
  by (induction ys arbitrary: f) auto

lemma malloc_finds:
  assumes "heap_le s lo L live" and "merged s L" and "0 < nu" and "\<exists>x\<in>set L. nu \<le> hsize s x"
  shows "\<exists>a s'. malloc_loop g nu (freep s) (hptr s (freep s)) s = Some (a + 16, s') \<and> taken s lo live nu a s'"
proof -
  note h = heap_leD [OF assms(1)]
  let ?f = "freep s"
  obtain A B where L: "L = A @ ?f # B" using h(3) by (meson split_list)
  have "path (hptr s) (hptr s ?f) (B @ A) ?f" using ring_rotate [OF h(2) L] by simp
  then have r: "path (hptr s) (hptr s ?f) ((B @ A) @ [?f]) (hptr s ?f)" by (simp add: path_append)
  have "\<exists>x\<in>set ((B @ A) @ [?f]). nu \<le> hsize s x" using assms(4) by (auto simp: L)
  then obtain ys c zs where y: "(B @ A) @ [?f] = ys @ c # zs" "nu \<le> hsize s c" "\<forall>y\<in>set ys. \<not> nu \<le> hsize s y" "path (hptr s) (hptr s ?f) ys c"
    using path_first [OF r, of "\<lambda>x. nu \<le> hsize s x"] by blast
  have "set ys \<subseteq> set (B @ A)"
  proof (cases zs rule: rev_cases)
    case Nil
    then show ?thesis using y(1) by simp
  next
    case (snoc zs' z)
    then have "B @ A = ys @ c # zs'" using y(1) by simp
    then have "set (B @ A) = set (ys @ c # zs')" by (rule arg_cong)
    then show ?thesis by auto
  qed
  moreover have "?f \<notin> set (B @ A)" using h(4) unfolding L by (auto simp: sorted_wrt_append)
  ultimately have "\<forall>x\<in>set ys. hsize s x < nu \<and> x \<noteq> ?f" and ys: "set ys \<subseteq> set L" using y(3) by (auto simp: L not_le)
  then have w: "malloc_loop g nu ?f (hptr s ?f) s = malloc_loop g nu (last (?f # ys)) c s" by (intro malloc_walk [OF y(4)])
  have "last (?f # ys) \<in> set L" using ys h(3) last_in_set [of "?f # ys"] by auto
  moreover have "hptr s (last (?f # ys)) = c" by (rule path_last [OF y(4)])
  ultimately show ?thesis unfolding w using malloc_take [OF assms(1,2) _ _ assms(3) y(2)] by blast
qed

section \<open>Growing the heap\<close>

definition core_units :: "u32 \<Rightarrow> nat" where
  "core_units nu = max 4096 (unat nu)"

definition sbrk_bounded :: "(nat \<Rightarrow> int \<Rightarrow> bool) \<Rightarrow> bool" where
  "sbrk_bounded grow \<longleftrightarrow> (\<forall>b n. grow b n \<longrightarrow> int b + n \<le> 2 ^ 36)"

lemma core_increment:
  assumes "core_units nu < 2 ^ 27"
  shows "sint (ucast (ucast (if nu < 4096 then 4096 else nu) * 16 :: u64) :: u32) = int (16 * core_units nu)"
    "unat (if nu < 4096 then 4096 else nu) = core_units nu"
proof -
  let ?nu = "if nu < 4096 then 4096 else nu"
  show u: "unat ?nu = core_units nu" by (auto simp: core_units_def word_less_nat_alt max_def)
  have w: "unat (ucast ?nu :: u64) = core_units nu" using assms u [symmetric] by (simp add: unsigned_ucast_eq take_bit_nat_eq_self)
  have "unat (ucast ?nu * 16 :: u64) = 16 * core_units nu" using assms by (simp only: unat_word_ariths w) simp
  then have v: "unat (ucast (ucast ?nu * 16 :: u64) :: u32) = 16 * core_units nu"
    using assms by (simp add: unsigned_ucast_eq take_bit_nat_eq_self)
  have "uint (ucast (ucast ?nu * 16 :: u64) :: u32) = int (16 * core_units nu)" unfolding v [symmetric] by simp
  then show "sint (ucast (ucast ?nu * 16 :: u64) :: u32) = int (16 * core_units nu)"
    using assms unfolding sint_uint by (simp add: signed_take_bit_int_eq_self)
qed

lemma heap_grow:
  assumes "heap_le s lo L live" and "merged s L" and "0 < k" and "brk s + 16 * unat k \<le> 2 ^ 36"
  defines "s' \<equiv> s\<lparr>brk := brk s + 16 * unat k, hsize := (hsize s)(brk s := k)\<rparr>"
  shows "heap_le s' lo L (insert (brk s) live)" "merged s' L" "brk s \<notin> live" "brk s \<notin> set L"
proof -
  note h = heap_leD [OF assms(1)]
  have k: "brk s < brk s + 16 * unat k" using assms(3) by (simp add: word_less_nat_alt)
  have e: "ends s' = (ends s)(brk s := brk s + 16 * unat k)" by (auto simp: ends_def s'_def fun_eq_iff)
  have o: "base s' = base s" "brk s' = brk s + 16 * unat k" "hptr s' = hptr s" "freep s' = freep s" by (simp_all add: s'_def)
  note t = tiles_extend [OF h(11,8) k]
  have bb: "brk s \<noteq> base s" using h(6,8) by simp
  show n: "brk s \<notin> live" "brk s \<notin> set L" using t(1) bb by (auto simp: blocks_def)
  have same: "ends s' x = ends s x" if "x \<in> set L" for x using that n(2) unfolding e by auto
  have "sorted_wrt (\<lambda>a b. ends s' a < b) L"
    using assms(2) unfolding merged_def by (rule sorted_wrt_mono_rel [rotated]) (simp only: same)
  then show "merged s' L" by (simp add: merged_def)
  have "blocks s' L (insert (brk s) live) = insert (brk s) (blocks s L live)" using bb by (auto simp: blocks_def o)
  moreover have "hsize s' (base s) = 0" using h(5) bb by (simp add: s'_def)
  ultimately show "heap_le s' lo L (insert (brk s) live)"
    using h n t(2) assms(4) unfolding heap_le_def o e by auto
qed

lemma malloc_loop_correct:
  assumes "heap_le s lo L live" and "merged s L" and "0 < nu" and "core_units nu < 2 ^ 27" and "sbrk_bounded grow"
  shows "\<exists>a s'. malloc_loop grow nu (freep s) (hptr s (freep s)) s = Some (a, s') \<and>
    (if a = 0 then s' = s \<and> \<not> grow (brk s) (int (16 * core_units nu)) \<and> (\<forall>x\<in>set L. hsize s x < nu)
     else 16 \<le> a \<and> taken s lo live nu (a - 16) s')"
proof (cases "\<exists>x\<in>set L. nu \<le> hsize s x")
  case True
  then obtain a s' where "malloc_loop grow nu (freep s) (hptr s (freep s)) s = Some (a + 16, s')" "taken s lo live nu a s'"
    using malloc_finds [OF assms(1-3)] by blast
  then show ?thesis by (intro exI [of _ "a + 16"] exI [of _ s']) simp
next
  case False
  note h = heap_leD [OF assms(1)]
  let ?f = "freep s" and ?k = "if nu < 4096 then 4096 else nu"
  obtain A B where L: "L = A @ ?f # B" using h(3) by (meson split_list)
  have r: "path (hptr s) (hptr s ?f) (B @ A) ?f" using ring_rotate [OF h(2) L] by simp
  have nf: "?f \<notin> set (B @ A)" using h(4) unfolding L by (auto simp: sorted_wrt_append)
  have small: "\<forall>x\<in>set L. hsize s x < nu" using False by (auto simp: not_le)
  then have "\<forall>x\<in>set (B @ A). hsize s x < nu \<and> x \<noteq> ?f" using nf unfolding L by auto
  then have "malloc_loop grow nu ?f (hptr s ?f) s = malloc_loop grow nu (last (?f # B @ A)) ?f s" by (intro malloc_walk [OF r])
  also have "\<dots> = Option.bind (morecore grow nu s)
      (\<lambda>r. if fst r = 0 then Some r else malloc_loop grow nu (fst r) (hptr (snd r) (fst r)) (snd r))"
    using small h(3) by (subst malloc_loop.simps) (simp add: not_le [symmetric])
  finally have m: "malloc_loop grow nu ?f (hptr s ?f) s = Option.bind (morecore grow nu s)
      (\<lambda>r. if fst r = 0 then Some r else malloc_loop grow nu (fst r) (hptr (snd r) (fst r)) (snd r))" .
  note c = core_increment [OF assms(4)]
  show ?thesis
  proof (cases "grow (brk s) (int (16 * core_units nu))")
    case False
    then have "morecore grow nu s = Some (0, s)" by (simp only: morecore_def sbrk_def Let_def c if_False prod.case option.case)
    then show ?thesis using m False small by simp
  next
    case True
    define s1 where "s1 = s\<lparr>brk := brk s + 16 * unat ?k, hsize := (hsize s)(brk s := ?k)\<rparr>"
    have bd: "brk s + 16 * unat ?k \<le> 2 ^ 36" using True assms(5) unfolding sbrk_bounded_def c(2) by fastforce
    have k: "0 < ?k" "nu \<le> ?k" using assms(3) by auto
    note g = heap_grow [OF assms(1,2) k(1) bd, folded s1_def]
    obtain s2 L2 where f: "free (brk s + 16) s1 = Some s2" "heap_le s2 lo L2 live" "merged s2 L2" "base s2 = base s1"
        "cells_kept s1 s2 (- insert (brk s) (set L))" "\<exists>x\<in>set L2. hsize s1 (brk s) \<le> hsize s2 x"
      using free_correct [OF g(1,3,2)] by blast
    have "nat (int (brk s) + int (16 * core_units nu)) = brk s + 16 * unat ?k" unfolding c(2) by linarith
    then have mc: "morecore grow nu s = Some (freep s2, s2)"
      using True f(1) unfolding morecore_def Let_def sbrk_def c(1) by (simp add: s1_def)
    have "\<exists>x\<in>set L2. nu \<le> hsize s2 x" using f(6) k(2) by (auto simp: s1_def intro: order_trans)
    then obtain a s' where a: "malloc_loop grow nu (freep s2) (hptr s2 (freep s2)) s2 = Some (a + 16, s')" "taken s2 lo live nu a s'"
      using malloc_finds [OF f(2,3) assms(3)] by blast
    have nz: "freep s2 \<noteq> 0" using heap_base(3) [OF f(2) heap_leD(3) [OF f(2)]] heap_leD(7) [OF f(2)] by linarith
    have kept: "cells_kept s s2 (live_cells s live)"
    proof -
      have "x \<notin> insert (brk s) (set L)" if "x \<in> live_cells s live" for x
      proof -
        have "x < brk s" using that tiles_in [OF h(11)] unfolding live_cells_def blocks_def by fastforce
        then show ?thesis using live_apart(1) [OF assms(1) that] by auto
      qed
      then show ?thesis using f(5) unfolding cells_kept_def by (auto simp: s1_def)
    qed
    have "ends s2 b = ends s b" if "b \<in> live" for b
    proof -
      have "b \<in> live_cells s live" using that tilesD(1) [OF h(11), of b] by (force simp: live_cells_def blocks_def)
      then show ?thesis using kept by (auto simp: cells_kept_def ends_def)
    qed
    then have "live_cells s2 live = live_cells s live" by (simp add: live_cells_def)
    then have "taken s lo live nu a s'" using a(2) kept f(4) by (auto simp: taken_def cells_kept_def s1_def)
    then show ?thesis using m mc nz a(1) by (intro exI [of _ "a + 16"] exI [of _ s']) simp
  qed
qed

section \<open>Programs that allocate, free and write\<close>

definition uheap :: "umem \<Rightarrow> nat \<Rightarrow> nat set \<Rightarrow> bool" where
  "uheap s lo live \<longleftrightarrow>
     (if freep s = 0
      then live = {} \<and> base s \<noteq> 0 \<and> base s + 16 \<le> lo \<and> brk s = lo \<and> lo \<le> 2 ^ 36 \<and> 16 dvd lo
      else \<exists>L. heap_le s lo L live \<and> merged s L)"

lemma units_eq: "unat (units n) = (unat n + 15) div 16 + 1"
proof -
  have n: "unat n < 2 ^ 32" using unat_bound [of n] by simp
  have "unat (ucast n + 16 - 1 :: u64) = unat n + 15"
  proof -
    have "(ucast n + 16 - 1 :: u64) = of_nat (unat n + 15)" by simp
    then show ?thesis using n by (simp only: unat_of_nat) simp
  qed
  moreover have "(unat n + 15) div 16 + 1 < 2 ^ 32" using n by simp
  ultimately have "unat ((ucast n + 16 - 1 :: u64) div 16 + 1) = (unat n + 15) div 16 + 1"
    by (subst unat_add_small) (simp_all add: unat_div)
  then show ?thesis using n unfolding units_def by (simp add: unsigned_ucast_eq take_bit_nat_eq_self)
qed

lemma units_room_for: "0 < units n" "unat n + 16 \<le> 16 * unat (units n)" "unat n + 32 \<le> 2 ^ 31 \<Longrightarrow> core_units (units n) < 2 ^ 27"
  by (simp_all add: units_eq word_less_nat_alt core_units_def)

lemma malloc_correct:
  assumes "uheap s lo live" and "unat n + 32 \<le> 2 ^ 31" and "sbrk_bounded grow"
  shows "\<exists>a s'. malloc grow n s = Some (a, s') \<and>
    (if a = 0 then uheap s' lo live \<and> hptr s' = (hptr s)(base s := hptr s' (base s)) \<and> hsize s' = (hsize s)(base s := hsize s' (base s)) \<and>
       base s' = base s \<and> \<not> grow (brk s) (int (16 * core_units (units n)))
     else 16 \<le> a \<and> uheap s' lo (insert (a - 16) live) \<and> taken s lo live (units n) (a - 16) s')"
proof -
  define s0 where "s0 = (if freep s = 0
    then s\<lparr>hptr := (hptr s)(base s := base s), hsize := (hsize s)(base s := 0), freep := base s\<rparr> else s)"
  have "\<exists>L. heap_le s0 lo L live \<and> merged s0 L"
  proof (cases "freep s = 0")
    case True
    then have "heap_le s0 lo [base s] live \<and> merged s0 [base s]"
      using assms(1) by (auto simp: uheap_def s0_def heap_le_def merged_def tiles_def blocks_def ends_def)
    then show ?thesis by blast
  next
    case False
    then show ?thesis using assms(1) by (simp add: uheap_def s0_def)
  qed
  then obtain L where L: "heap_le s0 lo L live" "merged s0 L" by blast
  have b0: "base s0 = base s" "brk s0 = brk s" "hptr s0 = (hptr s)(base s := hptr s0 (base s))" "hsize s0 = (hsize s)(base s := hsize s0 (base s))"
    by (auto simp: s0_def)
  have nz: "freep t \<noteq> 0" if "heap_le t lo M live'" for t M live'
    using heap_base(3) [OF that heap_leD(3) [OF that]] heap_leD(7) [OF that] by linarith
  have eq: "malloc grow n s = malloc_loop grow (units n) (freep s0) (hptr s0 (freep s0)) s0"
    by (simp add: malloc_def Let_def s0_def)
  obtain a s' where a: "malloc grow n s = Some (a, s')"
      "if a = 0 then s' = s0 \<and> \<not> grow (brk s0) (int (16 * core_units (units n))) \<and> (\<forall>x\<in>set L. hsize s0 x < units n)
       else 16 \<le> a \<and> taken s0 lo live (units n) (a - 16) s'"
    using malloc_loop_correct [OF L units_room_for(1,3) [of n] assms(3)] assms(2) unfolding eq by blast
  have live: "x \<noteq> base s" if "x \<in> live_cells s live" for x
    using that assms(1) live_apart(1) [of s lo _ live x "base s"] heap_base(1) [of s lo _ live]
    by (auto simp: uheap_def live_cells_def split: if_splits)
  have e: "ends s0 b = ends s b" if "b \<in> live" for b
    using that heap_base(2) [OF L(1)] b0(4) unfolding b0(1) by (auto simp: ends_def s0_def)
  have "taken s lo live (units n) (a - 16) s'" if t: "taken s0 lo live (units n) (a - 16) s'"
  proof -
    have "live_cells s0 live = live_cells s live" using e by (simp add: live_cells_def)
    then show ?thesis using t live unfolding taken_def cells_kept_def b0(1) by (auto simp: s0_def split: if_splits)
  qed
  moreover have "uheap s' lo (insert (a - 16) live)" if "taken s0 lo live (units n) (a - 16) s'"
    using that nz unfolding taken_def uheap_def by auto
  moreover have "uheap s0 lo live" using L nz [OF L(1)] by (auto simp: uheap_def)
  ultimately show ?thesis using a b0 by (intro exI [of _ a] exI [of _ s']) (cases "a = 0", auto)
qed

text \<open>
  A program calls malloc, frees what it has been given, and writes header-sized cells inside the bytes it asked for.
  \<open>live\<close> lists the pointers it holds with the sizes it asked for, \<open>w\<close> what it last wrote to a cell.
\<close>

datatype uop = UMalloc u32 | UFree nat | UWrite nat nat u32

definition own_cell :: "(nat \<times> u32) list \<Rightarrow> nat \<Rightarrow> bool" where
  "own_cell live c \<longleftrightarrow> list_ex (\<lambda>(a, n). a \<le> c \<and> c + 16 \<le> a + unat n) live"

fun urun :: "(nat \<Rightarrow> int \<Rightarrow> bool) \<Rightarrow> uop list \<Rightarrow> umem \<Rightarrow> (nat \<times> u32) list \<Rightarrow> (nat \<Rightarrow> (nat \<times> u32) option) \<Rightarrow>
    (umem \<times> (nat \<times> u32) list \<times> (nat \<Rightarrow> (nat \<times> u32) option)) option" where
  "urun grow [] s live w = Some (s, live, w)"
| "urun grow (UMalloc n # ops) s live w =
     (case malloc grow n s of
        None \<Rightarrow> None
      | Some (a, s) \<Rightarrow>
          if a = 0 then urun grow ops s live w
          else urun grow ops s ((a, n) # live) (\<lambda>c. if a \<le> c \<and> c < a + unat n then None else w c))"
| "urun grow (UFree a # ops) s live w =
     (if list_ex (\<lambda>x. fst x = a) live
      then (case free a s of None \<Rightarrow> None | Some s \<Rightarrow> urun grow ops s (filter (\<lambda>x. fst x \<noteq> a) live) w)
      else urun grow ops s live w)"
| "urun grow (UWrite c p z # ops) s live w =
     (if own_cell live c
      then urun grow ops (s\<lparr>hptr := (hptr s)(c := p), hsize := (hsize s)(c := z)\<rparr>) live (w(c \<mapsto> (p, z)))
      else urun grow ops s live w)"

definition headers :: "(nat \<times> u32) list \<Rightarrow> nat set" where
  "headers live = (\<lambda>x. fst x - 16) ` set live"

definition uinv :: "nat \<Rightarrow> umem \<Rightarrow> (nat \<times> u32) list \<Rightarrow> (nat \<Rightarrow> (nat \<times> u32) option) \<Rightarrow> bool" where
  "uinv lo s live w \<longleftrightarrow>
     uheap s lo (headers live) \<and> distinct (map fst live) \<and>
     (\<forall>x\<in>set live. 16 \<le> fst x \<and> unat (snd x) + 16 \<le> 16 * unat (hsize s (fst x - 16))) \<and>
     (\<forall>c p z. own_cell live c \<longrightarrow> w c = Some (p, z) \<longrightarrow> hptr s c = p \<and> hsize s c = z)"

lemma uinvD:
  assumes "uinv lo s live w"
  shows "uheap s lo (headers live)" "distinct (map fst live)" "x \<in> set live \<Longrightarrow> 16 \<le> fst x"
    "x \<in> set live \<Longrightarrow> unat (snd x) + 16 \<le> 16 * unat (hsize s (fst x - 16))"
    "own_cell live c \<Longrightarrow> w c = Some (p, z) \<Longrightarrow> hptr s c = p \<and> hsize s c = z"
  using assms by (auto simp: uinv_def)

lemma own_live:
  assumes "uinv lo s live w" and "own_cell live c"
  shows "\<exists>x\<in>set live. fst x \<le> c \<and> c < ends s (fst x - 16)" "c \<in> live_cells s (headers live)"
proof -
  obtain x where x: "x \<in> set live" "fst x \<le> c" "c + 16 \<le> fst x + unat (snd x)" using assms(2) by (auto simp: own_cell_def list_ex_iff)
  have "c < ends s (fst x - 16)" using uinvD(3,4) [OF assms(1) x(1)] x by (simp add: ends_def)
  then have e: "c \<in> {fst x - 16..<ends s (fst x - 16)}" using x(2) by simp
  then show "\<exists>x\<in>set live. fst x \<le> c \<and> c < ends s (fst x - 16)" using x by auto
  show "c \<in> live_cells s (headers live)" using e x(1) unfolding live_cells_def headers_def by blast
qed

lemma header_cell:
  assumes "x \<in> set live" and "unat (snd x) + 16 \<le> 16 * unat (hsize s (fst x - 16))"
  shows "fst x - 16 \<in> live_cells s (headers live)"
proof -
  have "fst x - 16 \<in> {fst x - 16..<ends s (fst x - 16)}" using assms(2) by (simp add: ends_def)
  then show ?thesis using assms(1) unfolding live_cells_def headers_def by blast
qed

lemmas header_live = header_cell [OF _ uinvD(4)]

lemma uinv_heap:
  assumes "uinv lo s live w" and "live \<noteq> []"
  obtains L where "heap_le s lo L (headers live)" "merged s L" "freep s \<noteq> 0"
  using uinvD(1) [OF assms(1)] assms(2) by (cases live) (auto simp: uheap_def headers_def split: if_splits)

lemma headers_inj:
  assumes "uinv lo s live w" and "x \<in> set live" and "y \<in> set live" and "fst x - 16 = fst y - 16"
  shows "x = y"
proof -
  have "fst x = fst y" using uinvD(3) [OF assms(1,2)] uinvD(3) [OF assms(1,3)] assms(4) by linarith
  then show ?thesis using uinvD(2) [OF assms(1)] assms(2,3) by (metis eq_key_imp_eq_value prod.collapse)
qed

lemma uinv_write:
  assumes "uinv lo s live w" and "own_cell live c"
  shows "uinv lo (s\<lparr>hptr := (hptr s)(c := p), hsize := (hsize s)(c := z)\<rparr>) live (w(c \<mapsto> (p, z)))"
proof -
  let ?s = "s\<lparr>hptr := (hptr s)(c := p), hsize := (hsize s)(c := z)\<rparr>"
  obtain x where x: "x \<in> set live" "fst x \<le> c" "c < ends s (fst x - 16)" using own_live(1) [OF assms] by blast
  have ne: "live \<noteq> []" using x(1) by auto
  obtain L where L: "heap_le s lo L (headers live)" "merged s L" "freep s \<noteq> 0" using uinv_heap [OF assms(1) ne] by blast
  note h = heap_leD [OF L(1)]
  have cL: "c \<notin> set L" using live_apart(1) [OF L(1) own_live(2) [OF assms]] by blast
  have cb: "c \<noteq> base s" using cL heap_base(1) [OF L(1)] by auto
  have cH: "c \<notin> headers live"
  proof
    assume "c \<in> headers live"
    then have "c \<in> blocks s L (headers live)" "fst x - 16 \<in> blocks s L (headers live)" using x(1) by (auto simp: blocks_def headers_def)
    moreover have "fst x - 16 < c" using uinvD(3) [OF assms(1) x(1)] x(2) by simp
    ultimately show False using tilesD(2) [OF h(11)] x(3) by fastforce
  qed
  have e: "ends ?s a = ends s a" if "a \<noteq> c" for a using that by (simp add: ends_def)
  have "tiles (ends ?s) (blocks s L (headers live)) lo (brk s)" using cL cH by (intro tiles_cong [OF h(11)] e) (auto simp: blocks_def)
  moreover have "blocks ?s = blocks s" by (simp add: blocks_def fun_eq_iff)
  ultimately have "heap_le ?s lo L (headers live)" using h cL cb unfolding heap_le_def by (simp add: path_upd)
  moreover have "sorted_wrt (\<lambda>a b. ends ?s a < b) L"
    using L(2) unfolding merged_def by (rule sorted_wrt_mono_rel [rotated]) (use e cL in metis)
  ultimately have "uheap ?s lo (headers live)" using L(3) by (auto simp: uheap_def merged_def)
  moreover have "hsize ?s (fst y - 16) = hsize s (fst y - 16)" if "y \<in> set live" for y using that cH by (auto simp: headers_def)
  ultimately show ?thesis using uinvD [OF assms(1)] unfolding uinv_def by (auto split: if_splits)
qed

lemma uinv_free:
  assumes "uinv lo s live w" and "x \<in> set live"
  shows "\<exists>s'. free (fst x) s = Some s' \<and> uinv lo s' (filter (\<lambda>y. fst y \<noteq> fst x) live) w"
proof -
  let ?b = "fst x - 16" and ?live = "filter (\<lambda>y. fst y \<noteq> fst x) live"
  have ne: "live \<noteq> []" using assms(2) by auto
  obtain L where L: "heap_le s lo L (headers live)" "merged s L" "freep s \<noteq> 0" using uinv_heap [OF assms(1) ne] by blast
  have h: "headers live = insert ?b (headers ?live)" "?b \<notin> headers ?live"
  proof -
    show "headers live = insert ?b (headers ?live)" using assms(2) by (auto simp: headers_def)
    show "?b \<notin> headers ?live" using headers_inj [OF assms(1,2)] by (auto simp: headers_def)
  qed
  have fx: "?b + 16 = fst x" using uinvD(3) [OF assms] by simp
  obtain s' L' where f: "free (fst x) s = Some s'" "heap_le s' lo L' (headers ?live)" "merged s' L'" "cells_kept s s' (- insert ?b (set L))"
    using free_correct [OF L(1) [unfolded h(1)] h(2) L(2)] unfolding fx by blast
  have "freep s' \<noteq> 0" using heap_base(3) [OF f(2) heap_leD(3) [OF f(2)]] heap_leD(7) [OF f(2)] by linarith
  then have u: "uheap s' lo (headers ?live)" using f(2,3) by (auto simp: uheap_def)
  have out: "c \<notin> insert ?b (set L)" if cl: "c \<in> live_cells s (headers ?live)" for c
  proof -
    have "c \<in> live_cells s (headers live)" using cl h(1) by (auto simp: live_cells_def)
    then have "c \<notin> set L" using live_apart(1) [OF L(1)] by blast
    moreover have "c \<noteq> ?b"
    proof
      assume c: "c = ?b"
      obtain y where y: "y \<in> headers ?live" "y \<le> ?b" "?b < ends s y" using cl c by (auto simp: live_cells_def)
      have "y \<in> blocks s L (headers live)" "?b \<in> blocks s L (headers live)" using y(1) h(1) by (auto simp: blocks_def)
      moreover have "y < ?b" using y h(2) by (metis le_neq_implies_less)
      ultimately show False using tilesD(2) [OF heap_leD(11) [OF L(1)]] y(3) by fastforce
    qed
    ultimately show ?thesis by simp
  qed
  then have kept: "hptr s' c = hptr s c \<and> hsize s' c = hsize s c" if "c \<in> live_cells s (headers ?live)" for c
    using f(4) that unfolding cells_kept_def by blast
  have hd_in: "fst y - 16 \<in> live_cells s (headers ?live)" if "y \<in> set ?live" for y
    using that uinvD(4) [OF assms(1), of y] by (intro header_cell) auto
  have own_in: "own_cell live c \<and> c \<in> live_cells s (headers ?live)" if "own_cell ?live c" for c
  proof -
    obtain y where y: "y \<in> set ?live" "fst y \<le> c" "c + 16 \<le> fst y + unat (snd y)" using \<open>own_cell ?live c\<close> by (auto simp: own_cell_def list_ex_iff)
    have "c \<in> {fst y - 16..<ends s (fst y - 16)}" using uinvD(3,4) [OF assms(1), of y] y by (auto simp: ends_def)
    then have "c \<in> live_cells s (headers ?live)" using y(1) unfolding live_cells_def headers_def by blast
    moreover have "own_cell live c" using y by (auto simp: own_cell_def list_ex_iff)
    ultimately show ?thesis by blast
  qed
  have "uinv lo s' ?live w"
    unfolding uinv_def
  proof (intro conjI ballI allI impI)
    show "distinct (map fst ?live)" using uinvD(2) [OF assms(1)] by (simp add: distinct_map_filter)
  next
    fix y assume y: "y \<in> set ?live"
    show "16 \<le> fst y" using uinvD(3) [OF assms(1)] y by simp
    show "unat (snd y) + 16 \<le> 16 * unat (hsize s' (fst y - 16))" using uinvD(4) [OF assms(1), of y] kept [OF hd_in [OF y]] y by simp
  next
    fix c p z assume c: "own_cell ?live c" "w c = Some (p, z)"
    have o: "own_cell live c" "c \<in> live_cells s (headers ?live)" using own_in [OF c(1)] by blast+
    show "hptr s' c = p" "hsize s' c = z" using uinvD(5) [OF assms(1) o(1) c(2)] kept [OF o(2)] by simp_all
  qed (rule u)
  then show ?thesis using f(1) by blast
qed

lemma uinv_kept:
  assumes "uinv lo s live w" and "cells_kept s s' (live_cells s (headers live))"
  shows "x \<in> set live \<Longrightarrow> hsize s' (fst x - 16) = hsize s (fst x - 16)" "own_cell live c \<Longrightarrow> hptr s' c = hptr s c \<and> hsize s' c = hsize s c"
  using assms(2) header_live [OF _ assms(1)] own_live(2) [OF assms(1)] unfolding cells_kept_def by blast+

lemma uinv_malloc:
  assumes "uinv lo s live w" and "unat n + 32 \<le> 2 ^ 31" and "sbrk_bounded grow"
  shows "\<exists>a s'. malloc grow n s = Some (a, s') \<and>
    (if a = 0 then uinv lo s' live w else uinv lo s' ((a, n) # live) (\<lambda>c. if a \<le> c \<and> c < a + unat n then None else w c))"
proof -
  obtain a s' where m: "malloc grow n s = Some (a, s')"
      "if a = 0 then uheap s' lo (headers live) \<and> hptr s' = (hptr s)(base s := hptr s' (base s)) \<and>
         hsize s' = (hsize s)(base s := hsize s' (base s)) \<and> base s' = base s \<and> \<not> grow (brk s) (int (16 * core_units (units n)))
       else 16 \<le> a \<and> uheap s' lo (insert (a - 16) (headers live)) \<and> taken s lo (headers live) (units n) (a - 16) s'"
    using malloc_correct [OF uinvD(1) [OF assms(1)] assms(2,3)] by blast
  note D = uinvD [OF assms(1)]
  show ?thesis
  proof (cases "a = 0")
    case True
    then have t: "uheap s' lo (headers live)" "hptr s' = (hptr s)(base s := hptr s' (base s))" "hsize s' = (hsize s)(base s := hsize s' (base s))"
      using m(2) by simp_all
    have nb: "c \<noteq> base s" if "c \<in> live_cells s (headers live)" for c
    proof -
      have "live \<noteq> []" using \<open>c \<in> live_cells s (headers live)\<close> by (auto simp: live_cells_def headers_def)
      then obtain L where "heap_le s lo L (headers live)" using uinv_heap [OF assms(1)] by blast
      then show ?thesis using live_apart(1) \<open>c \<in> live_cells s (headers live)\<close> heap_base(1) by blast
    qed
    have "hptr s' c = hptr s c \<and> hsize s' c = hsize s c" if "c \<noteq> base s" for c
      using fun_cong [OF t(2), of c] fun_cong [OF t(3), of c] that by simp
    then have "cells_kept s s' (live_cells s (headers live))" using nb by (auto simp: cells_kept_def)
    note k = uinv_kept [OF assms(1) this]
    have "uinv lo s' live w" unfolding uinv_def using t(1) D k by auto
    then show ?thesis using m(1) True by (intro exI [of _ a] exI [of _ s']) simp
  next
    case False
    then have t: "16 \<le> a" "uheap s' lo (insert (a - 16) (headers live))" "a - 16 \<notin> headers live" "hsize s' (a - 16) = units n"
        "cells_kept s s' (live_cells s (headers live))"
      using m(2) by (simp_all add: taken_def)
    note k = uinv_kept [OF assms(1) t(5)]
    let ?w = "\<lambda>c. if a \<le> c \<and> c < a + unat n then None else w c"
    have "uinv lo s' ((a, n) # live) ?w"
      unfolding uinv_def
    proof (intro conjI ballI allI impI)
      show "uheap s' lo (headers ((a, n) # live))" using t(2) by (simp add: headers_def)
      have "a \<notin> fst ` set live" using t(3) by (auto simp: headers_def)
      then show "distinct (map fst ((a, n) # live))" using D(2) by simp
    next
      fix y assume y: "y \<in> set ((a, n) # live)"
      show "16 \<le> fst y" using y t(1) D(3) [of y] by auto
      show "unat (snd y) + 16 \<le> 16 * unat (hsize s' (fst y - 16))" using y t(4) units_room_for(2) [of n] D(4) [of y] k(1) [of y] by auto
    next
      fix c p z assume c: "own_cell ((a, n) # live) c" "?w c = Some (p, z)"
      have "\<not> (a \<le> c \<and> c < a + unat n)" and w: "w c = Some (p, z)" using c(2) by (auto split: if_splits)
      then have o: "own_cell live c" using c(1) by (auto simp: own_cell_def)
      show "hptr s' c = p" "hsize s' c = z" using D(5) [OF o w] k(2) [OF o] by simp_all
    qed
    then show ?thesis using m(1) False by (intro exI [of _ a] exI [of _ s']) simp
  qed
qed

fun op_ok :: "uop \<Rightarrow> bool" where
  "op_ok (UMalloc n) \<longleftrightarrow> unat n + 32 \<le> 2 ^ 31"
| "op_ok _ \<longleftrightarrow> True"

lemma urun_inv:
  assumes "uinv lo s live w" and "sbrk_bounded grow" and "\<forall>op\<in>set ops. op_ok op"
  shows "\<exists>s' live' w'. urun grow ops s live w = Some (s', live', w') \<and> uinv lo s' live' w'"
  using assms
proof (induction ops arbitrary: s live w)
  case (Cons op ops)
  show ?case
  proof (cases op)
    case (UMalloc n)
    then have n: "unat n + 32 \<le> 2 ^ 31" using Cons.prems(3) by simp
    obtain a s' where a: "malloc grow n s = Some (a, s')"
        "if a = 0 then uinv lo s' live w else uinv lo s' ((a, n) # live) (\<lambda>c. if a \<le> c \<and> c < a + unat n then None else w c)"
      using uinv_malloc [OF Cons.prems(1) n Cons.prems(2)] by blast
    show ?thesis using Cons.IH [OF _ Cons.prems(2)] Cons.prems(3) a UMalloc by (cases "a = 0") simp_all
  next
    case (UFree a)
    show ?thesis
    proof (cases "list_ex (\<lambda>x. fst x = a) live")
      case True
      then obtain x where "x \<in> set live" "fst x = a" by (auto simp: list_ex_iff)
      then obtain s' where "free a s = Some s'" "uinv lo s' (filter (\<lambda>y. fst y \<noteq> a) live) w" using uinv_free [OF Cons.prems(1)] by blast
      then show ?thesis using Cons.IH [OF _ Cons.prems(2)] Cons.prems(3) UFree True by simp
    next
      case False
      then show ?thesis using Cons.IH [OF Cons.prems(1,2)] Cons.prems(3) UFree by simp
    qed
  next
    case (UWrite c p z)
    show ?thesis
    proof (cases "own_cell live c")
      case True
      then show ?thesis
        using Cons.IH [OF uinv_write [OF Cons.prems(1) True, where p = p and z = z] Cons.prems(2)] Cons.prems(3) UWrite by (simp del: fun_upd_apply)
    next
      case False
      then show ?thesis using Cons.IH [OF Cons.prems(1,2)] Cons.prems(3) UWrite by simp
    qed
  qed
qed auto

lemma live_block:
  assumes "uinv lo s live w" and "x \<in> set live"
  shows "16 dvd fst x" "lo \<le> fst x" "fst x + unat (snd x) \<le> brk s"
    "y \<in> set live \<Longrightarrow> x \<noteq> y \<Longrightarrow> fst x + unat (snd x) \<le> fst y \<or> fst y + unat (snd y) \<le> fst x"
proof -
  have ne: "live \<noteq> []" using assms(2) by auto
  obtain L where L: "heap_le s lo L (headers live)" using uinv_heap [OF assms(1) ne] by blast
  note h = heap_leD [OF L]
  have b: "fst y - 16 \<in> blocks s L (headers live)" "16 \<le> fst y" "fst y + unat (snd y) \<le> ends s (fst y - 16)" if "y \<in> set live" for y
    using that uinvD(3,4) [OF assms(1) that] by (auto simp: blocks_def headers_def ends_def)
  note x = b [OF assms(2)]
  have t: "lo \<le> fst x - 16" "ends s (fst x - 16) \<le> brk s" using tiles_in [OF h(11) x(1)] by blast+
  have "16 dvd fst x - 16" using h(13) x(1) by blast
  then show "16 dvd fst x" using x(2) by (simp add: dvd_minus_self)
  show "lo \<le> fst x" "fst x + unat (snd x) \<le> brk s" using t x(2,3) by linarith+
  assume y: "y \<in> set live" "x \<noteq> y"
  have "fst x - 16 \<noteq> fst y - 16" using headers_inj [OF assms y(1)] y(2) by blast
  then have "ends s (fst x - 16) \<le> fst y - 16 \<or> ends s (fst y - 16) \<le> fst x - 16" using tiles_apart [OF h(11) x(1) b(1) [OF y(1)]] by blast
  then show "fst x + unat (snd x) \<le> fst y \<or> fst y + unat (snd y) \<le> fst x" using x(3) b(3) [OF y(1)] by linarith
qed

section \<open>Properties\<close>

text \<open>C4: malloc and free never hand out memory twice. Whatever sequence of calls a program makes from its start, freeing
  only pointers it holds, writing anything into the bytes it asked for, and asking for less than 2 GB at a time, every
  call returns, whether or not the kernel grants more memory. Then every pointer held is aligned and its bytes lie
  between the initial and the current break, no two of them overlap, what the program wrote to its bytes is still
  there, and the free list is the ring of all free blocks in the order of their addresses, no two of them adjacent,
  which together with the live blocks tile the heap, so that no memory is lost.
\<close>

theorem umalloc_exclusive:
  assumes "freep s = 0" and "base s \<noteq> 0" and "base s + 16 \<le> brk s" and "brk s \<le> 2 ^ 36" and "16 dvd brk s"
    and "sbrk_bounded grow" and "\<forall>op\<in>set ops. op_ok op"
  shows "\<exists>s' live w. urun grow ops s [] (\<lambda>_. None) = Some (s', live, w) \<and>
    (\<forall>x\<in>set live. 16 dvd fst x \<and> brk s \<le> fst x \<and> fst x + unat (snd x) \<le> brk s') \<and>
    (\<forall>x\<in>set live. \<forall>y\<in>set live. x \<noteq> y \<longrightarrow> fst x + unat (snd x) \<le> fst y \<or> fst y + unat (snd y) \<le> fst x) \<and>
    (\<forall>c p z. own_cell live c \<longrightarrow> w c = Some (p, z) \<longrightarrow> hptr s' c = p \<and> hsize s' c = z) \<and>
    uheap s' (brk s) (headers live)"
proof -
  have "uinv (brk s) s [] (\<lambda>_. None)" using assms(1-5) by (simp add: uinv_def uheap_def headers_def)
  then obtain s' live w where r: "urun grow ops s [] (\<lambda>_. None) = Some (s', live, w)" and i: "uinv (brk s) s' live w"
    using urun_inv assms(6,7) by blast
  show ?thesis using r live_block [OF i] uinvD(1,5) [OF i] by blast
qed

theorem umalloc_exclusive_witness:
  "\<exists>s' live w. urun (\<lambda>b n. int b + n \<le> 2 ^ 27) [UMalloc 20, UMalloc 100, UWrite 73760 7 9, UFree 73760, UMalloc 60000]
      \<lparr>hptr = (\<lambda>_. 0), hsize = (\<lambda>_. 0), base = 4096, freep = 0, brk = 12288\<rparr> [] (\<lambda>_. None) = Some (s', live, w) \<and>
    (\<forall>x\<in>set live. \<forall>y\<in>set live. x \<noteq> y \<longrightarrow> fst x + unat (snd x) \<le> fst y \<or> fst y + unat (snd y) \<le> fst x)"
proof -
  have "sbrk_bounded (\<lambda>b n. int b + n \<le> 2 ^ 27)" by (simp add: sbrk_bounded_def)
  then show ?thesis
    using umalloc_exclusive [of "\<lparr>hptr = (\<lambda>_. 0), hsize = (\<lambda>_. 0), base = 4096, freep = 0, brk = 12288\<rparr>" "\<lambda>b n. int b + n \<le> 2 ^ 27"
        "[UMalloc 20, UMalloc 100, UWrite 73760 7 9, UFree 73760, UMalloc 60000]"]
    by auto
qed



end
