(* ===== verification/Fs_Tx.thy ===== *)
theory Fs_Tx
  imports Boot_State
begin

text \<open>
  The file system inside a transaction of one process. In a quiet state the process holds exactly the buffers of
  the blocks in a set \<open>H\<close>, a buffer is referenced by its holder and by the log only, and a block that is not logged has its
  contents on disk. The reads and updates of blocks that fs.c is made of are described on the contents of blocks.
\<close>

section \<open>Quiet states\<close>

abbreviation logged_set :: "'z lmach_scheme \<Rightarrow> u32 set" where
  "logged_set s \<equiv> set (logged_blocks s)"

definition in_tx :: "nat \<Rightarrow> u32 set \<Rightarrow> 'z lmach_scheme \<Rightarrow> bool" where
  "in_tx p H s \<longleftrightarrow>
     calm p s \<and> cinv s \<and> finite H \<and> blocked s = (\<lambda>n. n \<in> H) \<and>
     refs s = (\<lambda>n. of_bool (n \<in> logged_set s) + of_bool (n \<in> H)) \<and>
     (\<forall>n. n \<notin> logged_set s \<longrightarrow> content s n = disk s (unat n)) \<and>
     1 \<le> log_outstanding (lg s) \<and> 0 \<le> lh_n (log_lh (lg s)) \<and> length (lh_block (log_lh (lg s))) = LOGSIZE"

definition tx_room :: "'z lmach_scheme \<Rightarrow> nat \<Rightarrow> bool" where
  "tx_room s k \<longleftrightarrow> lh_n (log_lh (lg s)) + int k \<le> int LOGSIZE \<and> lh_n (log_lh (lg s)) + int k \<le> log_size (lg s) - 1"

definition buf_room :: "u32 set \<Rightarrow> 'z lmach_scheme \<Rightarrow> nat \<Rightarrow> bool" where
  "buf_room H s k \<longleftrightarrow> nlog s + card H + k \<le> NBUF"

text \<open>A step that records at most \<open>k\<close> new blocks and keeps what the process holds.\<close>

definition fsteps :: "nat \<Rightarrow> u32 set \<Rightarrow> nat \<Rightarrow> 'z lmach_scheme \<Rightarrow> 'z lmach_scheme \<Rightarrow> bool" where
  "fsteps p H k s t \<longleftrightarrow>
     in_tx p H t \<and> same_mach s t \<and> vd t = vd s \<and> lmach.more t = lmach.more s \<and> disk t = disk s \<and>
     lh_n (log_lh (lg t)) \<le> lh_n (log_lh (lg s)) + int k \<and> log_size (lg t) = log_size (lg s) \<and>
     logged_set s \<subseteq> logged_set t \<and> (\<forall>c m. m \<in> H \<longrightarrow> owned p s c m \<longrightarrow> owned p t c m)"

lemma in_txD:
  assumes "in_tx p H s"
  shows "calm p s" "cinv s" "finite H" "blocked s = (\<lambda>n. n \<in> H)" "refs s = (\<lambda>n. of_bool (n \<in> logged_set s) + of_bool (n \<in> H))"
    "n \<notin> logged_set s \<Longrightarrow> content s n = disk s (unat n)" "1 \<le> log_outstanding (lg s)" "0 \<le> lh_n (log_lh (lg s))"
    "length (lh_block (log_lh (lg s))) = LOGSIZE"
  using assms by (simp_all add: in_tx_def)

lemma fsteps_in_tx: "fsteps p H k s t \<Longrightarrow> in_tx p H t"
  by (simp add: fsteps_def)

lemma fsteps_refl: "in_tx p H s \<Longrightarrow> fsteps p H 0 s s"
  by (auto simp: fsteps_def)

lemma fsteps_trans: "fsteps p H k s t \<Longrightarrow> fsteps p H l t u \<Longrightarrow> fsteps p H (k + l) s u"
  unfolding fsteps_def by (auto intro: same_mach_trans)

lemma fsteps_mono: "fsteps p H k s t \<Longrightarrow> k \<le> l \<Longrightarrow> fsteps p H l s t"
  unfolding fsteps_def by auto

lemma fsteps_fs:
  fixes s :: "'z fmach_scheme" and t :: "'z fmach_scheme"
  assumes "fsteps p H k s t"
  shows "sb t = sb s" "icache t = icache s" "fmach.more t = fmach.more s"
  using assms by (cases s, cases t, simp add: fsteps_def)+

lemma tx_room_steps: "fsteps p H k s t \<Longrightarrow> tx_room s (k + l) \<Longrightarrow> tx_room t l"
  by (auto simp: fsteps_def tx_room_def)

lemma buf_room_steps: "fsteps p H k s t \<Longrightarrow> buf_room H s (k + l) \<Longrightarrow> buf_room H t l"
  by (auto simp: fsteps_def buf_room_def nlog_def)

lemma tx_room_mono: "tx_room s k \<Longrightarrow> l \<le> k \<Longrightarrow> tx_room s l"
  by (auto simp: tx_room_def)

lemma buf_room_mono: "buf_room H s k \<Longrightarrow> l \<le> k \<Longrightarrow> buf_room H s l"
  by (auto simp: buf_room_def)

lemma logged_card: "card (logged_set s) \<le> nlog s"
  unfolding logged_blocks_def by (rule order_trans [OF card_length]) simp

lemma in_tx_inuse:
  assumes "in_tx p H s"
  shows "card {n. refs s n \<noteq> 0} \<le> nlog s + card H"
proof -
  have "{n. refs s n \<noteq> 0} = logged_set s \<union> H" unfolding in_txD(5) [OF assms] by auto
  then show ?thesis using card_Un_le [of "logged_set s" H] logged_card [of s] by simp
qed

lemma bstate_logged: "bstate s t \<Longrightarrow> logged_set t = logged_set s"
  for s :: "'z lmach_scheme" and t :: "'z lmach_scheme"
  by (simp add: logged_blocks_def nlog_def lg_bstate)

section \<open>Reading, releasing and updating blocks\<close>

lemma in_tx_bread:
  fixes s :: "'z lmach_scheme"
  assumes "in_tx p H s" and "n \<notin> H" and "unat n < 2 ^ 31" and "buf_room H s 1"
  shows "\<exists>b t. bread rdev n s = Ok b t \<and> in_tx p (insert n H) t \<and> owned p t b n \<and> b_data (bufs t b) = content s n \<and>
    bstate s t \<and> content t = content s \<and> disk t = disk s \<and> (\<forall>c m. owned p s c m \<longrightarrow> owned p t c m)"
proof -
  note q = in_txD [OF assms(1)]
  have "readable s n"
    using assms(2-4) in_tx_inuse [OF assms(1)] unfolding readable_def q(4,5) by (auto simp: buf_room_def)
  then obtain b t where t: "bread rdev n s = Ok b t" "bstate s t" "owned p t b n" "refs t = (refs s)(n := refs s n + 1)"
      "blocked t = (blocked s)(n := True)" "content t = content s" "disk t = disk s" "\<forall>c m. owned p s c m \<longrightarrow> owned p t c m \<and> m \<noteq> n"
    using bread_abs [OF q(1,2)] by blast
  have "refs t = (\<lambda>m. of_bool (m \<in> logged_set t) + of_bool (m \<in> insert n H))"
    using assms(2) unfolding t(4) q(5) bstate_logged [OF t(2)] by (auto simp: fun_eq_iff)
  moreover have "blocked t = (\<lambda>m. m \<in> insert n H)" unfolding t(5) q(4) by (auto simp: fun_eq_iff)
  ultimately have "in_tx p (insert n H) t"
    using q bstate_calm [OF t(2)] bstate_cinv [OF t(2)] lg_bstate(1) [OF t(2)]
    unfolding in_tx_def t(6,7) bstate_logged [OF t(2)] by simp
  moreover have "b_data (bufs t b) = content s n" using owned_content [OF bstate_cinv [OF t(2)] t(3)] t(6) by simp
  ultimately show ?thesis using t by blast
qed

lemma in_tx_brelse:
  fixes s :: "'z lmach_scheme"
  assumes "in_tx p (insert n H) s" and "n \<notin> H" and "owned p s b n"
  shows "\<exists>t. brelse b s = Ok () t \<and> in_tx p H t \<and> bstate s t \<and> content t = content s \<and> disk t = disk s \<and>
    (\<forall>c m. owned p s c m \<and> m \<noteq> n \<longrightarrow> owned p t c m)"
proof -
  note q = in_txD [OF assms(1)]
  have "disk s (unat n) = content s n" if "refs s n = 1"
    using that q(6) [of n] unfolding q(5) by (auto split: if_splits)
  then obtain t where t: "brelse b s = Ok () t" "bstate s t" "refs t = (refs s)(n := refs s n - 1)" "blocked t = (blocked s)(n := False)"
      "content t = content s" "disk t = disk s" "\<forall>c m. owned p s c m \<and> m \<noteq> n \<longrightarrow> owned p t c m"
    using brelse_abs [OF q(1,2) assms(3)] by blast
  have "refs t = (\<lambda>m. of_bool (m \<in> logged_set t) + of_bool (m \<in> H))"
    using assms(2) unfolding t(3) q(5) bstate_logged [OF t(2)] by (auto simp: fun_eq_iff)
  moreover have "blocked t = (\<lambda>m. m \<in> H)" using assms(2) unfolding t(4) q(4) by (auto simp: fun_eq_iff)
  ultimately have "in_tx p H t"
    using q bstate_calm [OF t(2)] bstate_cinv [OF t(2)] lg_bstate(1) [OF t(2)]
    unfolding in_tx_def t(5,6) bstate_logged [OF t(2)] by simp
  then show ?thesis using t by blast
qed

lemma tx_room_open: "in_tx p H s \<Longrightarrow> tx_room s 1 \<Longrightarrow> tx_open s"
  using in_txD(7-9) by (auto simp: tx_open_def tx_room_def)

lemma record_block_lg:
  assumes "tx_open s" and "lg t = record_block n (lg s)"
  shows "log_outstanding (lg t) = log_outstanding (lg s)" "log_size (lg t) = log_size (lg s)" "lh_n (log_lh (lg s)) \<le> lh_n (log_lh (lg t))"
    "lh_n (log_lh (lg t)) \<le> lh_n (log_lh (lg s)) + 1" "length (lh_block (log_lh (lg t))) = length (lh_block (log_lh (lg s)))"
  using assms(2) by (simp_all add: record_block_def Let_def)

lemma in_tx_update:
  fixes s :: "'z lmach_scheme"
  assumes "in_tx p H s" and "n \<in> H" and "owned p s b n" and "length d = BSIZE" and "tx_room s 1"
  shows "\<exists>t. log_write b (set_data b d s) = Ok () t \<and> fsteps p H 1 s t \<and> content t = (content s)(n := d) \<and>
    logged_set t = insert n (logged_set s)"
proof -
  note q = in_txD [OF assms(1)]
  define v where "v = set_data b d s"
  note d = set_data_abs [OF q(2) assms(3,4), folded set_data_def, folded v_def]
  have lv: "lg v = lg s" "logged_blocks v = logged_blocks s" by (simp_all add: v_def set_data_def set_buf_def logged_blocks_def nlog_def)
  have v: "calm p v" "cinv v" "owned p v b n" using bstate_calm [OF d(1) q(1)] bstate_cinv [OF d(1)] d(7) assms(3) by auto
  have tx: "tx_open v" using tx_room_open [OF assms(1,5)] by (simp add: tx_open_def lv)
  have "refs v n < 2 ^ 32 - 1" unfolding d(2) q(5) by simp
  then obtain t where t: "log_write b v = Ok () t" "bstate (set_lg (record_block n) v) t" "blocked t = blocked v" "content t = content v"
      "disk t = disk v" "\<forall>c m. owned p v c m \<longrightarrow> owned p t c m" "refs t = (if n \<in> logged_set v then refs v else (refs v)(n := refs v n + 1))"
    using log_write_ok [OF v tx] by blast
  have lt: "lg t = record_block n (lg v)" using lg_bstate(1) [OF t(2)] by simp
  have ls: "logged_set t = insert n (logged_set s)" using logged_blocks_record [OF tx lt] lv(2) by auto
  note r = record_block_lg [OF tx lt, unfolded lv(1)]
  have "refs t = (\<lambda>m. of_bool (m \<in> logged_set t) + of_bool (m \<in> H))"
    unfolding t(7) ls d(2) lv(2) q(5) by (auto simp: fun_eq_iff)
  moreover have "blocked t = (\<lambda>m. m \<in> H)" unfolding t(3) d(3) q(4) ..
  moreover have "content t m = disk t (unat m)" if "m \<notin> logged_set t" for m
    using that q(6) [of m] unfolding t(4,5) d(4,5) ls by simp
  moreover have "calm p t" "cinv t" using bstate_calm [OF t(2)] bstate_cinv [OF t(2)] v by simp_all
  ultimately have "in_tx p H t" using q r unfolding in_tx_def by simp
  moreover have "same_mach v t" "vd t = vd v" "lmach.more t = lmach.more v"
    using t(2) lg_bstate(2) [OF t(2)] by (simp_all add: bstate_def set_lg_def same_mach_def)
  moreover have "same_mach s v" "vd v = vd s" "lmach.more v = lmach.more s"
    using d(1) lg_bstate(2) [OF d(1)] by (simp_all add: bstate_def)
  ultimately have "fsteps p H 1 s t"
    using t(5,6) d(5,7) r ls same_mach_trans [of s v t] unfolding fsteps_def by auto
  then show ?thesis using t(1,4) d(4) ls by (simp add: v_def)
qed

lemma bstate_fsteps:
  fixes s :: "'z lmach_scheme"
  assumes "bstate s t" and "in_tx p H t" and "disk t = disk s" and "\<And>c m. m \<in> H \<Longrightarrow> owned p s c m \<Longrightarrow> owned p t c m"
  shows "fsteps p H 0 s t"
  using assms lg_bstate [OF assms(1)] bstate_logged [OF assms(1)] unfolding fsteps_def by (simp add: bstate_def)

text \<open>The two patterns of fs.c: read a block and release it, and read a block, change it and release it.\<close>

lemma read_block:
  fixes s :: "'z lmach_scheme"
  assumes "in_tx p H s" and "n \<notin> H" and "unat n < 2 ^ 31" and "buf_room H s 1"
  shows "\<exists>b t u. bread rdev n s = Ok b t \<and> b_data (bufs t b) = content s n \<and> bstate s t \<and> calm p t \<and> brelse b t = Ok () u \<and>
    fsteps p H 0 s u \<and> content u = content s"
proof -
  obtain b t where t: "bread rdev n s = Ok b t" "in_tx p (insert n H) t" "owned p t b n" "b_data (bufs t b) = content s n"
      "bstate s t" "content t = content s" "disk t = disk s" "\<forall>c m. owned p s c m \<longrightarrow> owned p t c m"
    using in_tx_bread [OF assms] by blast
  obtain u where u: "brelse b t = Ok () u" "in_tx p H u" "bstate t u" "content u = content t" "disk u = disk t"
      "\<forall>c m. owned p t c m \<and> m \<noteq> n \<longrightarrow> owned p u c m"
    using in_tx_brelse [OF t(2) assms(2) t(3)] by blast
  have "fsteps p H 0 s u"
    using t(7,8) u(5,6) assms(2) by (intro bstate_fsteps [OF bstate_trans [OF t(5) u(3)] u(2)]) auto
  then show ?thesis using t u in_txD(1) [OF t(2)] by auto
qed

lemma update_block:
  fixes s :: "'z lmach_scheme"
  assumes "in_tx p H s" and "n \<notin> H" and "unat n < 2 ^ 31" and "buf_room H s 2" and "tx_room s 1"
    and "length d = BSIZE"
  shows "\<exists>b t u v. bread rdev n s = Ok b t \<and> b_data (bufs t b) = content s n \<and> bstate s t \<and>
    log_write b (set_data b d t) = Ok () u \<and> brelse b u = Ok () v \<and> fsteps p H 1 s v \<and> content v = (content s)(n := d) \<and>
    logged_set v = insert n (logged_set s)"
proof -
  have "buf_room H s 1" using buf_room_mono [OF assms(4)] by simp
  then obtain b t where t: "bread rdev n s = Ok b t" "in_tx p (insert n H) t" "owned p t b n" "b_data (bufs t b) = content s n"
      "bstate s t" "content t = content s" "disk t = disk s" "\<forall>c m. owned p s c m \<longrightarrow> owned p t c m"
    using in_tx_bread [OF assms(1-3)] by blast
  have rt: "tx_room t 1" using assms(5) lg_bstate(1) [OF t(5)] by (simp add: tx_room_def)
  obtain u where u: "log_write b (set_data b d t) = Ok () u" "fsteps p (insert n H) 1 t u" "content u = (content t)(n := d)"
      "logged_set u = insert n (logged_set t)"
    using in_tx_update [OF t(2) _ t(3) assms(6) rt] by blast
  have "owned p u b n" using u(2) t(3) by (auto simp: fsteps_def)
  then obtain v where v: "brelse b u = Ok () v" "in_tx p H v" "bstate u v" "content v = content u" "disk v = disk u"
      "\<forall>c m. owned p u c m \<and> m \<noteq> n \<longrightarrow> owned p v c m"
    using in_tx_brelse [OF fsteps_in_tx [OF u(2)] assms(2)] by blast
  have own: "owned p v c m" if "m \<in> H" "owned p s c m" for c m
  proof -
    have "owned p u c m" using u(2) t(8) that unfolding fsteps_def by blast
    moreover have "m \<noteq> n" using that(1) assms(2) by auto
    ultimately show ?thesis using v(6) by blast
  qed
  have "fsteps p H 1 s v"
    using u(2) v(1-5) own t(7) lg_bstate [OF t(5)] lg_bstate [OF v(3)] bstate_logged [OF t(5)] bstate_logged [OF v(3)]
      same_mach_trans [of s t u] same_mach_trans [of s u v] t(5)
    unfolding fsteps_def by (auto simp: bstate_def)
  moreover have "logged_set v = insert n (logged_set s)" using u(4) bstate_logged [OF t(5)] bstate_logged [OF v(3)] by simp
  ultimately show ?thesis using t(1,4,5,6) u(1,3) v(1,4) by auto
qed

end
