(* ===== verification/Fs_Blocks.thy ===== *)
theory Fs_Blocks
  imports Fs_Tx
begin

text \<open>
  The free bitmap: balloc takes the first free block, marks it and clears it, bfree gives a block back. Inside a transaction
  both are described on the contents of the bitmap blocks.
\<close>

section \<open>The bitmap\<close>

definition fs_size :: "'z fmach_scheme \<Rightarrow> nat" where
  "fs_size s = unat (sb_size (sb s))"

definition bitmap_block :: "'z fmach_scheme \<Rightarrow> nat \<Rightarrow> u32" where
  "bitmap_block s b = BBLOCK (of_nat b) (sb s)"

definition used :: "'z fmach_scheme \<Rightarrow> nat \<Rightarrow> bool" where
  "used s b \<longleftrightarrow> content s (bitmap_block s b) ! (b mod BPB div 8) AND push_bit (b mod BPB mod 8) 1 \<noteq> 0"

definition bitmap_set :: "'z fmach_scheme \<Rightarrow> u32 set" where
  "bitmap_set s = bitmap_block s ` {..<fs_size s}"

text \<open>Block numbers do not wrap, and no bitmap block is free or held.\<close>

definition bitmap_ok :: "u32 set \<Rightarrow> 'z fmach_scheme \<Rightarrow> bool" where
  "bitmap_ok H s \<longleftrightarrow>
     fs_size s < 2 ^ 31 \<and> unat (sb_bmapstart (sb s)) + fs_size s div BPB < 2 ^ 31 \<and>
     bitmap_set s \<inter> H = {} \<and> (\<forall>b<fs_size s. \<not> used s b \<longrightarrow> of_nat b \<notin> H \<union> bitmap_set s)"

lemma BPB_val: "BPB = 8192" "BSIZE = 1024" "BPB div 8 = BSIZE"
  by (simp_all add: BPB_def BSIZE_def)

lemma unat_bitmap_block:
  assumes "bitmap_ok H s" and "b < fs_size s"
  shows "unat (bitmap_block s b) = b div BPB + unat (sb_bmapstart (sb s))" "unat (bitmap_block s b) < 2 ^ 31"
proof -
  have b: "b < 2 ^ 31" "unat (sb_bmapstart (sb s)) + fs_size s div BPB < 2 ^ 31" using assms by (auto simp: bitmap_ok_def)
  have le: "b div BPB \<le> fs_size s div BPB" using assms(2) by (intro div_le_mono) simp
  have "(of_nat b :: u32) div of_nat BPB = of_nat (b div BPB)"
    using b(1) by (intro word_unat_eq_iff [THEN iffD2]) (simp add: unat_div unat_of_nat BPB_val)
  then have "unat ((of_nat b :: u32) div of_nat BPB) = b div BPB"
    using le_less_trans [OF div_le_dividend [of b BPB], of "2 ^ 32"] b(1) by (simp add: unat_of_nat_small)
  then show e: "unat (bitmap_block s b) = b div BPB + unat (sb_bmapstart (sb s))"
    unfolding bitmap_block_def BBLOCK_def using b le by (subst unat_add_small) simp_all
  show "unat (bitmap_block s b) < 2 ^ 31" unfolding e using b le by simp
qed

lemma bitmap_block_eq:
  assumes "bitmap_ok H s" and "a < fs_size s" and "b < fs_size s"
  shows "bitmap_block s a = bitmap_block s b \<longleftrightarrow> a div BPB = b div BPB"
  using unat_bitmap_block(1) [OF assms(1,2)] unat_bitmap_block(1) [OF assms(1,3)]
  by (metis add_right_cancel word_unat_eq_iff)

lemma bitmap_same:
  assumes "sb t = sb s"
  shows "fs_size t = fs_size s" "bitmap_block t = bitmap_block s" "bitmap_set t = bitmap_set s"
  using assms by (simp_all add: fs_size_def bitmap_block_def bitmap_set_def fun_eq_iff)

lemma bit_test: "(w AND push_bit k 1 \<noteq> 0) = bit w k" for w :: "8 word"
  by (metis and_exp_eq_0_iff_not_bit push_bit_of_1)

lemma balloc_scan_None: "balloc_scan d bi n = None \<longleftrightarrow> (\<forall>j. bi \<le> j \<and> j < bi + n \<longrightarrow> bit (d ! (j div 8)) (j mod 8))"
proof (induction n arbitrary: bi)
  case (Suc n)
  show ?case
    using Suc [of "Suc bi"] bit_test [of "d ! (bi div 8)" "bi mod 8"]
    by (auto simp: less_Suc_eq_le Suc_le_eq) (metis le_neq_implies_less)
qed auto

lemma balloc_scan_Some:
  "balloc_scan d bi n = Some j \<longleftrightarrow>
     bi \<le> j \<and> j < bi + n \<and> \<not> bit (d ! (j div 8)) (j mod 8) \<and> (\<forall>i. bi \<le> i \<and> i < j \<longrightarrow> bit (d ! (i div 8)) (i mod 8))"
proof (induction n arbitrary: bi)
  case (Suc n)
  show ?case
  proof (cases "bit (d ! (bi div 8)) (bi mod 8)")
    case True
    then have "balloc_scan d bi (Suc n) = balloc_scan d (Suc bi) n" using bit_test [of "d ! (bi div 8)" "bi mod 8"] by simp
    then show ?thesis using Suc [of "Suc bi"] True by (auto simp: Suc_le_eq) (metis le_neq_implies_less)+
  next
    case False
    then have "balloc_scan d bi (Suc n) = Some bi" using bit_test [of "d ! (bi div 8)" "bi mod 8"] by simp
    then show ?thesis using False by auto
  qed
qed auto

definition mark :: "nat \<Rightarrow> byte list \<Rightarrow> byte list" where
  "mark bi d = d[bi div 8 := d ! (bi div 8) OR push_bit (bi mod 8) 1]"

definition clear :: "nat \<Rightarrow> byte list \<Rightarrow> byte list" where
  "clear bi d = d[bi div 8 := d ! (bi div 8) AND NOT (push_bit (bi mod 8) 1)]"

lemma bit_mark: "bi div 8 < length d \<Longrightarrow> bit (mark bi d ! (i div 8)) (i mod 8) \<longleftrightarrow> i = bi \<or> bit (d ! (i div 8)) (i mod 8)"
proof -
  assume l: "bi div 8 < length d"
  have "i mod 8 < 8" by simp
  moreover have "i = bi \<longleftrightarrow> i div 8 = bi div 8 \<and> i mod 8 = bi mod 8" by (metis div_mult_mod_eq)
  ultimately show ?thesis using l by (auto simp: mark_def nth_list_update bit_simps)
qed

lemma bit_clear: "bi div 8 < length d \<Longrightarrow> bit (clear bi d ! (i div 8)) (i mod 8) \<longleftrightarrow> i \<noteq> bi \<and> bit (d ! (i div 8)) (i mod 8)"
proof -
  assume l: "bi div 8 < length d"
  have "i mod 8 < 8" by simp
  moreover have "i = bi \<longleftrightarrow> i div 8 = bi div 8 \<and> i mod 8 = bi mod 8" by (metis div_mult_mod_eq)
  ultimately show ?thesis using l by (auto simp: clear_def nth_list_update bit_simps)
qed

lemma used_bit: "used s b \<longleftrightarrow> bit (content s (bitmap_block s b) ! (b mod BPB div 8)) (b mod BPB mod 8)"
  unfolding used_def by (rule bit_test)


section \<open>Allocating a block\<close>

lemma bzero_ok:
  fixes s :: "'z fmach_scheme"
  assumes "in_tx p H s" and "n \<notin> H" and "unat n < 2 ^ 31" and "buf_room H s 2" and "tx_room s 1"
  shows "\<exists>t. bzero rdev n s = Ok () t \<and> fsteps p H 1 s t \<and> content t = (content s)(n := replicate BSIZE 0) \<and>
    logged_set t = insert n (logged_set s)"
  using update_block [OF assms, of "replicate BSIZE 0"] unfolding bzero_def by auto

lemma set_data_sb [simp]: "sb (set_data b d s) = sb s"
  by (simp add: set_data_def set_buf_def)

lemma content_length: "cinv s \<Longrightarrow> length (content s n) = BSIZE"
  unfolding content_def cinv_def buf_ok_def by (auto split: option.split dest!: find_SomeD)

text \<open>One bitmap block.\<close>

lemma scan_used:
  assumes "BPB dvd b" and "bitmap_ok H s" and "i < BPB" and "b + i < fs_size s"
  shows "bit (content s (bitmap_block s b) ! (i div 8)) (i mod 8) \<longleftrightarrow> used s (b + i)"
proof -
  have m: "(b + i) mod BPB = i" "(b + i) div BPB = b div BPB" using assms(1,3) by (auto elim!: dvdE)
  then have "bitmap_block s (b + i) = bitmap_block s b" using bitmap_block_eq [OF assms(2), of "b + i" b] assms(4) by simp
  then show ?thesis unfolding used_bit m by simp
qed

lemma balloc_loop_ok:
  fixes s :: "'z fmach_scheme"
  assumes "in_tx p H s" and "bitmap_ok H s" and "BPB dvd b" and "fs_size s \<le> b + n * BPB" and "n = 0 \<or> b + (n - 1) * BPB < fs_size s"
    and "buf_room H s 3" and "tx_room s 2"
  shows "if \<forall>j. b \<le> j \<and> j < fs_size s \<longrightarrow> used s j then balloc_loop rdev b n s = Panic ''balloc: out of blocks''
    else \<exists>j t. b \<le> j \<and> j < fs_size s \<and> \<not> used s j \<and> (\<forall>i. b \<le> i \<and> i < j \<longrightarrow> used s i) \<and> balloc_loop rdev b n s = Ok (of_nat j) t \<and>
      fsteps p H 2 s t \<and>
      content t = (content s)(bitmap_block s j := mark (j mod BPB) (content s (bitmap_block s j)), of_nat j := replicate BSIZE 0)"
  using assms
proof (induction n arbitrary: b s)
  case 0
  then show ?case by auto
next
  case (Suc n)
  note P = Suc.prems
  have bs: "b < fs_size s" using P(5) by simp
  let ?n = "bitmap_block s b" and ?m = "min BPB (fs_size s - b)"
  have nH: "?n \<notin> H" using P(2) bs by (auto simp: bitmap_ok_def bitmap_set_def)
  have lt: "unat ?n < 2 ^ 31" using unat_bitmap_block(2) [OF P(2) bs] .
  have len: "length (content s ?n) = BSIZE" by (rule content_length [OF in_txD(2) [OF P(1)]])
  have us: "bit (content s ?n ! (i div 8)) (i mod 8) \<longleftrightarrow> used s (b + i)" if "i < ?m" for i
  proof -
    have "i < BPB" "b + i < fs_size s" using that by linarith+
    then show ?thesis by (rule scan_used [OF P(3,2)])
  qed
  show ?case
  proof (cases "balloc_scan (content s ?n) 0 ?m")
    case None
    have br: "buf_room H s 1" using P(6) by (rule buf_room_mono) simp
    obtain bp t u where t: "bread rdev ?n s = Ok bp t" "b_data (bufs t bp) = content s ?n" "bstate s t" "brelse bp t = Ok () u"
        "fsteps p H 0 s u" "content u = content s"
      using read_block [OF P(1) nH lt br] by blast
    have sbt: "sb t = sb s" using lg_bstate(2) [OF t(3)] by (cases s, cases t) simp
    have sbu: "sb u = sb s" by (rule fsteps_fs(1) [OF t(5)])
    note e = bitmap_same [OF sbu]
    have uu: "used u = used s" by (simp add: fun_eq_iff used_def e t(6))
    have step: "balloc_loop rdev b (Suc n) s = balloc_loop rdev (b + BPB) n u"
      using t None by (simp add: bitmap_block_def fs_size_def sbt)
    have all: "used s j" if "b \<le> j" "j < b + ?m" for j
    proof -
      have lt: "j - b < ?m" using that by linarith
      then have "bit (content s ?n ! ((j - b) div 8)) ((j - b) mod 8)" using None unfolding balloc_scan_None by simp
      then show ?thesis using us [OF lt] that(1) by simp
    qed
    have ok: "bitmap_ok H u" using P(2) by (simp add: bitmap_ok_def e uu sbu)
    have d: "BPB dvd b + BPB" "fs_size u \<le> b + BPB + n * BPB" using P(3,4) by (simp_all add: e)
    have d3: "n = 0 \<or> b + BPB + (n - 1) * BPB < fs_size u" using P(5) by (cases n) (simp_all add: e)
    have ru: "buf_room H u 3" "tx_room u 2"
      using P(6,7) buf_room_steps [OF t(5), of 3] tx_room_steps [OF t(5), of 2] unfolding add_0 by blast+
    have ih: "if \<forall>j. b + BPB \<le> j \<and> j < fs_size s \<longrightarrow> used s j then balloc_loop rdev (b + BPB) n u = Panic ''balloc: out of blocks''
      else \<exists>j t. b + BPB \<le> j \<and> j < fs_size s \<and> \<not> used s j \<and> (\<forall>i. b + BPB \<le> i \<and> i < j \<longrightarrow> used s i) \<and> balloc_loop rdev (b + BPB) n u = Ok (of_nat j) t \<and>
        fsteps p H 2 u t \<and>
        content t = (content s)(bitmap_block s j := mark (j mod BPB) (content s (bitmap_block s j)), of_nat j := replicate BSIZE 0)"
      using Suc.IH [OF fsteps_in_tx [OF t(5)] ok d d3 ru] unfolding e uu t(6) .
    have low: "used s j" if "b \<le> j" "j < b + BPB" "j < fs_size s" for j by (rule all) (use that in linarith)+
    show ?thesis
    proof (cases "\<forall>j. b + BPB \<le> j \<and> j < fs_size s \<longrightarrow> used s j")
      case True
      then have "\<forall>j. b \<le> j \<and> j < fs_size s \<longrightarrow> used s j" using low by (meson not_less)
      then show ?thesis using ih unfolding if_P [OF True] step by simp
    next
      case False
      then obtain j v where j: "b + BPB \<le> j" "j < fs_size s" "\<not> used s j" "\<forall>i. b + BPB \<le> i \<and> i < j \<longrightarrow> used s i"
          "balloc_loop rdev (b + BPB) n u = Ok (of_nat j) v" "fsteps p H 2 u v"
          "content v = (content s)(bitmap_block s j := mark (j mod BPB) (content s (bitmap_block s j)), of_nat j := replicate BSIZE 0)"
        using ih unfolding if_not_P [OF False] by blast
      have "used s i" if "b \<le> i" "i < j" for i using low [of i] j(2,4) that by (cases "i < b + BPB") auto
      moreover have "fsteps p H 2 s v" using fsteps_trans [OF t(5) j(6)] unfolding add_0 .
      moreover have b: "b \<le> j" using j(1) by simp
      have nu: "\<not> (\<forall>j. b \<le> j \<and> j < fs_size s \<longrightarrow> used s j)" using b j(2,3) by blast
      ultimately show ?thesis unfolding if_not_P [OF nu] step using b j(2,3,5,7) by blast
    qed
  next
    case (Some bi)
    define j where "j = b + bi"
    have bi: "bi < ?m" "\<not> used s j" and low: "\<And>i. i < bi \<Longrightarrow> used s (b + i)"
      using Some us unfolding balloc_scan_Some j_def by auto
    have js: "j < fs_size s" "bi < BPB" using bi(1) by (auto simp: j_def)
    have jm: "j mod BPB = bi" "j div BPB = b div BPB" using P(3) js(2) by (auto simp: j_def elim!: dvdE)
    have jn: "bitmap_block s j = ?n" using bitmap_block_eq [OF P(2) js(1) bs] jm(2) by simp
    have jH: "(of_nat j :: u32) \<notin> H" using P(2) js(1) bi(2) by (auto simp: bitmap_ok_def)
    have jl: "unat (of_nat j :: u32) < 2 ^ 31" using P(2) js(1) by (simp add: bitmap_ok_def unat_of_nat_small)
    have r: "buf_room H s 2" "tx_room s 1" using buf_room_mono [OF P(6)] tx_room_mono [OF P(7)] by simp_all
    have ml: "length (mark bi (content s ?n)) = BSIZE" using len by (simp add: mark_def)
    obtain bp t u v where t: "bread rdev ?n s = Ok bp t" "b_data (bufs t bp) = content s ?n" "bstate s t"
        "log_write bp (set_data bp (mark bi (content s ?n)) t) = Ok () u" "brelse bp u = Ok () v" "fsteps p H 1 s v"
        "content v = (content s)(?n := mark bi (content s ?n))"
      using update_block [OF P(1) nH lt r ml] by blast
    have sbt: "sb t = sb s" using lg_bstate(2) [OF t(3)] by (cases s, cases t) simp
    have rv: "buf_room H v 2" "tx_room v 1" using buf_room_steps [OF t(6), of 2] tx_room_steps [OF t(6), of 1] P(6,7) by (simp_all add: numeral_2_eq_2 numeral_3_eq_3)
    obtain w where w: "bzero rdev (of_nat j) v = Ok () w" "fsteps p H 1 v w" "content w = (content v)(of_nat j := replicate BSIZE 0)"
      using bzero_ok [OF fsteps_in_tx [OF t(6)] jH jl rv] by blast
    have "balloc_loop rdev b (Suc n) s = Ok (of_nat j) w"
      using t(1,2,4,5) w(1) Some by (simp add: bitmap_block_def fs_size_def sbt Let_def mark_def j_def)
    moreover have "fsteps p H 2 s w" using fsteps_trans [OF t(6) w(2)] unfolding one_add_one .
    moreover have "used s i" if "b \<le> i" "i < j" for i using low [of "i - b"] that by (simp add: j_def)
    moreover have b: "b \<le> j" by (simp add: j_def)
    moreover have "content w = (content s)(bitmap_block s j := mark (j mod BPB) (content s (bitmap_block s j)), of_nat j := replicate BSIZE 0)"
      unfolding w(3) t(7) jn jm(1) ..
    moreover have nu: "\<not> (\<forall>j. b \<le> j \<and> j < fs_size s \<longrightarrow> used s j)" using b js(1) bi(2) by blast
    ultimately show ?thesis unfolding if_not_P [OF nu] using js(1) bi(2) by blast
  qed
qed

lemma balloc_raw:
  fixes s :: "'z fmach_scheme"
  assumes "in_tx p H s" and "bitmap_ok H s" and "buf_room H s 3" and "tx_room s 2"
  shows "if \<forall>j<fs_size s. used s j then balloc rdev s = Panic ''balloc: out of blocks''
    else \<exists>j t. j < fs_size s \<and> \<not> used s j \<and> (\<forall>i<j. used s i) \<and> balloc rdev s = Ok (of_nat j) t \<and> fsteps p H 2 s t \<and>
      content t = (content s)(bitmap_block s j := mark (j mod BPB) (content s (bitmap_block s j)), of_nat j := replicate BSIZE 0)"
proof -
  define n where "n = (fs_size s + BPB - 1) div BPB"
  have B: "0 < BPB" by (simp add: BPB_val)
  have l: "n * BPB \<le> fs_size s + BPB - 1" "fs_size s + BPB - 1 < BPB + n * BPB"
    unfolding n_def by (rule div_times_less_eq_dividend, rule dividend_less_div_times [OF B])
  have a: "fs_size s \<le> 0 + n * BPB" using l(2) B by linarith
  have b: "n = 0 \<or> 0 + (n - 1) * BPB < fs_size s" using l(1) B by (cases n) auto
  have "balloc rdev s = balloc_loop rdev 0 n s" unfolding balloc_def n_def fs_size_def ..
  then show ?thesis using balloc_loop_ok [OF assms(1,2) dvd_0_right a b assms(3,4)] by (simp cong: if_cong)
qed

text \<open>The bitmap after a change of one bit.\<close>

lemma used_change:
  fixes s :: "'z fmach_scheme" and t :: "'z fmach_scheme"
  assumes "bitmap_ok H s" and "sb t = sb s" and "j < fs_size s" and "i < fs_size s" and "cinv s"
    and "\<And>n. n \<in> bitmap_set s \<Longrightarrow> content t n = ((content s)(bitmap_block s j := f (j mod BPB) (content s (bitmap_block s j)))) n"
    and "\<And>bi d k. bi div 8 < length d \<Longrightarrow> bit (f bi d ! (k div 8)) (k mod 8) \<longleftrightarrow> g (k = bi) (bit (d ! (k div 8)) (k mod 8))"
    and "\<And>x. g False x = x"
  shows "used t i \<longleftrightarrow> g (i = j) (used s i)"
proof -
  note e = bitmap_same [OF assms(2)]
  have m: "bitmap_block s i \<in> bitmap_set s" using assms(4) by (simp add: bitmap_set_def)
  have ij: "i = j \<longleftrightarrow> i div BPB = j div BPB \<and> i mod BPB = j mod BPB" by (metis div_mult_mod_eq)
  have len: "j mod BPB div 8 < length (content s (bitmap_block s j))"
    unfolding content_length [OF assms(5)] by (simp add: BPB_val less_mult_imp_div_less)
  show ?thesis
  proof (cases "i div BPB = j div BPB")
    case True
    then have b: "bitmap_block s i = bitmap_block s j" using bitmap_block_eq [OF assms(1,4,3)] by simp
    show ?thesis unfolding used_bit e b assms(6) [OF m, unfolded b] using assms(7) [OF len, of "i mod BPB"] ij True by simp
  next
    case False
    then have "bitmap_block s i \<noteq> bitmap_block s j" using bitmap_block_eq [OF assms(1,4,3)] by simp
    then show ?thesis unfolding used_bit e assms(6) [OF m] using ij False assms(8) by simp
  qed
qed

definition block_alloc :: "nat \<Rightarrow> u32 set \<Rightarrow> nat \<Rightarrow> 'z fmach_scheme \<Rightarrow> 'z fmach_scheme \<Rightarrow> bool" where
  "block_alloc p H j s t \<longleftrightarrow>
     j < fs_size s \<and> \<not> used s j \<and> fsteps p H 2 s t \<and> bitmap_ok H t \<and> (\<forall>i<fs_size s. used t i \<longleftrightarrow> i = j \<or> used s i) \<and>
     content t (of_nat j) = replicate BSIZE 0 \<and> (\<forall>n. n \<notin> bitmap_set s \<longrightarrow> n \<noteq> of_nat j \<longrightarrow> content t n = content s n)"

lemma balloc_ok:
  fixes s :: "'z fmach_scheme"
  assumes "in_tx p H s" and "bitmap_ok H s" and "buf_room H s 3" and "tx_room s 2"
  shows "if \<forall>j<fs_size s. used s j then balloc rdev s = Panic ''balloc: out of blocks''
    else \<exists>j t. balloc rdev s = Ok (of_nat j) t \<and> (\<forall>i<j. used s i) \<and> block_alloc p H j s t"
proof (cases "\<forall>j<fs_size s. used s j")
  case True
  then show ?thesis using balloc_raw [OF assms] by simp
next
  case False
  then obtain j t where j: "j < fs_size s" "\<not> used s j" "\<forall>i<j. used s i" "balloc rdev s = Ok (of_nat j) t" "fsteps p H 2 s t"
      "content t = (content s)(bitmap_block s j := mark (j mod BPB) (content s (bitmap_block s j)), of_nat j := replicate BSIZE 0)"
    using balloc_raw [OF assms] unfolding if_not_P [OF False] by blast
  have nb: "of_nat j \<notin> bitmap_set s" using assms(2) j(1,2) by (auto simp: bitmap_ok_def)
  have sbt: "sb t = sb s" by (rule fsteps_fs(1) [OF j(5)])
  note e = bitmap_same [OF sbt]
  have u: "used t i \<longleftrightarrow> i = j \<or> used s i" if "i < fs_size s" for i
  proof (rule used_change [OF assms(2) sbt j(1) that in_txD(2) [OF assms(1)], where f = mark and g = "(\<or>)"])
    fix n assume "n \<in> bitmap_set s"
    then show "content t n = ((content s)(bitmap_block s j := mark (j mod BPB) (content s (bitmap_block s j)))) n" using nb by (auto simp: j(6))
  qed (simp_all add: bit_mark)
  have ok: "bitmap_ok H t" using assms(2) u unfolding bitmap_ok_def e sbt by auto
  have out: "content t n = content s n" if "n \<notin> bitmap_set s" "n \<noteq> of_nat j" for n
    using that j(1) by (auto simp: j(6) bitmap_set_def)
  have "content t (of_nat j) = replicate BSIZE 0" by (simp add: j(6))
  then have "block_alloc p H j s t" unfolding block_alloc_def using j(1,2,5) ok u out by blast
  then show ?thesis unfolding if_not_P [OF False] using j(3,4) by blast
qed

section \<open>Freeing a block\<close>

lemma bfree_ok:
  fixes s :: "'z fmach_scheme"
  assumes "in_tx p H s" and "bitmap_ok H s" and "buf_room H s 2" and "tx_room s 1" and "j < fs_size s" and "of_nat j \<notin> H \<union> bitmap_set s"
  shows "if used s j
    then \<exists>t. bfree rdev (of_nat j) s = Ok () t \<and> fsteps p H 1 s t \<and> bitmap_ok H t \<and> (\<forall>i<fs_size s. used t i \<longleftrightarrow> i \<noteq> j \<and> used s i) \<and>
      (\<forall>n. n \<notin> bitmap_set s \<longrightarrow> content t n = content s n)
    else bfree rdev (of_nat j) s = Panic ''freeing free block''"
proof -
  let ?n = "bitmap_block s j"
  have nH: "?n \<notin> H" using assms(2,5) by (auto simp: bitmap_ok_def bitmap_set_def)
  have lt: "unat ?n < 2 ^ 31" by (rule unat_bitmap_block(2) [OF assms(2,5)])
  have uj: "unat (of_nat j :: u32) = j" using assms(2,5) by (simp add: bitmap_ok_def unat_of_nat_small)
  have len: "length (clear (j mod BPB) (content s ?n)) = BSIZE" using content_length [OF in_txD(2) [OF assms(1)]] by (simp add: clear_def)
  obtain bp t u v where t: "bread rdev ?n s = Ok bp t" "b_data (bufs t bp) = content s ?n" "bstate s t"
      "log_write bp (set_data bp (clear (j mod BPB) (content s ?n)) t) = Ok () u" "brelse bp u = Ok () v" "fsteps p H 1 s v"
      "content v = (content s)(?n := clear (j mod BPB) (content s ?n))"
    using update_block [OF assms(1) nH lt assms(3,4) len] by blast
  have raw: "bfree rdev (of_nat j) s = (if used s j then Ok () v else Panic ''freeing free block'')"
    using t(1,2,4,5) unfolding bfree_def bitmap_block_def [symmetric] by (simp add: Let_def uj used_def clear_def)
  have sbv: "sb v = sb s" by (rule fsteps_fs(1) [OF t(6)])
  note e = bitmap_same [OF sbv]
  have u: "used v i \<longleftrightarrow> i \<noteq> j \<and> used s i" if "i < fs_size s" for i
    using used_change [OF assms(2) sbv assms(5) that in_txD(2) [OF assms(1)], where f = clear and g = "\<lambda>a b. \<not> a \<and> b"]
    by (simp add: t(7) bit_clear)
  have "bitmap_ok H v" using assms(2,6) u unfolding bitmap_ok_def e sbv by auto
  moreover have "content v n = content s n" if "n \<notin> bitmap_set s" for n using that assms(5) by (auto simp: t(7) bitmap_set_def)
  ultimately show ?thesis using raw t(6) u by auto
qed

section \<open>Allocating and freeing\<close>

text \<open>A file system of 200 blocks whose first 104 blocks are in use.\<close>

definition bitmap_disk :: "nat \<Rightarrow> byte list" where
  "bitmap_disk n = (if n = 45 then replicate 13 255 @ replicate 1011 0 else replicate BSIZE 0)"

lemma bitmap_disk_length: "length (bitmap_disk n) = BSIZE"
  by (simp add: bitmap_disk_def BSIZE_def)

lemma fboot_in_tx:
  assumes "\<And>n. length (d n) = BSIZE"
  shows "in_tx 0 {} (fboot d)" "content (fboot d) n = d (unat n)"
proof -
  note r = rebooted_lboot [OF assms, unfolded rebooted_def]
  have nc: "\<not> caches (lboot d) b n" for b n using busy0_unused rdev_nz by (simp add: caches_def)
  have e: "bufs (fboot d) = bufs (lboot d)" "disk (fboot d) = disk (lboot d)" "slocks (fboot d) = slocks (lboot d)"
      "lg (fboot d) = log0" "disk (lboot d) = d"
    by (simp_all add: boot_exts)
  have c: "content (fboot d) m = d (unat m)" for m
    using nc [unfolded caches_def] by (auto simp: content_def e(1,2,5) find_None_iff split: option.split dest!: find_SomeD) blast
  then show "content (fboot d) n = d (unat n)" .
  have "refs (fboot d) = refs (lboot d)" "blocked (fboot d) = blocked (lboot d)" "cinv (fboot d) = cinv (lboot d)"
    by (simp_all add: fun_eq_iff refs_def blocked_def caches_def cinv_def buf_ok_def clean_def e split: option.split)
  moreover have "logged_blocks (fboot d) = []" by (simp add: logged_blocks_def nlog_def e log0_def)
  ultimately show "in_tx 0 {} (fboot d)"
    using r calm_boot(1) [of d] by (simp add: in_tx_def c e log0_def)
qed

lemma bitmap_disk_block:
  assumes "b < 200"
  shows "bitmap_block (fboot bitmap_disk) b = 45"
proof -
  have "unat (of_nat b :: u32) = b" using assms by (simp add: unat_of_nat_small)
  then have "(of_nat b :: u32) div of_nat BPB = 0" using assms by (intro word_unat_eq_iff [THEN iffD2]) (simp add: unat_div BPB_val)
  then show ?thesis by (simp add: bitmap_block_def BBLOCK_def boot_exts sb0_def)
qed

lemma bit_255: "k < 8 \<Longrightarrow> bit (255 :: int) k"
proof -
  assume k: "k < 8"
  have e: "(255 :: int) = mask 8" by (simp add: mask_eq_exp_minus_1)
  show "bit (255 :: int) k" unfolding e bit_mask_iff using k by simp
qed

lemma bitmap_disk_used: "b < 200 \<Longrightarrow> used (fboot bitmap_disk) b \<longleftrightarrow> b < 104"
  by (auto simp: used_bit bitmap_disk_block fboot_in_tx(2) [OF bitmap_disk_length] bitmap_disk_def BPB_val nth_append bit_255)

lemma bitmap_disk_ok:
  "fs_size (fboot bitmap_disk) = 200" "bitmap_ok {} (fboot bitmap_disk)" "buf_room {} (fboot bitmap_disk) 5" "tx_room (fboot bitmap_disk) 4"
proof -
  show sz: "fs_size (fboot bitmap_disk) = 200" by (simp add: fs_size_def boot_exts sb0_def)
  have bs: "bitmap_set (fboot bitmap_disk) \<subseteq> {45}" using bitmap_disk_block by (auto simp: bitmap_set_def sz)
  have "of_nat b \<notin> bitmap_set (fboot bitmap_disk)" if "b < 200" "\<not> used (fboot bitmap_disk) b" for b
  proof
    assume "of_nat b \<in> bitmap_set (fboot bitmap_disk)"
    then have "(of_nat b :: u32) = 45" using bs by blast
    then have "unat (of_nat b :: u32) = 45" by simp
    moreover have "unat (of_nat b :: u32) = b" using that(1) by (simp add: unat_of_nat_small)
    ultimately show False using that bitmap_disk_used [of b] by simp
  qed
  moreover have "unat (sb_bmapstart (sb (fboot bitmap_disk))) = 45" by (simp add: boot_exts sb0_def)
  ultimately show "bitmap_ok {} (fboot bitmap_disk)" by (simp add: bitmap_ok_def sz BPB_val)
  show "buf_room {} (fboot bitmap_disk) 5" "tx_room (fboot bitmap_disk) 4"
    by (simp_all add: buf_room_def tx_room_def nlog_def boot_exts log0_def NBUF_def LOGSIZE_def MAXOPBLOCKS_def)
qed

text \<open>C13: The block allocator inside a transaction. When every block is in use, balloc panics. Otherwise it
  returns the first free block, which is then in use and filled with zeros; the other blocks keep their
  state, and no block outside the bitmap changes. Freeing the block with bfree succeeds, makes exactly that block
  free again and changes no block outside the bitmap; freeing it once more panics.\<close>

theorem balloc_bfree_correct:
  fixes s :: "'z fmach_scheme"
  assumes "in_tx p H s" and "bitmap_ok H s" and "buf_room H s 5" and "tx_room s 4"
  shows "if \<forall>j<fs_size s. used s j then balloc rdev s = Panic ''balloc: out of blocks''
    else \<exists>j t u. balloc rdev s = Ok (of_nat j) t \<and> j < fs_size s \<and> \<not> used s j \<and> (\<forall>i<j. used s i) \<and>
      in_tx p H t \<and> bitmap_ok H t \<and> (\<forall>i<fs_size s. used t i \<longleftrightarrow> i = j \<or> used s i) \<and> content t (of_nat j) = replicate BSIZE 0 \<and>
      (\<forall>n. n \<notin> bitmap_set s \<longrightarrow> n \<noteq> of_nat j \<longrightarrow> content t n = content s n) \<and>
      bfree rdev (of_nat j) t = Ok () u \<and> in_tx p H u \<and> bitmap_ok H u \<and> (\<forall>i<fs_size s. used u i \<longleftrightarrow> used s i) \<and>
      (\<forall>n. n \<notin> bitmap_set s \<longrightarrow> content u n = content t n) \<and> bfree rdev (of_nat j) u = Panic ''freeing free block''"
proof (cases "\<forall>j<fs_size s. used s j")
  case True
  then show ?thesis using balloc_ok [OF assms(1,2) buf_room_mono [OF assms(3)] tx_room_mono [OF assms(4)]] by simp
next
  case False
  then obtain j t where j: "balloc rdev s = Ok (of_nat j) t" "\<forall>i<j. used s i" "block_alloc p H j s t"
    using balloc_ok [OF assms(1,2) buf_room_mono [OF assms(3)] tx_room_mono [OF assms(4)]] by (auto split: if_splits)
  note b = j(3) [unfolded block_alloc_def]
  have st: "fsteps p H 2 s t" using b by blast
  note e = bitmap_same [OF fsteps_fs(1) [OF st]]
  have nj: "of_nat j \<notin> H \<union> bitmap_set s" using assms(2) b by (auto simp: bitmap_ok_def)
  have r: "buf_room H t 3" "tx_room t 2"
    by (rule buf_room_steps [OF st], simp add: assms(3), rule tx_room_steps [OF st], simp add: assms(4))
  have "used t j" using b by blast
  moreover have "j < fs_size t" "of_nat j \<notin> H \<union> bitmap_set t" using b nj by (simp_all add: e)
  ultimately obtain u where u: "bfree rdev (of_nat j) t = Ok () u" "fsteps p H 1 t u" "bitmap_ok H u"
      "\<forall>i<fs_size t. used u i \<longleftrightarrow> i \<noteq> j \<and> used t i" "\<forall>n. n \<notin> bitmap_set t \<longrightarrow> content u n = content t n"
    using bfree_ok [OF fsteps_in_tx [OF st] _ buf_room_mono [OF r(1)] tx_room_mono [OF r(2)], of j] b by (auto simp: e)
  note f = bitmap_same [OF fsteps_fs(1) [OF u(2)]]
  have "buf_room H u 2" "tx_room u 1"
    by (rule buf_room_steps [OF u(2)], rule buf_room_mono [OF r(1)], simp, rule tx_room_steps [OF u(2)], rule tx_room_mono [OF r(2)], simp)
  moreover have "\<not> used u j" using u(4) b by (simp add: e)
  ultimately have "bfree rdev (of_nat j) u = Panic ''freeing free block''"
    using bfree_ok [OF fsteps_in_tx [OF u(2)] u(3), of j] b nj by (simp add: e f)
  moreover have "\<forall>i<fs_size s. used u i \<longleftrightarrow> used s i" using u(4) b by (auto simp: e)
  moreover have "\<forall>n. n \<notin> bitmap_set s \<longrightarrow> content u n = content t n" using u(5) by (simp add: e)
  ultimately show ?thesis
    unfolding if_not_P [OF False] using j(1,2) b u(1,3) fsteps_in_tx [OF st] fsteps_in_tx [OF u(2)] by blast
qed

theorem balloc_bfree_correct_witness:
  "\<exists>t u. balloc rdev (fboot bitmap_disk) = Ok 104 t \<and> content t 104 = replicate BSIZE 0 \<and> used t 104 \<and>
    bfree rdev 104 t = Ok () u \<and> \<not> used u 104 \<and> bfree rdev 104 u = Panic ''freeing free block''"
proof -
  let ?s = "fboot bitmap_disk"
  have n: "\<not> (\<forall>j<fs_size ?s. used ?s j)" using bitmap_disk_used [of 150] by (auto simp: bitmap_disk_ok(1) intro!: exI [of _ 150])
  obtain j t u where j: "balloc rdev ?s = Ok (of_nat j) t" "j < 200" "\<not> used ?s j" "\<forall>i<j. used ?s i"
      "\<forall>i<200. used t i \<longleftrightarrow> i = j \<or> used ?s i" "content t (of_nat j) = replicate BSIZE 0"
      "bfree rdev (of_nat j) t = Ok () u" "\<forall>i<200. used u i \<longleftrightarrow> used ?s i" "bfree rdev (of_nat j) u = Panic ''freeing free block''"
    using balloc_bfree_correct [OF fboot_in_tx(1) [OF bitmap_disk_length] bitmap_disk_ok(2-4)]
    unfolding if_not_P [OF n] unfolding bitmap_disk_ok(1) by blast
  have "\<not> j < 104" using j(2,3) bitmap_disk_used [of j] by simp
  moreover have "\<not> 104 < j" using j(4) [rule_format, of 104] bitmap_disk_used [of 104] by auto
  ultimately have "j = 104" by simp
  with j bitmap_disk_used [of 104] show ?thesis by (intro exI [of _ t] exI [of _ u]) simp
qed

end
